theory Spec2Isabelle
  imports Main "HOL-Library.List_Lexorder" "HOL-Library.Char_ord" "HOL-Library.Sublist"
begin

section \<open>JavaScript values and objects\<close>

text \<open>
  The values that travel between the feed, the managers and the store. JavaScript
  numbers are modelled as unbounded integers (token ids, counts and surrogate ids are
  integers); \<open>JNaN\<close> is the result of a \<^verbatim>\<open>parseInt\<close> that finds no digit. HOL equality on
  \<open>jsval\<close> is the SameValueZero comparison of \<^verbatim>\<open>Map\<close>, \<^verbatim>\<open>Set\<close> and \<^verbatim>\<open>Array.includes\<close>.
\<close>

datatype jsval = JUndefined | JNull | JNaN | JNum int | JStr string | JBool bool

text \<open>An object is a list of properties; the first binding of a name is the one read.\<close>

type_synonym jsobj = "(string \<times> jsval) list"

definition js_get :: "jsobj \<Rightarrow> string \<Rightarrow> jsval" where
  "js_get ob f = (case map_of ob f of None \<Rightarrow> JUndefined | Some v \<Rightarrow> v)"

definition js_in :: "jsobj \<Rightarrow> string \<Rightarrow> bool" where
  "js_in ob f = (map_of ob f \<noteq> None)"

text \<open>An element of a \<^verbatim>\<open>values\<close> array: a primitive (enum tables) or an object (rows).\<close>

datatype item = Prim jsval | Obj jsobj

datatype error = TypeError | DbError | FetchError | FormatError

subsection \<open>Decimal numerals\<close>

definition digit_char :: "nat \<Rightarrow> char" where
  "digit_char d = ''0123456789'' ! d"

definition digit_val :: "char \<Rightarrow> nat option" where
  "digit_val c =
     (let n = (of_char c :: nat) in if 48 \<le> n \<and> n \<le> 57 then Some (n - 48) else None)"

fun dec_nat :: "nat \<Rightarrow> string" where
  "dec_nat n = (if n < 10 then [digit_char n] else dec_nat (n div 10) @ [digit_char (n mod 10)])"

declare dec_nat.simps [simp del]

definition dec_int :: "int \<Rightarrow> string" where
  "dec_int i = (if i < 0 then CHR ''-'' # dec_nat (nat (- i)) else dec_nat (nat i))"

fun parse_digits :: "nat \<Rightarrow> string \<Rightarrow> nat option" where
  "parse_digits acc [] = Some acc"
| "parse_digits acc (c # cs) =
     (case digit_val c of None \<Rightarrow> None | Some d \<Rightarrow> parse_digits (10 * acc + d) cs)"

definition parse_nat :: "string \<Rightarrow> nat option" where
  "parse_nat s = (if s = [] then None else parse_digits 0 s)"

text \<open>An optional minus sign followed by at least one digit, and nothing else.\<close>

definition parse_int :: "string \<Rightarrow> int option" where
  "parse_int s =
     (case s of
        [] \<Rightarrow> None
      | c # cs \<Rightarrow>
          if c = CHR ''-'' then map_option (\<lambda>n. - int n) (parse_nat cs)
          else map_option int (parse_nat s))"

text \<open>
  \<^verbatim>\<open>String(v)\<close>, the conversion a template literal \<^verbatim>\<open>${v}\<close> applies.
\<close>

fun js_toString :: "jsval \<Rightarrow> string" where
  "js_toString JUndefined = ''undefined''"
| "js_toString JNull = ''null''"
| "js_toString JNaN = ''NaN''"
| "js_toString (JNum i) = dec_int i"
| "js_toString (JStr s) = s"
| "js_toString (JBool b) = (if b then ''true'' else ''false'')"

section \<open>The relational store behind the connection pool\<close>

text \<open>
  The store is the external collaborator of \<^verbatim>\<open>DatabaseService\<close>; what follows is the
  part of its behaviour that the four statement shapes of the service depend on.

  A literal produced by the \<^verbatim>\<open>%L\<close> directive of the statement formatter is either
  \<^verbatim>\<open>NULL\<close> or a quoted text: numbers and booleans are quoted like strings.
\<close>

datatype sqllit = SqlNull | SqlText string

fun quoteLiteral :: "jsval \<Rightarrow> sqllit" where
  "quoteLiteral JUndefined = SqlNull"
| "quoteLiteral JNull = SqlNull"
| "quoteLiteral (JBool b) = SqlText (if b then ''t'' else ''f'')"
| "quoteLiteral v = SqlText (js_toString v)"

datatype coltype = IntCol | TextCol

text \<open>
  Input conversion of a literal for a column, and the value the driver hands back when
  the cell is read: a number for an integer column, a string for a text column.
  \<open>None\<close> is the store's "invalid input syntax" error.
\<close>

fun coerce :: "coltype \<Rightarrow> sqllit \<Rightarrow> jsval option" where
  "coerce ty SqlNull = Some JNull"
| "coerce IntCol (SqlText s) = map_option JNum (parse_int s)"
| "coerce TextCol (SqlText s) = Some (JStr s)"

type_synonym row = "(string \<times> jsval) list"

definition cell :: "row \<Rightarrow> string \<Rightarrow> jsval" where
  "cell r c = (case map_of r c of None \<Rightarrow> JNull | Some v \<Rightarrow> v)"

text \<open>
  A table: its columns in declaration order, whether \<^verbatim>\<open>id\<close> is \<^verbatim>\<open>SERIAL\<close>, the columns
  under a \<^verbatim>\<open>PRIMARY KEY\<close> or \<^verbatim>\<open>UNIQUE\<close> constraint, the \<^verbatim>\<open>NOT NULL\<close> columns, the next value
  of the sequence, and the rows in insertion order.
\<close>

record table =
  columns :: "(string \<times> coltype) list"
  serial :: bool
  uniques :: "string list"
  notnull :: "string list"
  next_id :: int
  trows :: "row list"

text \<open>
  The statements the service issues, as the store parses them. The operand of the
  \<^verbatim>\<open>WHERE\<close> clause of an update is kept as text: it is what the formatter leaves of the
  value of the key, which the service splices into the template unquoted; all other
  values are literals of the formatter.
\<close>

datatype stmt =
    Select string "string list"
  | Insert string "string list" "sqllit list list" string
  | Update string "string list" "sqllit list" string string
  | Delete string "sqllit list"

text \<open>
  \<open>faults\<close> schedules the failures that the model does not compute (a lost
  connection, a foreign-key violation): the head tells whether the next statement
  fails; an exhausted schedule means no such failure.
\<close>

record database =
  tables :: "string \<Rightarrow> table option"
  faults :: "bool list"

definition conflicts :: "table \<Rightarrow> row \<Rightarrow> row list \<Rightarrow> bool" where
  "conflicts tbl r rs =
     list_ex (\<lambda>r'. list_ex (\<lambda>c. cell r c \<noteq> JNull \<and> cell r c = cell r' c) (uniques tbl)) rs"

text \<open>The cells given by a column list and a tuple of literals; \<open>None\<close> on a bad statement.\<close>

fun coerce_cells :: "(string \<times> coltype) list \<Rightarrow> string list \<Rightarrow> sqllit list \<Rightarrow> row option" where
  "coerce_cells cols [] [] = Some []"
| "coerce_cells cols (f # fs) (l # ls) =
     (case map_of cols f of
        None \<Rightarrow> None
      | Some ty \<Rightarrow>
          (case coerce ty l of
             None \<Rightarrow> None
           | Some v \<Rightarrow> map_option (\<lambda>r. (f, v) # r) (coerce_cells cols fs ls)))"
| "coerce_cells cols _ _ = None"

text \<open>The full row an insert builds: given cells, the sequence default for \<^verbatim>\<open>id\<close>, else null.\<close>

definition build_row :: "table \<Rightarrow> string list \<Rightarrow> sqllit list \<Rightarrow> row option" where
  "build_row tbl fs ls =
     (if \<not> distinct fs then None
      else case coerce_cells (columns tbl) fs ls of
        None \<Rightarrow> None
      | Some given \<Rightarrow>
          let r = map (\<lambda>(c, ty).
                    (c, case map_of given c of
                          Some v \<Rightarrow> v
                        | None \<Rightarrow> if c = ''id'' \<and> serial tbl then JNum (next_id tbl) else JNull))
                  (columns tbl)
          in if list_ex (\<lambda>c. cell r c = JNull) (notnull tbl) then None else Some r)"

text \<open>
  \<^verbatim>\<open>INSERT ... VALUES ... ON CONFLICT DO NOTHING RETURNING pk\<close>: the tuples are taken
  in order; a tuple in conflict with a stored row (or with an earlier tuple of the same
  statement) is skipped; the key of every stored tuple is returned. The sequence
  advances for every tuple that takes its default.
\<close>

fun insert_tuples :: "table \<Rightarrow> string list \<Rightarrow> string \<Rightarrow> sqllit list list \<Rightarrow> (jsval list \<times> table) option" where
  "insert_tuples tbl fs pk [] = Some ([], tbl)"
| "insert_tuples tbl fs pk (ls # rest) =
     (case build_row tbl fs ls of
        None \<Rightarrow> None
      | Some r \<Rightarrow>
          let tbl1 = (if ''id'' \<notin> set fs \<and> serial tbl then tbl\<lparr>next_id := next_id tbl + 1\<rparr> else tbl)
          in if conflicts tbl1 r (trows tbl1) then insert_tuples tbl1 fs pk rest
             else map_option (\<lambda>(ks, t). (cell r pk # ks, t))
                    (insert_tuples (tbl1\<lparr>trows := trows tbl1 @ [r]\<rparr>) fs pk rest))"

text \<open>Replacing the given cells of a stored row.\<close>

definition set_cells :: "row \<Rightarrow> row \<Rightarrow> row" where
  "set_cells given r = map (\<lambda>(c, old). (c, case map_of given c of Some v \<Rightarrow> v | None \<Rightarrow> old)) r"

text \<open>
  \<^verbatim>\<open>UPDATE t SET (fs) = (ls) WHERE pk = w\<close>. The model gives a meaning to the operand
  \<open>w\<close> when it is an integer literal and reports a failure for any other text (what
  such a text can do to the statement is the subject of the section on statement text).
  A column list of fewer than two columns is rejected, as the store asks for a row
  constructor there. Rows are rewritten in place; a rewritten row in conflict with
  another row fails the statement.
\<close>

fun update_rows :: "table \<Rightarrow> row \<Rightarrow> string \<Rightarrow> jsval \<Rightarrow> row list \<Rightarrow> row list \<Rightarrow> row list option" where
  "update_rows tbl given pk k earlier [] = Some []"
| "update_rows tbl given pk k earlier (r # rs) =
     (if cell r pk = k then
        let r' = set_cells given r
        in if list_ex (\<lambda>c. cell r' c = JNull) (notnull tbl) \<or> conflicts tbl r' (earlier @ rs) then None
           else map_option (\<lambda>rs'. r' # rs') (update_rows tbl given pk k (earlier @ [r']) rs)
      else map_option (\<lambda>rs'. r # rs') (update_rows tbl given pk k (earlier @ [r]) rs))"

definition exec :: "table \<Rightarrow> stmt \<Rightarrow> (jsobj list \<times> table) option" where
  "exec tbl st =
     (case st of
        Select t cs \<Rightarrow>
          if list_all (\<lambda>c. map_of (columns tbl) c \<noteq> None) cs
          then Some (map (\<lambda>r. map (\<lambda>c. (c, cell r c)) cs) (trows tbl), tbl)
          else None
      | Insert t fs tuples pk \<Rightarrow>
          if tuples = [] \<or> fs = [] \<or> map_of (columns tbl) pk = None then None
          else map_option (\<lambda>(ks, tbl'). (map (\<lambda>k. [(pk, k)]) ks, tbl')) (insert_tuples tbl fs pk tuples)
      | Update t fs ls pk w \<Rightarrow>
          (case (map_of (columns tbl) pk, parse_int w, coerce_cells (columns tbl) fs ls) of
             (Some ty, Some k, Some given) \<Rightarrow>
               if \<not> distinct fs \<or> length fs < 2 then None
               else map_option (\<lambda>rs. ([], tbl\<lparr>trows := rs\<rparr>)) (update_rows tbl given pk (JNum k) [] (trows tbl))
           | _ \<Rightarrow> None)
      | Delete t ids \<Rightarrow>
          (case (ids, map_of (columns tbl) ''id'') of
             (_ # _, Some ty) \<Rightarrow>
               if list_all (\<lambda>l. coerce ty l \<noteq> None) ids
               then Some ([], tbl\<lparr>trows := filter (\<lambda>r. cell r ''id'' = JNull
                                        \<or> Some (cell r ''id'') \<notin> set (map (coerce ty) ids)) (trows tbl)\<rparr>)
               else None
           | _ \<Rightarrow> None))"

fun stmt_table :: "stmt \<Rightarrow> string" where
  "stmt_table (Select t cs) = t"
| "stmt_table (Insert t fs tuples pk) = t"
| "stmt_table (Update t fs ls pk w) = t"
| "stmt_table (Delete t ids) = t"

text \<open>
  \<^verbatim>\<open>pool.query\<close>: the statement either fails, leaving every table as it was, or takes
  effect as a whole.
\<close>

definition pool_query :: "database \<Rightarrow> stmt \<Rightarrow> (error + jsobj list) \<times> database" where
  "pool_query db st =
     (let db1 = db\<lparr>faults := tl (faults db)\<rparr>
      in if faults db \<noteq> [] \<and> hd (faults db) then (Inl DbError, db1)
         else case tables db (stmt_table st) of
                None \<Rightarrow> (Inl DbError, db1)
              | Some tbl \<Rightarrow>
                  (case exec tbl st of
                     None \<Rightarrow> (Inl DbError, db1)
                   | Some (rows, tbl') \<Rightarrow> (Inr rows, db1\<lparr>tables := (tables db)(stmt_table st \<mapsto> tbl')\<rparr>)))"

section \<open>DatabaseService\<close>

text \<open>\<^verbatim>\<open>fieldNames\<close> is a single name or an array of names.\<close>

datatype fieldnames = FieldName string | FieldNames "string list"

fun join :: "string \<Rightarrow> string list \<Rightarrow> string" where
  "join sep [] = []"
| "join sep [x] = x"
| "join sep (x # y # ys) = x @ sep @ join sep (y # ys)"

text \<open>\<^verbatim>\<open>_fieldString\<close>: the column list as text, and the columns the store reads from it.\<close>

fun fieldString :: "fieldnames \<Rightarrow> string" where
  "fieldString (FieldName f) = f"
| "fieldString (FieldNames fs) = join '','' fs"

fun fieldList :: "fieldnames \<Rightarrow> string list" where
  "fieldList (FieldName f) = [f]"
| "fieldList (FieldNames fs) = fs"

text \<open>
  \<^verbatim>\<open>o[f]\<close>: reading a property of \<^verbatim>\<open>null\<close> or \<^verbatim>\<open>undefined\<close> throws; other primitives
  have no property of a column's name (inherited and index properties are not modelled).
\<close>

fun item_get :: "item \<Rightarrow> string \<Rightarrow> error + jsval" where
  "item_get (Obj ob) f = Inr (js_get ob f)"
| "item_get (Prim JNull) f = Inl TypeError"
| "item_get (Prim JUndefined) f = Inl TypeError"
| "item_get (Prim v) f = Inr JUndefined"

text \<open>The first error of a list of results, or all the values.\<close>

fun collect :: "(error + 'a) list \<Rightarrow> error + 'a list" where
  "collect [] = Inr []"
| "collect (Inl e # xs) = Inl e"
| "collect (Inr v # xs) = (case collect xs of Inl e \<Rightarrow> Inl e | Inr vs \<Rightarrow> Inr (v # vs))"

text \<open>
  \<^verbatim>\<open>_fieldValues\<close>. \<^verbatim>\<open>typeof null\<close> is \<^verbatim>\<open>"object"\<close>, so a \<^verbatim>\<open>null\<close> item is indexed even
  under a single field name. The result is the tuple of values of one row.
\<close>

fun fieldValues :: "fieldnames \<Rightarrow> item \<Rightarrow> error + jsval list" where
  "fieldValues (FieldName f) (Obj ob) = Inr [js_get ob f]"
| "fieldValues (FieldName f) (Prim JNull) = Inl TypeError"
| "fieldValues (FieldName f) (Prim v) = Inr [v]"
| "fieldValues (FieldNames fs) ob = collect (map (item_get ob) fs)"

text \<open>\<^verbatim>\<open>query\<close>: a failed statement is an empty result.\<close>

definition DatabaseService_query :: "database \<Rightarrow> stmt \<Rightarrow> jsobj list \<times> database" where
  "DatabaseService_query db st =
     (case pool_query db st of
        (Inl e, db') \<Rightarrow> ([], db')
      | (Inr rows, db') \<Rightarrow> (rows, db'))"

text \<open>\<^verbatim>\<open>delete\<close> awaits \<^verbatim>\<open>pool.query\<close> itself: a failed statement rejects the call.\<close>

definition DatabaseService_delete :: "database \<Rightarrow> string \<Rightarrow> jsval list \<Rightarrow> (error + unit) \<times> database" where
  "DatabaseService_delete db t ids =
     (case pool_query db (Delete t (map quoteLiteral ids)) of
        (Inl e, db') \<Rightarrow> (Inl e, db')
      | (Inr rows, db') \<Rightarrow> (Inr (), db'))"

definition DatabaseService_insert ::
  "database \<Rightarrow> string \<Rightarrow> fieldnames \<Rightarrow> string \<Rightarrow> item list \<Rightarrow> (error + jsval list) \<times> database" where
  "DatabaseService_insert db tableName fieldNames pkName vals =
     (case collect (map (fieldValues fieldNames) vals) of
        Inl e \<Rightarrow> (Inl e, db)
      | Inr newRows \<Rightarrow>
          let (pkValues, db') =
                DatabaseService_query db
                  (Insert tableName (fieldList fieldNames) (map (map quoteLiteral) newRows) pkName)
          in (Inr (map (\<lambda>ob. js_get ob pkName) pkValues), db'))"

subsection \<open>The formatter\<close>

text \<open>
  The service builds its statements with \<^verbatim>\<open>format\<close> of the \<^verbatim>\<open>pg-format\<close> library. The
  text of a literal (\<^verbatim>\<open>%L\<close>): single quotes and backslashes are doubled, and a text with
  a backslash takes the \<^verbatim>\<open>E\<close> prefix.
\<close>

definition quote_chars :: "string \<Rightarrow> string" where
  "quote_chars s = concat (map (\<lambda>c. if c = CHR 0x27 \<or> c = CHR 0x5C then [c, c] else [c]) s)"

fun literal_text :: "sqllit \<Rightarrow> string" where
  "literal_text SqlNull = ''NULL''"
| "literal_text (SqlText s) =
     (if CHR 0x5C \<in> set s then ''E'' else []) @ [CHR 0x27] @ quote_chars s @ [CHR 0x27]"

text \<open>The text of a value under \<^verbatim>\<open>%s\<close>: the value as it is.\<close>

fun quote_string :: "jsval \<Rightarrow> string" where
  "quote_string JUndefined = []"
| "quote_string JNull = []"
| "quote_string (JBool b) = (if b then ''t'' else ''f'')"
| "quote_string v = js_toString v"

text \<open>
  The text of a value under \<^verbatim>\<open>%I\<close>: \<^verbatim>\<open>null\<close> and \<^verbatim>\<open>undefined\<close> are refused; a name of
  lower-case letters, digits, \<^verbatim>\<open>_\<close> and \<^verbatim>\<open>$\<close> that starts with a letter or \<^verbatim>\<open>_\<close> is
  left as it is, any other text is put between double quotes, its double quotes doubled.
  (The library also quotes the names of its table of reserved words; that table is not
  part of this model.)
\<close>

definition is_digit :: "char \<Rightarrow> bool" where
  "is_digit c = (digit_val c \<noteq> None)"

definition is_lower :: "char \<Rightarrow> bool" where
  "is_lower c = (let n = (of_char c :: nat) in 97 \<le> n \<and> n \<le> 122)"

definition bare_ident :: "string \<Rightarrow> bool" where
  "bare_ident s =
     (case s of
        [] \<Rightarrow> False
      | c # cs \<Rightarrow>
          (is_lower c \<or> c = CHR ''_'')
          \<and> list_all (\<lambda>c. is_lower c \<or> is_digit c \<or> c = CHR ''_'' \<or> c = CHR ''$'') cs)"

fun quote_ident :: "jsval \<Rightarrow> error + string" where
  "quote_ident JUndefined = Inl FormatError"
| "quote_ident JNull = Inl FormatError"
| "quote_ident (JBool b) = Inr ([CHR 0x22] @ (if b then ''t'' else ''f'') @ [CHR 0x22])"
| "quote_ident v =
     (let s = js_toString v
      in Inr (if bare_ident s then s
              else [CHR 0x22] @ concat (map (\<lambda>c. if c = CHR 0x22 then [c, c] else [c]) s) @ [CHR 0x22]))"

text \<open>
  A directive after a \<^verbatim>\<open>%\<close>, as the pattern \<^verbatim>\<open>%(%|(\d+\$)?[ILs])\<close> reads it, and the
  text that follows it: a second \<^verbatim>\<open>%\<close>, a type, or a position, \<^verbatim>\<open>$\<close> and a type.
\<close>

datatype directive = Percent | Next char | Numbered nat char

definition digits_value :: "string \<Rightarrow> nat" where
  "digits_value ds = foldl (\<lambda>n c. 10 * n + (of_char c - 48)) 0 ds"

definition directive :: "string \<Rightarrow> (directive \<times> string) option" where
  "directive cs =
     (case cs of
        [] \<Rightarrow> None
      | c # r \<Rightarrow>
          if c = CHR ''%'' then Some (Percent, r)
          else if c \<in> set ''ILs'' then Some (Next c, r)
          else if is_digit c then
            (case dropWhile is_digit cs of
               d # t # r2 \<Rightarrow>
                 if d = CHR ''$'' \<and> t \<in> set ''ILs''
                 then Some (Numbered (digits_value (takeWhile is_digit cs)) t, r2)
                 else None
             | _ \<Rightarrow> None)
          else None)"

lemma directive_shorter: "directive cs = Some (d, rest) \<Longrightarrow> length rest < length cs"
proof -
  have "length (dropWhile is_digit cs) \<le> length cs" by (rule length_dropWhile_le)
  moreover assume "directive cs = Some (d, rest)"
  ultimately show ?thesis
    by (auto simp: directive_def split: list.splits if_splits)
qed

text \<open>
  \<^verbatim>\<open>format(fmt, arg)\<close> with one argument: the text is read from left to right;
  \<^verbatim>\<open>%%\<close> stands for \<^verbatim>\<open>%\<close>; a type without a position takes the next argument, of which
  there is one; a position other than 1 is refused; every other \<^verbatim>\<open>%\<close> is kept. \<open>arg\<close> gives
  the text of the argument under each type, \<open>index\<close> counts the arguments taken. The
  first refusal is the exception that \<^verbatim>\<open>format\<close> throws.
\<close>

function pg_format :: "(char \<Rightarrow> error + string) \<Rightarrow> nat \<Rightarrow> string \<Rightarrow> error + string" where
  "pg_format arg index [] = Inr []"
| "pg_format arg index (c # cs) =
     (if c \<noteq> CHR ''%'' then map_sum id ((#) c) (pg_format arg index cs)
      else case directive cs of
             None \<Rightarrow> map_sum id ((#) c) (pg_format arg index cs)
           | Some (Percent, rest) \<Rightarrow> map_sum id ((#) c) (pg_format arg index rest)
           | Some (Next t, rest) \<Rightarrow>
               if 0 < index then Inl FormatError
               else (case arg t of
                       Inl e \<Rightarrow> Inl e
                     | Inr txt \<Rightarrow> map_sum id ((@) txt) (pg_format arg 1 rest))
           | Some (Numbered n t, rest) \<Rightarrow>
               if n \<noteq> 1 then Inl FormatError
               else (case arg t of
                       Inl e \<Rightarrow> Inl e
                     | Inr txt \<Rightarrow> map_sum id ((@) txt) (pg_format arg 1 rest)))"
  by pat_completeness auto

termination pg_format
  by (relation "measure (\<lambda>(arg, index, s). length s)") (auto dest: directive_shorter)

declare pg_format.simps [simp del]

subsection \<open>Updates and upserts\<close>

text \<open>
  The argument of \<^verbatim>\<open>update\<close>: the array that holds the result of \<^verbatim>\<open>_fieldValues\<close> (an
  array of values for an array of names, one value for a single name), under each type.
\<close>

definition update_arg :: "fieldnames \<Rightarrow> jsval list \<Rightarrow> char \<Rightarrow> error + string" where
  "update_arg fieldNames xs t =
     (if t = CHR ''L'' then
        Inr (case fieldNames of
               FieldName f \<Rightarrow> join '','' (map (literal_text \<circ> quoteLiteral) xs)
             | FieldNames fs \<Rightarrow> ''('' @ join '', '' (map (literal_text \<circ> quoteLiteral) xs) @ '')'')
      else if t = CHR ''s'' then
        Inr (case fieldNames of
               FieldName f \<Rightarrow> join '','' (map quote_string (filter (\<lambda>v. v \<noteq> JNull \<and> v \<noteq> JUndefined) xs))
             | FieldNames fs \<Rightarrow> ''('' @ join '', '' (map quote_string xs) @ '')'')
      else
        (case fieldNames of
           FieldName f \<Rightarrow> map_sum id (join '','') (collect (map quote_ident xs))
         | FieldNames fs \<Rightarrow> Inl FormatError))"

text \<open>
  The text \<^verbatim>\<open>update\<close> sends for one row (the white space of the template reduced to
  single blanks). The table, the columns, the key name and the value of the key are
  spliced into the template before \<^verbatim>\<open>format\<close> reads it: the values of the \<^verbatim>\<open>SET\<close> clause
  go through \<^verbatim>\<open>%L\<close>, the value of the key is read as part of the template.
\<close>

definition update_text :: "string \<Rightarrow> fieldnames \<Rightarrow> string \<Rightarrow> item \<Rightarrow> error + string" where
  "update_text tableName fieldNames pkName v =
     (case item_get v pkName of
        Inl e \<Rightarrow> Inl e
      | Inr w \<Rightarrow>
          (case fieldValues fieldNames v of
             Inl e \<Rightarrow> Inl e
           | Inr xs \<Rightarrow>
               pg_format (update_arg fieldNames xs) 0
                 (''UPDATE '' @ tableName @ '' SET ('' @ fieldString fieldNames @ '') = %L WHERE ''
                  @ pkName @ '' = '' @ js_toString w)))"

text \<open>
  The statement \<^verbatim>\<open>update\<close> builds for one row, for table and column names without
  directives (as all names of the repository are): the operand of the \<^verbatim>\<open>WHERE\<close> clause is
  what \<^verbatim>\<open>format\<close> makes of the value of the key, after the \<^verbatim>\<open>%L\<close> of the \<^verbatim>\<open>SET\<close> clause has
  taken the argument; an exception of \<^verbatim>\<open>format\<close> is an exception of \<^verbatim>\<open>update\<close>.
\<close>

definition update_stmt :: "string \<Rightarrow> fieldnames \<Rightarrow> string \<Rightarrow> item \<Rightarrow> error + stmt" where
  "update_stmt tableName fieldNames pkName v =
     (case item_get v pkName of
        Inl e \<Rightarrow> Inl e
      | Inr w \<Rightarrow>
          (case fieldValues fieldNames v of
             Inl e \<Rightarrow> Inl e
           | Inr xs \<Rightarrow>
               (case pg_format (update_arg fieldNames xs) 1 (js_toString w) of
                  Inl e \<Rightarrow> Inl e
                | Inr operand \<Rightarrow>
                    Inr (Update tableName (fieldList fieldNames) (map quoteLiteral xs) pkName operand))))"

fun DatabaseService_update ::
  "database \<Rightarrow> string \<Rightarrow> fieldnames \<Rightarrow> string \<Rightarrow> item list \<Rightarrow> (error + unit) \<times> database" where
  "DatabaseService_update db tableName fieldNames pkName [] = (Inr (), db)"
| "DatabaseService_update db tableName fieldNames pkName (v # vs) =
     (case update_stmt tableName fieldNames pkName v of
        Inl e \<Rightarrow> (Inl e, db)
      | Inr st \<Rightarrow>
          DatabaseService_update (snd (DatabaseService_query db st)) tableName fieldNames pkName vs)"

text \<open>
  The pieces of \<^verbatim>\<open>upsert\<close>: the row without its key (destructuring \<^verbatim>\<open>null\<close> or
  \<^verbatim>\<open>undefined\<close> throws), and the test \<^verbatim>\<open>pkName in v && !pkValues.includes(v[pkName])\<close>
  (\<^verbatim>\<open>in\<close> throws on a primitive).
\<close>

fun withoutProp :: "string \<Rightarrow> item \<Rightarrow> error + item" where
  "withoutProp p (Obj ob) = Inr (Obj (filter (\<lambda>(k, v). k \<noteq> p) ob))"
| "withoutProp p (Prim JNull) = Inl TypeError"
| "withoutProp p (Prim JUndefined) = Inl TypeError"
| "withoutProp p (Prim v) = Inr (Obj [])"

fun toUpdate :: "string \<Rightarrow> jsval list \<Rightarrow> item \<Rightarrow> error + bool" where
  "toUpdate pkName pkValues (Obj ob) = Inr (js_in ob pkName \<and> js_get ob pkName \<notin> set pkValues)"
| "toUpdate pkName pkValues (Prim v) = Inl TypeError"

definition DatabaseService_upsert ::
  "database \<Rightarrow> string \<Rightarrow> fieldnames \<Rightarrow> string \<Rightarrow> item list \<Rightarrow> bool \<Rightarrow> (error + unit) \<times> database" where
  "DatabaseService_upsert db tableName fieldNames pkName vals insertPk =
     (let args =
            (if insertPk then Inr (fieldNames, vals)
             else case fieldNames of
                    FieldName f \<Rightarrow> Inl TypeError
                  | FieldNames fs \<Rightarrow>
                      (case collect (map (withoutProp pkName) vals) of
                         Inl e \<Rightarrow> Inl e
                       | Inr rest \<Rightarrow> Inr (FieldNames (filter (\<lambda>f. f \<noteq> pkName) fs), rest)))
      in case args of
           Inl e \<Rightarrow> (Inl e, db)
         | Inr (insFields, insVals) \<Rightarrow>
             (case DatabaseService_insert db tableName insFields pkName insVals of
                (Inl e, db1) \<Rightarrow> (Inl e, db1)
              | (Inr pkValues, db1) \<Rightarrow>
                  (case (if pkValues \<noteq> []
                         then map_sum id (\<lambda>keep. map fst (filter snd (zip vals keep)))
                                (collect (map (toUpdate pkName pkValues) vals))
                         else Inr vals) of
                     Inl e \<Rightarrow> (Inl e, db1)
                   | Inr updatedRows \<Rightarrow>
                       if updatedRows \<noteq> []
                       then DatabaseService_update db1 tableName fieldNames pkName updatedRows
                       else (Inr (), db1))))"

section \<open>Repository\<close>

subsection \<open>Schema\<close>

definition enum_table :: "string \<Rightarrow> table" where
  "enum_table fieldName =
     \<lparr>columns = [(''id'', IntCol), (fieldName, TextCol)], serial = True,
      uniques = [''id'', fieldName], notnull = [''id'', fieldName], next_id = 1, trows = []\<rparr>"

definition UPDATE_HISTORY_table :: table where
  "UPDATE_HISTORY_table =
     \<lparr>columns = [(''id'', IntCol), (''update_timestamp'', TextCol),
                 (''last_asset_timestamp'', TextCol), (''assets_count'', IntCol)],
      serial = True, uniques = [''id''],
      notnull = [''id'', ''update_timestamp'', ''last_asset_timestamp''], next_id = 1, trows = []\<rparr>"

definition CARD_META_table :: table where
  "CARD_META_table =
     \<lparr>columns = [(''id'', IntCol), (''name'', TextCol), (''description'', TextCol),
                 (''image_url'', TextCol), (''advancement'', TextCol), (''card_type'', TextCol),
                 (''element_id'', IntCol), (''rarity_id'', IntCol), (''family_id'', IntCol)],
      serial = False, uniques = [''id''], notnull = [''id''], next_id = 1, trows = []\<rparr>"

definition CARD_table :: table where
  "CARD_table =
     \<lparr>columns = [(''id'', IntCol), (''foil'', IntCol), (''rank'', IntCol), (''grade'', TextCol),
                 (''animationLevel'', IntCol), (''numbering'', IntCol), (''power'', IntCol),
                 (''created_at'', TextCol), (''updated_at'', TextCol),
                 (''card_meta_id'', IntCol), (''user_id'', IntCol)],
      serial = False, uniques = [''id''], notnull = [''id''], next_id = 1, trows = []\<rparr>"

definition MINT_PASS_TYPE_table :: table where
  "MINT_PASS_TYPE_table =
     \<lparr>columns = [(''id'', IntCol), (''pass_type'', TextCol), (''name'', TextCol),
                 (''description'', TextCol), (''image_url'', TextCol)],
      serial = True, uniques = [''id''], notnull = [''id''], next_id = 1, trows = []\<rparr>"

definition MINT_PASS_table :: table where
  "MINT_PASS_table =
     \<lparr>columns = [(''id'', IntCol), (''numbering'', IntCol), (''created_at'', TextCol),
                 (''updated_at'', TextCol), (''mint_pass_type_id'', IntCol), (''user_id'', IntCol)],
      serial = False, uniques = [''id''], notnull = [''id''], next_id = 1, trows = []\<rparr>"

text \<open>\<^verbatim>\<open>CREATE TABLE IF NOT EXISTS\<close>, when the statement does not fail.\<close>

definition create_table :: "string \<Rightarrow> table \<Rightarrow> database \<Rightarrow> database" where
  "create_table t tbl db =
     (case tables db t of None \<Rightarrow> db\<lparr>tables := (tables db)(t \<mapsto> tbl)\<rparr> | Some old \<Rightarrow> db)"

definition createSchema :: "database \<Rightarrow> database" where
  "createSchema db =
     (create_table ''MINT_PASS'' MINT_PASS_table
       (create_table ''MINT_PASS_TYPE'' MINT_PASS_TYPE_table
         (create_table ''CARD'' CARD_table
           (create_table ''CARD_META'' CARD_META_table
             (create_table ''CTA_USER'' (enum_table ''address'')
               (create_table ''FAMILY'' (enum_table ''name'')
                 (create_table ''RARITY'' (enum_table ''name'')
                   (create_table ''ELEMENT'' (enum_table ''name'')
                     (create_table ''UPDATE_HISTORY'' UPDATE_HISTORY_table db)))))))))"

definition empty_store :: database where
  "empty_store = \<lparr>tables = (\<lambda>t. None), faults = []\<rparr>"

subsection \<open>Enum tables\<close>

text \<open>
  A \<^verbatim>\<open>Map\<close> built from entries: membership looks at the keys, \<^verbatim>\<open>get\<close> reads the last
  entry of a key.
\<close>

type_synonym jsmap = "(jsval \<times> jsval) list"

definition map_has :: "jsmap \<Rightarrow> jsval \<Rightarrow> bool" where
  "map_has m k = (k \<in> set (map fst m))"

definition map_get :: "jsmap \<Rightarrow> jsval \<Rightarrow> jsval" where
  "map_get m k = (case map_of (rev m) k of None \<Rightarrow> JUndefined | Some v \<Rightarrow> v)"

definition get_enum_table :: "database \<Rightarrow> string \<Rightarrow> string \<Rightarrow> jsmap \<times> database" where
  "get_enum_table db tableName fieldName =
     (let (rows, db') = DatabaseService_query db (Select tableName [''id'', fieldName])
      in (map (\<lambda>r. (js_get r fieldName, js_get r ''id'')) rows, db'))"

definition insertNewValuesInEnumTable ::
  "database \<Rightarrow> string \<Rightarrow> string \<Rightarrow> jsval list \<Rightarrow> (error + unit) \<times> database" where
  "insertNewValuesInEnumTable db tableName fieldName items =
     (let (existingValues, db1) = get_enum_table db tableName fieldName;
          newValues = filter (\<lambda>v. \<not> map_has existingValues v) items
      in if newValues \<noteq> []
         then (case DatabaseService_insert db1 tableName (FieldName fieldName) ''id'' (map Prim newValues) of
                 (Inl e, db2) \<Rightarrow> (Inl e, db2)
               | (Inr pks, db2) \<Rightarrow> (Inr (), db2))
         else (Inr (), db1))"

definition read_elements :: "database \<Rightarrow> jsmap \<times> database" where
  "read_elements db = get_enum_table db ''ELEMENT'' ''name''"

definition read_rarities :: "database \<Rightarrow> jsmap \<times> database" where
  "read_rarities db = get_enum_table db ''RARITY'' ''name''"

definition read_families :: "database \<Rightarrow> jsmap \<times> database" where
  "read_families db = get_enum_table db ''FAMILY'' ''name''"

definition read_users :: "database \<Rightarrow> jsmap \<times> database" where
  "read_users db = get_enum_table db ''CTA_USER'' ''address''"

definition read_mint_pass_types :: "database \<Rightarrow> jsmap \<times> database" where
  "read_mint_pass_types db =
     (let (rows, db') = DatabaseService_query db (Select ''MINT_PASS_TYPE'' [''id'', ''pass_type''])
      in (map (\<lambda>r. (js_get r ''pass_type'', js_get r ''id'')) rows, db'))"

definition updateElements :: "database \<Rightarrow> jsval list \<Rightarrow> (error + unit) \<times> database" where
  "updateElements db elements = insertNewValuesInEnumTable db ''ELEMENT'' ''name'' elements"

definition updateRarities :: "database \<Rightarrow> jsval list \<Rightarrow> (error + unit) \<times> database" where
  "updateRarities db rarities = insertNewValuesInEnumTable db ''RARITY'' ''name'' rarities"

definition updateFamilies :: "database \<Rightarrow> jsval list \<Rightarrow> (error + unit) \<times> database" where
  "updateFamilies db families = insertNewValuesInEnumTable db ''FAMILY'' ''name'' families"

definition updateUsers :: "database \<Rightarrow> jsval list \<Rightarrow> (error + unit) \<times> database" where
  "updateUsers db users = insertNewValuesInEnumTable db ''CTA_USER'' ''address'' users"

subsection \<open>Fact tables\<close>

text \<open>Truthiness of a value, for \<^verbatim>\<open>c.foil ? 1 : 0\<close>.\<close>

fun truthy :: "jsval \<Rightarrow> bool" where
  "truthy JUndefined = False"
| "truthy JNull = False"
| "truthy JNaN = False"
| "truthy (JNum i) = (i \<noteq> 0)"
| "truthy (JStr s) = (s \<noteq> [])"
| "truthy (JBool b) = b"

definition updateMetaCards :: "database \<Rightarrow> jsobj list \<Rightarrow> (error + unit) \<times> database" where
  "updateMetaCards db metaCards =
     (if length metaCards \<le> 0 then (Inr (), db)
      else
        let (elements, db1) = read_elements db;
            (rarities, db2) = read_rarities db1;
            (families, db3) = read_families db2;
            rows = map (\<lambda>r. Obj ([(''image_url'', js_get r ''imageUrl''),
                                   (''card_type'', js_get r ''cardType''),
                                   (''element_id'', map_get elements (js_get r ''element'')),
                                   (''rarity_id'', map_get rarities (js_get r ''rarity'')),
                                   (''family_id'', map_get families (js_get r ''family''))] @ r)) metaCards
        in DatabaseService_upsert db3 ''CARD_META''
             (FieldNames [''id'', ''name'', ''description'', ''image_url'', ''advancement'',
                          ''card_type'', ''element_id'', ''rarity_id'', ''family_id''])
             ''id'' rows True)"

definition updateCards :: "database \<Rightarrow> jsobj list \<Rightarrow> (error + unit) \<times> database" where
  "updateCards db cards =
     (if length cards \<le> 0 then (Inr (), db)
      else
        let (users, db1) = read_users db;
            rows = map (\<lambda>c. Obj ([(''foil'', JNum (if truthy (js_get c ''foil'') then 1 else 0)),
                                   (''power'', js_get c ''power''),
                                   (''card_meta_id'', js_get c ''card_meta_id''),
                                   (''user_id'', map_get users (js_get c ''user''))] @ c)) cards
        in DatabaseService_upsert db1 ''CARD''
             (FieldNames [''id'', ''foil'', ''rank'', ''grade'', ''animationLevel'', ''numbering'',
                          ''power'', ''created_at'', ''updated_at'', ''card_meta_id'', ''user_id''])
             ''id'' rows True)"

definition updateMintPassTypes :: "database \<Rightarrow> jsobj list \<Rightarrow> (error + unit) \<times> database" where
  "updateMintPassTypes db mintPassTypes =
     (if length mintPassTypes \<le> 0 then (Inr (), db)
      else
        let (existingPassTypes, db1) = read_mint_pass_types db;
            existingPassTypeNames = remdups (map fst existingPassTypes);
            rows = map (\<lambda>p. Obj ([(''pass_type'', js_get p ''passType''),
                                   (''image_url'', js_get p ''imageUrl'')] @ p))
                     (filter (\<lambda>p. js_get p ''passType'' \<notin> set existingPassTypeNames) mintPassTypes)
        in if rows \<noteq> []
           then (case DatabaseService_insert db1 ''MINT_PASS_TYPE''
                        (FieldNames [''pass_type'', ''name'', ''description'', ''image_url'']) ''id'' rows of
                   (Inl e, db2) \<Rightarrow> (Inl e, db2)
                 | (Inr pks, db2) \<Rightarrow> (Inr (), db2))
           else (Inr (), db1))"

definition updateMintPasses :: "database \<Rightarrow> jsobj list \<Rightarrow> (error + unit) \<times> database" where
  "updateMintPasses db mintPasses =
     (if length mintPasses \<le> 0 then (Inr (), db)
      else
        let (users, db1) = read_users db;
            (existingPassTypes, db2) = read_mint_pass_types db1;
            rows = map (\<lambda>r. Obj ([(''mint_pass_type_id'', map_get existingPassTypes (js_get r ''passType'')),
                                   (''user_id'', map_get users (js_get r ''user''))] @ r)) mintPasses
        in DatabaseService_upsert db2 ''MINT_PASS''
             (FieldNames [''id'', ''numbering'', ''created_at'', ''updated_at'',
                          ''mint_pass_type_id'', ''user_id''])
             ''id'' rows True)"

definition burnPasses :: "database \<Rightarrow> jsval list \<Rightarrow> (error + unit) \<times> database" where
  "burnPasses db passIds =
     (if length passIds > 0 then DatabaseService_delete db ''MINT_PASS'' passIds else (Inr (), db))"

definition burnCards :: "database \<Rightarrow> jsval list \<Rightarrow> (error + unit) \<times> database" where
  "burnCards db cardIds =
     (if length cardIds > 0 then DatabaseService_delete db ''CARD'' cardIds else (Inr (), db))"

definition recordUpdate :: "database \<Rightarrow> jsval \<Rightarrow> jsval \<Rightarrow> jsval \<Rightarrow> (error + unit) \<times> database" where
  "recordUpdate db updateTimestamp lastAssetTimestamp assetsCount =
     (case DatabaseService_insert db ''UPDATE_HISTORY''
             (FieldNames [''update_timestamp'', ''last_asset_timestamp'', ''assets_count'']) ''id''
             [Obj [(''update_timestamp'', updateTimestamp),
                   (''last_asset_timestamp'', lastAssetTimestamp),
                   (''assets_count'', assetsCount)]] of
        (Inl e, db') \<Rightarrow> (Inl e, db')
      | (Inr pks, db') \<Rightarrow> (Inr (), db'))"

text \<open>The argument of \<^verbatim>\<open>Repository.update\<close>.\<close>

record candidates =
  arkomes :: "jsval list"
  rarities :: "jsval list"
  families :: "jsval list"
  users :: "jsval list"
  metaCards :: "jsobj list"
  cards :: "jsobj list"
  mintPassTypes :: "jsobj list"
  mintPasses :: "jsobj list"

text \<open>Sequencing of calls that may throw: the first exception ends the sequence.\<close>

definition andThen ::
  "(error + unit) \<times> database \<Rightarrow> (database \<Rightarrow> (error + unit) \<times> database) \<Rightarrow> (error + unit) \<times> database" where
  "andThen r f = (case r of (Inl e, db) \<Rightarrow> (Inl e, db) | (Inr u, db) \<Rightarrow> f db)"

definition Repository_update :: "database \<Rightarrow> candidates \<Rightarrow> (error + unit) \<times> database" where
  "Repository_update db c =
     andThen (andThen (andThen (andThen (andThen (andThen (andThen
       (updateElements db (arkomes c))
       (\<lambda>db. updateRarities db (rarities c)))
       (\<lambda>db. updateFamilies db (families c)))
       (\<lambda>db. updateUsers db (users c)))
       (\<lambda>db. updateMetaCards db (metaCards c)))
       (\<lambda>db. updateCards db (cards c)))
       (\<lambda>db. updateMintPassTypes db (mintPassTypes c)))
       (\<lambda>db. updateMintPasses db (mintPasses c))"

definition burn :: "database \<Rightarrow> jsval list \<Rightarrow> jsval list \<Rightarrow> (error + unit) \<times> database" where
  "burn db passIds cardIds = andThen (burnPasses db passIds) (\<lambda>db. burnCards db cardIds)"

section \<open>CTAManager\<close>

subsection \<open>Assets of the feed\<close>

text \<open>
  A record of the feed. \<open>metadata\<close> is \<open>None\<close> when the record has no metadata block;
  reading a property of it throws then.
\<close>

record asset =
  user :: jsval
  status :: jsval
  token_id :: jsval
  created_at :: jsval
  updated_at :: jsval
  metadata :: "jsobj option"

text \<open>\<^verbatim>\<open>url.substring(url.lastIndexOf("/") + 1)\<close>.\<close>

definition filename_of :: "string \<Rightarrow> string" where
  "filename_of url = rev (takeWhile (\<lambda>c. c \<noteq> CHR ''/'') (rev url))"

text \<open>\<^verbatim>\<open>s.replace(pat, rep)\<close> with a string pattern: the first occurrence only.\<close>

fun replace_first :: "string \<Rightarrow> string \<Rightarrow> string \<Rightarrow> string" where
  "replace_first pat rep [] = (if pat = [] then rep else [])"
| "replace_first pat rep (c # cs) =
     (if take (length pat) (c # cs) = pat then rep @ drop (length pat) (c # cs)
      else c # replace_first pat rep cs)"

definition getMintPassType :: "asset \<Rightarrow> error + string" where
  "getMintPassType a =
     (case metadata a of
        None \<Rightarrow> Inl TypeError
      | Some md \<Rightarrow>
          (case js_get md ''image'' of
             JStr url \<Rightarrow> Inr (replace_first ''.png'' [] (filename_of url))
           | _ \<Rightarrow> Inl TypeError))"

text \<open>\<^verbatim>\<open>filename.split("-")[0]\<close>: the text before the first dash.\<close>

definition getMetaCardId :: "asset \<Rightarrow> error + string" where
  "getMetaCardId a =
     (case metadata a of
        None \<Rightarrow> Inl TypeError
      | Some md \<Rightarrow>
          (case js_get md ''image'' of
             JStr url \<Rightarrow> Inr (takeWhile (\<lambda>c. c \<noteq> CHR ''-'') (filename_of url))
           | _ \<Rightarrow> Inl TypeError))"

subsection \<open>\<^verbatim>\<open>parseInt\<close>\<close>

definition js_space :: "char \<Rightarrow> bool" where
  "js_space c = (c \<in> set [CHR '' '', CHR 0x09, CHR 0x0A, CHR 0x0B, CHR 0x0C, CHR 0x0D])"

definition hex_val :: "char \<Rightarrow> nat option" where
  "hex_val c =
     (case digit_val c of
        Some d \<Rightarrow> Some d
      | None \<Rightarrow>
          if c = CHR ''a'' \<or> c = CHR ''A'' then Some 10 else if c = CHR ''b'' \<or> c = CHR ''B'' then Some 11
          else if c = CHR ''c'' \<or> c = CHR ''C'' then Some 12 else if c = CHR ''d'' \<or> c = CHR ''D'' then Some 13
          else if c = CHR ''e'' \<or> c = CHR ''E'' then Some 14 else if c = CHR ''f'' \<or> c = CHR ''F'' then Some 15
          else None)"

text \<open>The value of the longest prefix of digits, and whether there is a digit at all.\<close>

fun digits_prefix :: "(char \<Rightarrow> nat option) \<Rightarrow> nat \<Rightarrow> nat \<Rightarrow> bool \<Rightarrow> string \<Rightarrow> nat option" where
  "digits_prefix dv radix acc seen [] = (if seen then Some acc else None)"
| "digits_prefix dv radix acc seen (c # cs) =
     (case dv c of
        None \<Rightarrow> (if seen then Some acc else None)
      | Some d \<Rightarrow> digits_prefix dv radix (radix * acc + d) True cs)"

text \<open>
  \<^verbatim>\<open>parseInt(v)\<close>: the text of \<open>v\<close> without leading white space, an optional sign, an
  optional \<^verbatim>\<open>0x\<close>, then the longest prefix of digits; \<^verbatim>\<open>NaN\<close> when there is none.
\<close>

definition parseInt :: "jsval \<Rightarrow> jsval" where
  "parseInt v =
     (let s = dropWhile js_space (js_toString v);
          neg = (s \<noteq> [] \<and> hd s = CHR ''-'');
          s1 = (if s \<noteq> [] \<and> (hd s = CHR ''-'' \<or> hd s = CHR ''+'') then tl s else s);
          r = (if take 2 s1 = ''0x'' \<or> take 2 s1 = ''0X''
               then digits_prefix hex_val 16 0 False (drop 2 s1)
               else digits_prefix digit_val 10 0 False s1)
      in case r of None \<Rightarrow> JNaN | Some n \<Rightarrow> JNum (if neg then - int n else int n))"

subsection \<open>Classification of a page\<close>

text \<open>The maps and sets of one iteration, in insertion order.\<close>

record page_maps =
  metaCards_map :: "(jsval \<times> jsobj) list"
  mintPassTypes_map :: "(jsval \<times> jsobj) list"
  users_set :: "jsval list"
  rarities_set :: "jsval list"
  elements_set :: "jsval list"
  families_set :: "jsval list"
  cards_map :: "(jsval \<times> jsobj) list"
  mintPasses_map :: "(jsval \<times> jsobj) list"

definition empty_maps :: page_maps where
  "empty_maps =
     \<lparr>metaCards_map = [], mintPassTypes_map = [], users_set = [], rarities_set = [],
      elements_set = [], families_set = [], cards_map = [], mintPasses_map = []\<rparr>"

definition set_add :: "jsval list \<Rightarrow> jsval \<Rightarrow> jsval list" where
  "set_add xs v = (if v \<in> set xs then xs else xs @ [v])"

text \<open>\<^verbatim>\<open>if (!m.has(k)) m.set(k, v)\<close>.\<close>

definition set_if_new :: "(jsval \<times> jsobj) list \<Rightarrow> jsval \<Rightarrow> jsobj \<Rightarrow> (jsval \<times> jsobj) list" where
  "set_if_new m k v = (if k \<in> set (map fst m) then m else m @ [(k, v)])"

definition classify_pass :: "page_maps \<Rightarrow> asset \<Rightarrow> jsobj \<Rightarrow> error + page_maps" where
  "classify_pass m a md =
     (case getMintPassType a of
        Inl e \<Rightarrow> Inl e
      | Inr passType \<Rightarrow>
          Inr (m\<lparr>mintPassTypes_map :=
                    set_if_new (mintPassTypes_map m) (JStr passType)
                      [(''passType'', JStr passType), (''name'', js_get md ''name''),
                       (''description'', js_get md ''description''), (''imageUrl'', js_get md ''image'')],
                  mintPasses_map :=
                    set_if_new (mintPasses_map m) (token_id a)
                      [(''id'', parseInt (token_id a)), (''passType'', JStr passType),
                       (''user'', user a), (''numbering'', js_get md ''numbering''),
                       (''created_at'', created_at a), (''updated_at'', updated_at a)]\<rparr>))"

definition classify_card :: "page_maps \<Rightarrow> asset \<Rightarrow> jsobj \<Rightarrow> error + page_maps" where
  "classify_card m a md =
     (case getMetaCardId a of
        Inl e \<Rightarrow> Inl e
      | Inr metaCardId \<Rightarrow>
          Inr (m\<lparr>elements_set := set_add (elements_set m) (js_get md ''element''),
                  rarities_set := set_add (rarities_set m) (js_get md ''rarity''),
                  families_set := set_add (families_set m) (js_get md ''set''),
                  users_set := set_add (users_set m) (user a),
                  metaCards_map :=
                    set_if_new (metaCards_map m) (JStr metaCardId)
                      [(''id'', JStr metaCardId), (''name'', js_get md ''name''),
                       (''description'', js_get md ''description''), (''imageUrl'', js_get md ''image''),
                       (''element'', js_get md ''element''), (''rarity'', js_get md ''rarity''),
                       (''family'', js_get md ''set''), (''advancement'', js_get md ''advancement''),
                       (''cardType'', js_get md ''cardType'')],
                  cards_map :=
                    set_if_new (cards_map m) (token_id a)
                      [(''id'', parseInt (token_id a)), (''card_meta_id'', JStr metaCardId),
                       (''user'', user a), (''status'', status a), (''foil'', js_get md ''foil''),
                       (''rank'', js_get md ''rank''), (''grade'', js_get md ''grade''),
                       (''power'', js_get md ''power''), (''potential'', js_get md ''potential''),
                       (''numbering'', js_get md ''numbering''),
                       (''animationLevel'', js_get md ''animationLevel''),
                       (''created_at'', created_at a), (''updated_at'', updated_at a)]\<rparr>))"

text \<open>The body of the \<^verbatim>\<open>forEach\<close> over the assets that are not burned.\<close>

definition classify_asset :: "page_maps \<Rightarrow> asset \<Rightarrow> error + page_maps" where
  "classify_asset m a =
     (case metadata a of
        None \<Rightarrow> Inl TypeError
      | Some md \<Rightarrow>
          (case (if js_get md ''tokenType'' = JStr ''MINT_PASS'' then classify_pass m a md else Inr m) of
             Inl e \<Rightarrow> Inl e
           | Inr m1 \<Rightarrow>
               if js_get md ''tokenType'' = JStr ''CARD'' then classify_card m1 a md else Inr m1))"

fun classify :: "page_maps \<Rightarrow> asset list \<Rightarrow> error + page_maps" where
  "classify m [] = Inr m"
| "classify m (a # as) = (case classify_asset m a of Inl e \<Rightarrow> Inl e | Inr m' \<Rightarrow> classify m' as)"

definition to_candidates :: "page_maps \<Rightarrow> candidates" where
  "to_candidates m =
     \<lparr>arkomes = elements_set m, rarities = rarities_set m, families = families_set m,
      users = users_set m, metaCards = map snd (metaCards_map m), cards = map snd (cards_map m),
      mintPassTypes = map snd (mintPassTypes_map m), mintPasses = map snd (mintPasses_map m)\<rparr>"

text \<open>The burned assets: the ids of the passes and of the cards, in page order.\<close>

fun burned_ids :: "jsval list \<times> jsval list \<Rightarrow> asset list \<Rightarrow> error + jsval list \<times> jsval list" where
  "burned_ids (burnedPassIds, burnedCardIds) [] = Inr (burnedPassIds, burnedCardIds)"
| "burned_ids (burnedPassIds, burnedCardIds) (a # as) =
     (case metadata a of
        None \<Rightarrow> Inl TypeError
      | Some md \<Rightarrow>
          burned_ids
            (if js_get md ''tokenType'' = JStr ''MINT_PASS''
             then burnedPassIds @ [parseInt (token_id a)] else burnedPassIds,
             if js_get md ''tokenType'' = JStr ''CARD''
             then burnedCardIds @ [parseInt (token_id a)] else burnedCardIds)
            as)"

subsection \<open>The manager and its environment\<close>

text \<open>
  The state of a manager: the retained cursor, the flag of the file source, the store
  behind its repository, the number of clock readings taken, and (for the statements
  below only) the cursors it has sent to the feed.
\<close>

record manager =
  lastCursor :: jsval
  assetsFileAlreadyRead :: bool
  store :: database
  ticks :: nat
  requests :: "jsval list"

text \<open>
  The settings of \<^verbatim>\<open>constants.js\<close> that the cycle reads, the wall clock (the text of
  the \<open>n\<close>-th reading) and the content of the assets file (or the failure to read it).
\<close>

record config =
  ASSETS_SOURCE :: string
  MAX_ASSETS_PER_UPDATE :: nat
  clock :: "nat \<Rightarrow> string"
  assets_file :: "error + asset list"

text \<open>
  The answer of the feed to one \<^verbatim>\<open>listAssets\<close> call: a continuation cursor and a page,
  or an exception. The feed of a run is the list of its answers to the successive calls;
  a call beyond the list does not return.
\<close>

datatype answer = Page jsval "asset list" | Throws error

definition getNewAssetsPage ::
  "manager \<Rightarrow> answer list \<Rightarrow> ((error + asset list) \<times> manager \<times> answer list) option" where
  "getNewAssetsPage m feed =
     (case feed of
        [] \<Rightarrow> None
      | Throws e # rest \<Rightarrow> Some (Inl e, m\<lparr>requests := requests m @ [lastCursor m]\<rparr>, rest)
      | Page cursor result # rest \<Rightarrow>
          Some (Inr result, m\<lparr>requests := requests m @ [lastCursor m], lastCursor := cursor\<rparr>, rest))"

definition getNextAssets ::
  "config \<Rightarrow> manager \<Rightarrow> answer list \<Rightarrow> ((error + asset list) \<times> manager \<times> answer list) option" where
  "getNextAssets cfg m feed =
     (if ASSETS_SOURCE cfg = ''imx'' then getNewAssetsPage m feed
      else if assetsFileAlreadyRead m then Some (Inr [], m, feed)
      else Some (assets_file cfg, m\<lparr>assetsFileAlreadyRead := True\<rparr>, feed))"

text \<open>
  How a call of \<^verbatim>\<open>update\<close> ends: it logs DONE, it logs ABORTED and returns, it rejects
  with an exception, or it is still waiting for the feed.
\<close>

datatype outcome = Done | Aborted | Raised error | Pending

text \<open>
  The body of the loop after the clock reading, for the page \<open>assets\<close>: the writes of
  the page, the deletions and the checkpoint.
\<close>

definition page_writes :: "string \<Rightarrow> database \<Rightarrow> asset list \<Rightarrow> (error + unit) \<times> database" where
  "page_writes updateTs db assets =
     (case classify empty_maps (filter (\<lambda>a. status a \<noteq> JStr ''burned'') assets) of
        Inl e \<Rightarrow> (Inl e, db)
      | Inr maps \<Rightarrow>
          (case Repository_update db (to_candidates maps) of
             (Inl e, db1) \<Rightarrow> (Inl e, db1)
           | (Inr u, db1) \<Rightarrow>
               (case burned_ids ([], []) (filter (\<lambda>a. status a = JStr ''burned'') assets) of
                  Inl e \<Rightarrow> (Inl e, db1)
                | Inr (burnedPassIds, burnedCardIds) \<Rightarrow>
                    (case burn db1 burnedPassIds burnedCardIds of
                       (Inl e, db2) \<Rightarrow> (Inl e, db2)
                     | (Inr u, db2) \<Rightarrow>
                         if length assets > 0
                         then recordUpdate db2 (JStr updateTs) (updated_at (hd assets))
                                (JNum (int (length assets)))
                         else (Inr (), db2)))))"

text \<open>The body of the loop up to the checkpoint: the clock reading, then the writes.\<close>

definition process_page :: "config \<Rightarrow> manager \<Rightarrow> asset list \<Rightarrow> (error + unit) \<times> manager" where
  "process_page cfg m assets =
     (let updateTs = clock cfg (ticks m);
          m0 = m\<lparr>ticks := Suc (ticks m)\<rparr>
      in case page_writes updateTs (store m0) assets of (r, db) \<Rightarrow> (r, m0\<lparr>store := db\<rparr>))"

function update_loop ::
  "config \<Rightarrow> manager \<Rightarrow> asset list \<Rightarrow> nat \<Rightarrow> answer list \<Rightarrow> outcome \<times> manager \<times> answer list" where
  "update_loop cfg m assets assetsCount feed =
     (if length assets > 0 \<and> assetsCount < MAX_ASSETS_PER_UPDATE cfg then
        (case process_page cfg m assets of
           (Inl e, m1) \<Rightarrow> (Raised e, m1, feed)
         | (Inr u, m1) \<Rightarrow>
             (case getNextAssets cfg m1 feed of
                None \<Rightarrow> (Pending, m1, feed)
              | Some (Inl e, m2, feed') \<Rightarrow> (Aborted, m2, feed')
              | Some (Inr assets', m2, feed') \<Rightarrow> update_loop cfg m2 assets' (length assets') feed'))
      else (Done, m, feed))"
  by pat_completeness auto

lemma process_page_flag:
  "process_page cfg m assets = (r, m1) \<Longrightarrow> assetsFileAlreadyRead m1 = assetsFileAlreadyRead m"
  by (auto simp: process_page_def page_writes_def Let_def split: sum.splits prod.splits if_splits)

lemma getNextAssets_measure:
  "getNextAssets cfg m feed = Some (Inr assets', m2, feed') \<Longrightarrow>
   4 * length feed' + (if assetsFileAlreadyRead m2 then 0 else 2) + (if assets' = [] then 0 else 1)
     < 4 * length feed + (if assetsFileAlreadyRead m then 0 else 2) + 1"
  by (auto simp: getNextAssets_def getNewAssetsPage_def split: list.splits answer.splits if_splits)

termination update_loop
  apply (relation "measure (\<lambda>(cfg, m, assets, assetsCount, feed).
          4 * length feed + (if assetsFileAlreadyRead m then 0 else 2) + (if assets = [] then 0 else 1))")
   apply simp
  apply (clarsimp simp del: length_greater_0_conv split del: if_split)
  apply (frule process_page_flag [OF sym])
  apply (drule getNextAssets_measure)
  apply (simp split: if_splits)
  done

declare update_loop.simps [simp del]

text \<open>\<^verbatim>\<open>update\<close>: one synchronisation cycle.\<close>

definition CTAManager_update :: "config \<Rightarrow> manager \<Rightarrow> answer list \<Rightarrow> outcome \<times> manager \<times> answer list" where
  "CTAManager_update cfg m feed =
     (case getNextAssets cfg m feed of
        None \<Rightarrow> (Pending, m, feed)
      | Some (Inl e, m1, feed1) \<Rightarrow> (Aborted, m1, feed1)
      | Some (Inr assets, m1, feed1) \<Rightarrow> update_loop cfg m1 assets (length assets) feed1)"

subsection \<open>Calls of \<^verbatim>\<open>update\<close> that overlap\<close>

text \<open>
  The server starts \<^verbatim>\<open>update\<close> from a timer (\<^verbatim>\<open>setInterval\<close>) that does not wait for the
  previous call, and \<^verbatim>\<open>update\<close> has no guard against a second call: calls can overlap, and
  they share the cursor and the store. A call gives way to the others only where it
  awaits. The model keeps two of these points in each turn of the loop: the call is about
  to ask the feed (\<open>Ready\<close>, also at its start), or it holds a page and the clock reading
  of that turn and is about to write (\<open>Holding\<close>). A step takes one call from one point to
  the next, with no other call in between (every such run is a run of the program: the
  other calls are then the ones whose awaited answers arrive later):

  \<^item> from \<open>Ready\<close>: the request with the retained cursor and its answer, then \<^verbatim>\<open>ABORTED\<close> if
    the feed throws, else the test of the loop and, if it holds, the clock reading;
  \<^item> from \<open>Holding\<close>: the writes of the page and its checkpoint.

  An event is a firing of the timer, which starts a call, or a step of the call with
  the given number. A call that waits for the feed in vain stays \<open>Ready\<close>.
\<close>

datatype call = Ready | Holding "asset list" string | Ended outcome

datatype event = Fire | Step nat

text \<open>One step of a call on the shared manager and feed.\<close>

definition step_call :: "config \<Rightarrow> manager \<Rightarrow> answer list \<Rightarrow> call \<Rightarrow> manager \<times> answer list \<times> call" where
  "step_call cfg m feed c =
     (case c of
        Ready \<Rightarrow>
          (case getNextAssets cfg m feed of
             None \<Rightarrow> (m, feed, Ready)
           | Some (Inl e, m1, feed1) \<Rightarrow> (m1, feed1, Ended Aborted)
           | Some (Inr assets, m1, feed1) \<Rightarrow>
               if length assets > 0 \<and> length assets < MAX_ASSETS_PER_UPDATE cfg
               then (m1\<lparr>ticks := Suc (ticks m1)\<rparr>, feed1, Holding assets (clock cfg (ticks m1)))
               else (m1, feed1, Ended Done))
      | Holding assets updateTs \<Rightarrow>
          (case page_writes updateTs (store m) assets of
             (Inl e, db) \<Rightarrow> (m\<lparr>store := db\<rparr>, feed, Ended (Raised e))
           | (Inr u, db) \<Rightarrow> (m\<lparr>store := db\<rparr>, feed, Ready))
      | Ended r \<Rightarrow> (m, feed, Ended r))"

text \<open>One event on the shared state and the calls started so far.\<close>

fun occur :: "config \<Rightarrow> manager \<times> answer list \<times> call list \<Rightarrow> event \<Rightarrow> manager \<times> answer list \<times> call list" where
  "occur cfg (m, feed, calls) Fire = (m, feed, calls @ [Ready])"
| "occur cfg (m, feed, calls) (Step i) =
     (if i < length calls
      then (case step_call cfg m feed (calls ! i) of (m', feed', c') \<Rightarrow> (m', feed', calls[i := c']))
      else (m, feed, calls))"

definition run :: "config \<Rightarrow> manager \<times> answer list \<times> call list \<Rightarrow> event list \<Rightarrow> manager \<times> answer list \<times> call list" where
  "run cfg st events = foldl (occur cfg) st events"

subsection \<open>A small feed\<close>

text \<open>Records, a fresh manager and settings for the scenarios of the theorems below.\<close>

definition sample_card :: "string \<Rightarrow> string \<Rightarrow> string \<Rightarrow> asset" where
  "sample_card tid owner ts =
     \<lparr>user = JStr owner, status = JStr ''active'', token_id = JStr tid,
      created_at = JStr ''2022-01-01T00:00:00Z'', updated_at = JStr ts,
      metadata = Some [(''tokenType'', JStr ''CARD''), (''name'', JStr ''Axe''),
                       (''image'', JStr ''https://img/17-axe.png''), (''rarity'', JStr ''RARE''),
                       (''element'', JStr ''FIRE''), (''set'', JStr ''CORE''),
                       (''rank'', JNum 1), (''grade'', JStr ''C'')]\<rparr>"

definition sample_pass :: "string \<Rightarrow> string \<Rightarrow> string \<Rightarrow> asset" where
  "sample_pass tid owner ts =
     \<lparr>user = JStr owner, status = JStr ''active'', token_id = JStr tid,
      created_at = JStr ''2022-01-01T00:00:00Z'', updated_at = JStr ts,
      metadata = Some [(''tokenType'', JStr ''MINT_PASS''), (''name'', JStr ''Gold pass''),
                       (''image'', JStr ''https://img/GOLD.png''), (''numbering'', JNum 4)]\<rparr>"

definition new_manager :: manager where
  "new_manager =
     \<lparr>lastCursor = JUndefined, assetsFileAlreadyRead = False,
      store = createSchema empty_store, ticks = 0, requests = []\<rparr>"

definition sample_config :: "nat \<Rightarrow> config" where
  "sample_config ceiling =
     \<lparr>ASSETS_SOURCE = ''imx'', MAX_ASSETS_PER_UPDATE = ceiling, clock = (\<lambda>n. ''T'' @ dec_nat n),
      assets_file = Inr []\<rparr>"

text \<open>The rows of a table of a manager's store.\<close>

definition rows_of :: "manager \<Rightarrow> string \<Rightarrow> row list" where
  "rows_of m t = (case tables (store m) t of None \<Rightarrow> [] | Some tbl \<Rightarrow> trows tbl)"

section \<open>Statement text\<close>

text \<open>The text \<^verbatim>\<open>delete\<close> sends: every id goes through the formatter.\<close>

definition delete_text :: "string \<Rightarrow> jsval list \<Rightarrow> string" where
  "delete_text t ids =
     ''DELETE FROM '' @ t @ '' WHERE id IN ('' @ join '','' (map (literal_text \<circ> quoteLiteral) ids) @ '')''"

section \<open>Notions for the statements about keyed tables\<close>

text \<open>
  The keys of a table, and the tables whose only constraint is an integer primary key
  \<^verbatim>\<open>id\<close> (as \<^verbatim>\<open>CARD_META\<close>, \<^verbatim>\<open>CARD\<close> and \<^verbatim>\<open>MINT_PASS\<close>), with well-formed rows. The cells
  and the key that a candidate object stands for.
\<close>

definition keys_of :: "table \<Rightarrow> jsval list" where
  "keys_of tbl = map (\<lambda>r. cell r ''id'') (trows tbl)"

definition keyed :: "table \<Rightarrow> bool" where
  "keyed tbl \<longleftrightarrow>
     uniques tbl = [''id''] \<and> notnull tbl = [''id''] \<and> map_of (columns tbl) ''id'' = Some IntCol
     \<and> distinct (map fst (columns tbl))
     \<and> list_all (\<lambda>r. map fst r = map fst (columns tbl) \<and> cell r ''id'' \<noteq> JNull) (trows tbl)
     \<and> distinct (keys_of tbl)"

definition candidate_cells :: "table \<Rightarrow> string list \<Rightarrow> jsobj \<Rightarrow> row option" where
  "candidate_cells tbl fs ob = coerce_cells (columns tbl) fs (map (\<lambda>f. quoteLiteral (js_get ob f)) fs)"

definition candidate_key :: "jsobj \<Rightarrow> int option" where
  "candidate_key ob = parse_int (js_toString (js_get ob ''id''))"

text \<open>The row an insert stores for given cells, in a table whose key is given.\<close>

definition full_row :: "table \<Rightarrow> row \<Rightarrow> row" where
  "full_row tbl given =
     map (\<lambda>(c, ty). (c, case map_of given c of Some v \<Rightarrow> v | None \<Rightarrow> JNull)) (columns tbl)"

text \<open>The rows after an update of the row with key \<open>k\<close>.\<close>

definition rewrite :: "row \<Rightarrow> jsval \<Rightarrow> row list \<Rightarrow> row list" where
  "rewrite given k rs = map (\<lambda>r. if cell r ''id'' = k then set_cells given r else r) rs"

text \<open>The rows after the updates of a list of candidates, one after the other.\<close>

definition rewrite_all :: "table \<Rightarrow> string list \<Rightarrow> jsobj list \<Rightarrow> row list \<Rightarrow> row list" where
  "rewrite_all tbl fs obs rs =
     foldl (\<lambda>rs ob. rewrite (the (candidate_cells tbl fs ob)) (JNum (the (candidate_key ob))) rs) rs obs"

text \<open>The rows a table holds after an upsert of the candidates \<open>obs\<close>, given the
  candidates \<open>us\<close> that went through the update.\<close>

definition upserted :: "table \<Rightarrow> string list \<Rightarrow> jsobj list \<Rightarrow> jsobj list \<Rightarrow> row list" where
  "upserted tbl fs obs us =
     rewrite_all tbl fs us
       (trows tbl @ map (\<lambda>ob. full_row tbl (the (candidate_cells tbl fs ob)))
          (filter (\<lambda>ob. JNum (the (candidate_key ob)) \<notin> set (keys_of tbl)) obs))"


text \<open>Mint-pass types for the scenarios below.\<close>

definition sample_pass_type :: "string \<Rightarrow> jsobj" where
  "sample_pass_type name =
     [(''passType'', JStr ''GOLD''), (''name'', JStr name), (''description'', JNull),
      (''imageUrl'', JStr ''https://img/GOLD.png'')]"

text \<open>A card table with one card, and two candidates for it.\<close>

definition card_row :: "int \<Rightarrow> int \<Rightarrow> row" where
  "card_row i rk =
     [(''id'', JNum i), (''foil'', JNum 0), (''rank'', JNum rk), (''grade'', JNull),
      (''animationLevel'', JNull), (''numbering'', JNull), (''power'', JNull),
      (''created_at'', JNull), (''updated_at'', JNull), (''card_meta_id'', JNull),
      (''user_id'', JNull)]"

definition card_store :: database where
  "card_store = \<lparr>tables = [''CARD'' \<mapsto> CARD_table\<lparr>trows := [card_row 1 1]\<rparr>], faults = []\<rparr>"

definition card_candidates :: "jsobj list" where
  "card_candidates = [[(''id'', JNum 1), (''rank'', JNum 3)], [(''id'', JNum 2), (''rank'', JNum 5)]]"

section \<open>Notions for the statements about dimension tables\<close>

text \<open>
  A dimension table as \<^verbatim>\<open>_createSchema\<close> declares it, for the value column \<open>f\<close>, whose
  sequence is ahead of the stored ids.
\<close>

definition dimension_ok :: "table \<Rightarrow> string \<Rightarrow> bool" where
  "dimension_ok tbl f \<longleftrightarrow>
     columns tbl = [(''id'', IntCol), (f, TextCol)] \<and> f \<noteq> ''id'' \<and> serial tbl
     \<and> uniques tbl = [''id'', f] \<and> notnull tbl = [''id'', f]
     \<and> list_all (\<lambda>r. case cell r ''id'' of JNum i \<Rightarrow> i < next_id tbl | _ \<Rightarrow> False) (trows tbl)"

section \<open>Notions for the statements about checkpoints\<close>

text \<open>
  A checkpoint table as \<^verbatim>\<open>_createSchema\<close> declares it, whose sequence is ahead of the
  stored ids; and the row of a checkpoint.
\<close>

definition history_ok :: "table \<Rightarrow> bool" where
  "history_ok tbl \<longleftrightarrow>
     columns tbl = columns UPDATE_HISTORY_table \<and> serial tbl \<and> uniques tbl = [''id'']
     \<and> notnull tbl = notnull UPDATE_HISTORY_table
     \<and> list_all (\<lambda>r. case cell r ''id'' of JNum i \<Rightarrow> i < next_id tbl | _ \<Rightarrow> False) (trows tbl)"

definition checkpoint_row :: "int \<Rightarrow> string \<Rightarrow> string \<Rightarrow> nat \<Rightarrow> row" where
  "checkpoint_row i u s n =
     [(''id'', JNum i), (''update_timestamp'', JStr u), (''last_asset_timestamp'', JStr s),
      (''assets_count'', JNum (int n))]"

text \<open>The checkpoint table is left alone, and no failure appears where none was scheduled.\<close>

definition keeps_history :: "database \<Rightarrow> database \<Rightarrow> bool" where
  "keeps_history db db' \<longleftrightarrow>
     tables db' ''UPDATE_HISTORY'' = tables db ''UPDATE_HISTORY'' \<and> (faults db = [] \<longrightarrow> faults db' = [])"


section \<open>Notions for the statements about cycles\<close>

text \<open>The pages among the answers of a feed.\<close>

fun pages_of :: "answer list \<Rightarrow> asset list list" where
  "pages_of [] = []"
| "pages_of (Page c p # feed) = p # pages_of feed"
| "pages_of (Throws e # feed) = pages_of feed"

text \<open>The order of two upstream timestamps: the order of their texts.\<close>

definition ts_le :: "jsval \<Rightarrow> jsval \<Rightarrow> bool" where
  "ts_le a b = (case (a, b) of (JStr s, JStr t) \<Rightarrow> s \<le> t | _ \<Rightarrow> False)"

text \<open>
  A run of the process whose cycles do not overlap: \<open>k\<close> calls of \<^verbatim>\<open>update\<close> on the same
  feed, each one started after the one before has returned. (The server does not enforce
  this; calls that overlap are the subject of the events and steps above.)
\<close>

fun cycles :: "config \<Rightarrow> manager \<Rightarrow> answer list \<Rightarrow> nat \<Rightarrow> manager \<times> answer list" where
  "cycles cfg m feed 0 = (m, feed)"
| "cycles cfg m feed (Suc k) =
     (case CTAManager_update cfg m feed of (r, m', feed') \<Rightarrow> cycles cfg m' feed' k)"

text \<open>
  The manager after the feed has served the pages \<open>cps\<close> (each with its continuation
  cursor) and each of them has been written: the reference for what a cycle has done
  when it stops after these pages.
\<close>

fun after_pages :: "config \<Rightarrow> manager \<Rightarrow> (jsval \<times> asset list) list \<Rightarrow> (error + unit) \<times> manager" where
  "after_pages cfg m [] = (Inr (), m)"
| "after_pages cfg m ((c, p) # cps) =
     (case process_page cfg (m\<lparr>requests := requests m @ [lastCursor m], lastCursor := c\<rparr>) p of
        (Inl e, m1) \<Rightarrow> (Inl e, m1)
      | (Inr u, m1) \<Rightarrow> after_pages cfg m1 cps)"

text \<open>The checkpoints of a list of pages, from clock reading \<open>t\<close> and id \<open>i\<close> on.\<close>

fun checkpoints :: "config \<Rightarrow> nat \<Rightarrow> int \<Rightarrow> asset list list \<Rightarrow> row list" where
  "checkpoints cfg t i [] = []"
| "checkpoints cfg t i (p # ps) =
     checkpoint_row i (clock cfg t) (js_toString (updated_at (hd p))) (length p)
       # checkpoints cfg (Suc t) (i + 1) ps"

text \<open>A feed for the scenarios about cycles: a page of two cards, a failure, a page of one
  card, and the empty page.\<close>

definition sample_feed :: "answer list" where
  "sample_feed =
     [Page (JStr ''c1'') [sample_card ''1'' ''0xA'' ''2022-05-01'', sample_card ''2'' ''0xB'' ''2022-05-02''],
      Throws FetchError,
      Page (JStr ''c2'') [sample_card ''3'' ''0xA'' ''2022-05-03''],
      Page (JStr ''c3'') []]"

text \<open>The state in which a call leaves the feed with the page \<open>assets\<close>.\<close>

definition fetched :: "config \<Rightarrow> manager \<Rightarrow> asset list \<Rightarrow> manager \<times> call" where
  "fetched cfg m assets =
     (if length assets > 0 \<and> length assets < MAX_ASSETS_PER_UPDATE cfg
      then (m\<lparr>ticks := Suc (ticks m)\<rparr>, Holding assets (clock cfg (ticks m)))
      else (m, Ended Done))"

text \<open>The point at which a call is when \<^verbatim>\<open>update\<close> has ended with the given outcome.\<close>

definition final :: "outcome \<Rightarrow> call" where
  "final r = (if r = Pending then Ready else Ended r)"

text \<open>A feed of two pages of one card each, for two calls that overlap.\<close>

definition overlap_feed :: "answer list" where
  "overlap_feed =
     [Page (JStr ''c1'') [sample_card ''1'' ''0xA'' ''2022-05-01''],
      Page (JStr ''c2'') [sample_card ''2'' ''0xB'' ''2022-05-02''],
      Page (JStr ''c3'') [],
      Page (JStr ''c4'') []]"

section \<open>Notions for the statements about the owners of passes\<close>

text \<open>The kinds of records, the addresses of the user dimension, and the tables whose
  stored ids are integers.\<close>

definition is_pass :: "asset \<Rightarrow> bool" where
  "is_pass a = (case metadata a of None \<Rightarrow> False | Some md \<Rightarrow> js_get md ''tokenType'' = JStr ''MINT_PASS'')"

definition is_card :: "asset \<Rightarrow> bool" where
  "is_card a = (case metadata a of None \<Rightarrow> False | Some md \<Rightarrow> js_get md ''tokenType'' = JStr ''CARD'')"

definition user_addresses :: "database \<Rightarrow> jsval set" where
  "user_addresses db =
     (case tables db ''CTA_USER'' of None \<Rightarrow> {} | Some tbl \<Rightarrow> (\<lambda>r. cell r ''address'') ` set (trows tbl))"

definition int_ids :: "database \<Rightarrow> string \<Rightarrow> bool" where
  "int_ids db t =
     (case tables db t of
        None \<Rightarrow> True
      | Some tbl \<Rightarrow> list_all (\<lambda>r. case cell r ''id'' of JNum i \<Rightarrow> True | _ \<Rightarrow> False) (trows tbl))"

text \<open>A candidate that stands for a pass record.\<close>

definition candidate_of :: "asset \<Rightarrow> jsobj \<Rightarrow> bool" where
  "candidate_of a ob \<longleftrightarrow>
     js_get ob ''id'' = parseInt (token_id a) \<and> js_get ob ''user'' = user a
     \<and> (\<exists>md. metadata a = Some md \<and> js_get ob ''numbering'' = js_get md ''numbering'')"

text \<open>
  A store whose user dimension holds the address \<^verbatim>\<open>0xA\<close>, and a page with a card of
  \<^verbatim>\<open>0xA\<close>, a pass of \<^verbatim>\<open>0xC\<close> and a pass of \<^verbatim>\<open>0xA\<close>.
\<close>

definition pass_store :: database where
  "pass_store =
     \<lparr>tables = [''CTA_USER'' \<mapsto> (enum_table ''address'')
                    \<lparr>next_id := 2, trows := [[(''id'', JNum 1), (''address'', JStr ''0xA'')]]\<rparr>,
                 ''MINT_PASS_TYPE'' \<mapsto> MINT_PASS_TYPE_table,
                 ''MINT_PASS'' \<mapsto> MINT_PASS_table],
      faults = []\<rparr>"

definition pass_page :: "asset list" where
  "pass_page =
     [sample_card ''1'' ''0xA'' ''2022-05-01'', sample_pass ''7'' ''0xC'' ''2022-05-02'',
      sample_pass ''8'' ''0xA'' ''2022-05-03'']"

text \<open>A card whose image name carries a directive of the formatter.\<close>

definition directive_card :: asset where
  "directive_card =
     (sample_card ''1'' ''0xA'' ''2022-05-01'')
       \<lparr>metadata := Some [(''tokenType'', JStr ''CARD''), (''name'', JStr ''Axe''),
                           (''image'', JStr ''https://img/%L-x.png''), (''rarity'', JStr ''RARE''),
                           (''element'', JStr ''FIRE''), (''set'', JStr ''CORE''),
                           (''rank'', JNum 1), (''grade'', JStr ''C'')]\<rparr>"

section \<open>Properties of the decimal numerals\<close>

lemma parse_digits_snoc:
  "parse_digits a (xs @ [c]) =
     (case parse_digits a xs of None \<Rightarrow> None
      | Some m \<Rightarrow> (case digit_val c of None \<Rightarrow> None | Some d \<Rightarrow> Some (10 * m + d)))"
  by (induction xs arbitrary: a) (auto split: option.splits)

lemma digit_val_digit_char: "d < 10 \<Longrightarrow> digit_val (digit_char d) = Some d"
proof -
  assume "d < 10"
  then consider "d = 0" | "d = 1" | "d = 2" | "d = 3" | "d = 4" | "d = 5" | "d = 6" | "d = 7" | "d = 8" | "d = 9"
    by atomize_elim arith
  then show ?thesis
    by cases (simp_all add: digit_val_def digit_char_def)
qed

lemma parse_digits_dec_nat: "parse_digits 0 (dec_nat n) = Some n"
proof (induction n rule: dec_nat.induct)
  case (1 n)
  show ?case
  proof (cases "n < 10")
    case True
    then show ?thesis by (simp add: dec_nat.simps [of n] digit_val_digit_char)
  next
    case False
    with 1 have "parse_digits 0 (dec_nat (n div 10)) = Some (n div 10)" by simp
    with False show ?thesis
      by (simp add: dec_nat.simps [of n] parse_digits_snoc digit_val_digit_char)
  qed
qed

lemma dec_nat_nonempty: "dec_nat n \<noteq> []"
  by (subst dec_nat.simps) simp

lemma dec_nat_no_minus: "hd (dec_nat n) \<noteq> CHR ''-''"
proof (induction n rule: dec_nat.induct)
  case (1 n)
  show ?case
  proof (cases "n < 10")
    case True
    then consider "n = 0" | "n = 1" | "n = 2" | "n = 3" | "n = 4" | "n = 5" | "n = 6" | "n = 7" | "n = 8" | "n = 9"
      by atomize_elim arith
    then show ?thesis
      by cases (simp_all add: dec_nat.simps digit_char_def)
  next
    case False
    with 1 show ?thesis
      by (simp add: dec_nat.simps [of n] dec_nat_nonempty)
  qed
qed

lemma parse_nat_dec_nat: "parse_nat (dec_nat n) = Some n"
  by (simp add: parse_nat_def dec_nat_nonempty parse_digits_dec_nat)

lemma parse_int_dec_int: "parse_int (dec_int i) = Some i"
proof (cases "i < 0")
  case True
  then show ?thesis
    by (simp add: parse_int_def dec_int_def parse_nat_dec_nat)
next
  case False
  obtain c cs where d: "dec_nat (nat i) = c # cs"
    using dec_nat_nonempty [of "nat i"] by (cases "dec_nat (nat i)") auto
  with dec_nat_no_minus [of "nat i"] have "c \<noteq> CHR ''-''" by simp
  with False d parse_nat_dec_nat [of "nat i"] show ?thesis
    by (simp add: parse_int_def dec_int_def)
qed

declare parse_int_dec_int [simp]

section \<open>Properties of the formatter\<close>

lemma pg_format_plain: "CHR ''%'' \<notin> set s \<Longrightarrow> pg_format arg i s = Inr s"
  by (induction s) (auto simp: pg_format.simps)

lemma parse_digits_plain: "parse_digits acc s = Some n \<Longrightarrow> CHR ''%'' \<notin> set s"
  by (induction s arbitrary: acc) (auto simp: digit_val_def Let_def split: option.splits if_splits)

lemma parse_int_plain: "parse_int s = Some n \<Longrightarrow> CHR ''%'' \<notin> set s"
proof (cases s)
  case Nil
  then show ?thesis by simp
next
  case (Cons c cs)
  show "parse_int s = Some n \<Longrightarrow> ?thesis"
  proof (cases "c = CHR ''-''")
    case True
    assume "parse_int s = Some n"
    with True Cons obtain k where "parse_digits 0 cs = Some k"
      by (auto simp: parse_int_def parse_nat_def split: if_splits)
    from parse_digits_plain [OF this] True Cons show ?thesis by simp
  next
    case False
    assume "parse_int s = Some n"
    with False Cons obtain k where "parse_digits 0 s = Some k"
      by (auto simp: parse_int_def parse_nat_def split: if_splits)
    from parse_digits_plain [OF this] show ?thesis .
  qed
qed

lemma pg_format_no_DbError:
  assumes "\<And>t. arg t \<noteq> Inl DbError"
  shows "pg_format arg i s \<noteq> Inl DbError"
proof (induction s arbitrary: i rule: length_induct)
  case (1 s)
  show ?case
  proof (cases s)
    case Nil
    then show ?thesis by (simp add: pg_format.simps)
  next
    case (Cons c cs)
    have plain: "map_sum id f (pg_format arg j r) \<noteq> Inl DbError" if "length r < length s" for f j r
      using "1.IH" that by (cases "pg_format arg j r") auto
    have cs: "length cs < length s" using Cons by simp
    show ?thesis
    proof (cases "c \<noteq> CHR ''%''")
      case True
      with Cons plain [OF cs] show ?thesis by (simp add: pg_format.simps)
    next
      case False
      show ?thesis
      proof (cases "directive cs")
        case None
        with False Cons plain [OF cs] show ?thesis by (simp add: pg_format.simps)
      next
        case (Some p)
        obtain d rest where p: "p = (d, rest)" by (cases p)
        from directive_shorter [of cs d rest] Some p cs have r: "length rest < length s" by simp
        show ?thesis
          using False Cons Some p plain [OF r] assms
          by (cases d) (auto simp: pg_format.simps split: sum.splits)
      qed
    qed
  qed
qed

lemma update_arg_no_DbError: "update_arg fns xs t \<noteq> Inl DbError"
proof -
  have "collect (map quote_ident xs) \<noteq> Inl DbError"
  proof (induction xs)
    case Nil
    show ?case by simp
  next
    case (Cons x xs)
    then show ?case by (cases x) (auto simp: Let_def split: sum.splits)
  qed
  then show ?thesis
    by (cases "collect (map quote_ident xs)") (auto simp: update_arg_def split: fieldnames.splits)
qed

section \<open>The store access layer\<close>

subsection \<open>Deleting by key\<close>

lemma pool_query_Delete:
  assumes "tables db t = Some tbl" and "\<not> (faults db \<noteq> [] \<and> hd (faults db))"
    and "ids \<noteq> []" and "map_of (columns tbl) ''id'' = Some IntCol"
    and "\<forall>i\<in>set ids. \<exists>n. i = JNum n"
  shows "pool_query db (Delete t (map quoteLiteral ids)) =
           (Inr [], db\<lparr>faults := tl (faults db),
                       tables := (tables db)(t \<mapsto> tbl\<lparr>trows := filter (\<lambda>r. cell r ''id'' \<notin> set ids) (trows tbl)\<rparr>)\<rparr>)"
proof -
  have co: "map (coerce IntCol) (map quoteLiteral ids) = map Some ids"
    using assms(5) by (induction ids) auto
  have all: "list_all (\<lambda>l. coerce IntCol l \<noteq> None) (map quoteLiteral ids)"
    using assms(5) by (induction ids) auto
  have nn: "JNull \<notin> set ids" using assms(5) by auto
  have flt: "filter (\<lambda>r. cell r ''id'' = JNull \<or> Some (cell r ''id'') \<notin> set (map (coerce IntCol) (map quoteLiteral ids))) (trows tbl)
           = filter (\<lambda>r. cell r ''id'' \<notin> set ids) (trows tbl)"
    unfolding co using nn by (intro filter_cong) auto
  obtain i irest where ids: "map quoteLiteral ids = i # irest"
    using assms(3) by (cases ids) auto
  have ex: "exec tbl (Delete t (map quoteLiteral ids)) =
        Some ([], tbl\<lparr>trows := filter (\<lambda>r. cell r ''id'' \<notin> set ids) (trows tbl)\<rparr>)"
    using all flt assms(4) unfolding exec_def ids [symmetric]
    by (simp add: ids split: list.splits)
  show ?thesis
    using assms(1,2) ex by (auto simp: pool_query_def Let_def)
qed

text \<open>
  Claim C6, as the code has it. \<^verbatim>\<open>delete(table, ids)\<close> with a list of integer ids that is
  not empty, on a table with an integer \<^verbatim>\<open>id\<close> column and a statement that does not fail,
  returns normally and removes exactly the rows whose \<^verbatim>\<open>id\<close> is in the list: every other
  row and every other table stay as they were, so an id without a row changes nothing.
  The empty list is handled one layer up: \<^verbatim>\<open>burnCards\<close> and \<^verbatim>\<open>burnPasses\<close> return without
  calling \<^verbatim>\<open>delete\<close>, and the store is unchanged.
\<close>

theorem delete_removes_exactly:
  assumes "tables db t = Some tbl" and "\<not> (faults db \<noteq> [] \<and> hd (faults db))"
    and "ids \<noteq> []" and "map_of (columns tbl) ''id'' = Some IntCol"
    and "\<forall>i\<in>set ids. \<exists>n. i = JNum n"
  shows "DatabaseService_delete db t ids =
           (Inr (), db\<lparr>faults := tl (faults db),
                       tables := (tables db)(t \<mapsto> tbl\<lparr>trows := filter (\<lambda>r. cell r ''id'' \<notin> set ids) (trows tbl)\<rparr>)\<rparr>)
         \<and> burnCards db [] = (Inr (), db) \<and> burnPasses db [] = (Inr (), db)"
  using pool_query_Delete [OF assms]
  by (simp add: DatabaseService_delete_def burnCards_def burnPasses_def)

text \<open>
  The theorem at a table of two cards: deleting the ids 2 and 7 removes card 2, keeps
  card 1 and is not disturbed by the absent id 7.
\<close>

theorem delete_removes_exactly_witness:
  "[JNum 2, JNum 7] \<noteq> [] \<and> map_of (columns CARD_table) ''id'' = Some IntCol \<and>
   DatabaseService_delete
     \<lparr>tables = [''CARD'' \<mapsto> CARD_table\<lparr>trows := [[(''id'', JNum 1)], [(''id'', JNum 2)]]\<rparr>], faults = []\<rparr>
     ''CARD'' [JNum 2, JNum 7]
   = (Inr (), \<lparr>tables = [''CARD'' \<mapsto> CARD_table\<lparr>trows := [[(''id'', JNum 1)]]\<rparr>], faults = []\<rparr>)"
  using delete_removes_exactly
    [of "\<lparr>tables = [''CARD'' \<mapsto> CARD_table\<lparr>trows := [[(''id'', JNum 1)], [(''id'', JNum 2)]]\<rparr>], faults = []\<rparr>"
        "''CARD''" "CARD_table\<lparr>trows := [[(''id'', JNum 1)], [(''id'', JNum 2)]]\<rparr>" "[JNum 2, JNum 7]"]
  by (simp add: CARD_table_def cell_def)

text \<open>
  Claim C6 as stated fails on the empty list: \<^verbatim>\<open>delete(table, [])\<close> sends
  \<^verbatim>\<open>DELETE FROM CARD WHERE id IN ()\<close>, the store rejects the statement, and the call
  rejects with it.
\<close>

theorem delete_empty_ids_rejects:
  "fst (DatabaseService_delete (createSchema empty_store) ''CARD'' []) = Inl DbError"
  by (simp add: DatabaseService_delete_def pool_query_def createSchema_def create_table_def
        empty_store_def exec_def CARD_table_def)

subsection \<open>Inserting with conflict-skip\<close>

lemma build_row_notnull:
  "build_row tbl fs ls = Some r \<Longrightarrow> f \<in> set (notnull tbl) \<Longrightarrow> cell r f \<noteq> JNull"
  by (auto simp: build_row_def Let_def list_ex_iff split: if_splits option.splits)

lemma not_conflicts_unique:
  "\<not> conflicts tbl r rs \<Longrightarrow> f \<in> set (uniques tbl) \<Longrightarrow> cell r f \<noteq> JNull \<Longrightarrow>
   cell r f \<notin> (\<lambda>r'. cell r' f) ` set rs"
  by (auto simp: conflicts_def list_ex_iff)

lemma insert_tuples_appends:
  "insert_tuples tbl fs pk tuples = Some (ks, tbl') \<Longrightarrow>
   f \<in> set (uniques tbl) \<Longrightarrow> f \<in> set (notnull tbl) \<Longrightarrow>
   \<exists>new. trows tbl' = trows tbl @ new \<and> distinct (map (\<lambda>r. cell r f) new)
         \<and> (\<forall>r\<in>set new. cell r f \<notin> (\<lambda>r'. cell r' f) ` set (trows tbl))
         \<and> columns tbl' = columns tbl \<and> uniques tbl' = uniques tbl
         \<and> notnull tbl' = notnull tbl \<and> serial tbl' = serial tbl"
proof (induction tuples arbitrary: tbl ks)
  case Nil
  then show ?case by simp
next
  case (Cons ls rest)
  from Cons.prems(1) obtain r where br: "build_row tbl fs ls = Some r"
    by (auto split: option.splits)
  define tbl1 where "tbl1 = (if ''id'' \<notin> set fs \<and> serial tbl then tbl\<lparr>next_id := next_id tbl + 1\<rparr> else tbl)"
  have t1: "trows tbl1 = trows tbl" "uniques tbl1 = uniques tbl" "notnull tbl1 = notnull tbl"
    "columns tbl1 = columns tbl" "serial tbl1 = serial tbl"
    by (simp_all add: tbl1_def)
  have nn: "cell r f \<noteq> JNull" using build_row_notnull [OF br Cons.prems(3)] .
  show ?case
  proof (cases "conflicts tbl1 r (trows tbl1)")
    case True
    with Cons.prems(1) br have "insert_tuples tbl1 fs pk rest = Some (ks, tbl')"
      by (simp add: tbl1_def Let_def)
    from Cons.IH [OF this] Cons.prems(2,3) t1 show ?thesis by simp
  next
    case False
    with Cons.prems(1) br obtain ks' where
      rec: "insert_tuples (tbl1\<lparr>trows := trows tbl1 @ [r]\<rparr>) fs pk rest = Some (ks', tbl')"
      by (auto simp: tbl1_def Let_def split: if_splits)
    from Cons.IH [OF rec] Cons.prems(2,3) t1 obtain new where
      new: "trows tbl' = (trows tbl @ [r]) @ new" "distinct (map (\<lambda>r. cell r f) new)"
        "\<forall>x\<in>set new. cell x f \<notin> (\<lambda>r'. cell r' f) ` set (trows tbl @ [r])"
        "columns tbl' = columns tbl" "uniques tbl' = uniques tbl"
        "notnull tbl' = notnull tbl" "serial tbl' = serial tbl"
      by auto
    have fresh: "cell r f \<notin> (\<lambda>r'. cell r' f) ` set (trows tbl)"
      using not_conflicts_unique [OF False _ nn] Cons.prems(2) t1 by simp
    show ?thesis
      apply (rule exI [of _ "r # new"])
      using new fresh by auto
  qed
qed

text \<open>What a statement can do to the tables.\<close>

lemma pool_query_Select:
  "tables (snd (pool_query db (Select t cs))) = tables db"
  by (auto simp: pool_query_def Let_def exec_def split: option.splits if_splits)

lemma query_Select_tables [simp]:
  "tables (snd (DatabaseService_query db (Select t cs))) = tables db"
  using pool_query_Select [of db t cs]
  by (auto simp: DatabaseService_query_def split: prod.splits sum.splits)

lemma pool_query_Insert:
  assumes "tables db t = Some tbl"
  shows "tables (snd (pool_query db (Insert t fs tuples pk))) = tables db
       \<or> (\<exists>ks tbl'. insert_tuples tbl fs pk tuples = Some (ks, tbl')
             \<and> tables (snd (pool_query db (Insert t fs tuples pk))) = (tables db)(t \<mapsto> tbl'))"
  using assms
  by (auto simp: pool_query_def Let_def exec_def split: option.splits if_splits)

lemma query_Insert:
  assumes "tables db t = Some tbl"
  shows "tables (snd (DatabaseService_query db (Insert t fs tuples pk))) = tables db
       \<or> (\<exists>ks tbl'. insert_tuples tbl fs pk tuples = Some (ks, tbl')
             \<and> tables (snd (DatabaseService_query db (Insert t fs tuples pk))) = (tables db)(t \<mapsto> tbl'))"
  using pool_query_Insert [OF assms, of fs tuples pk]
  by (auto simp: DatabaseService_query_def split: prod.splits sum.splits)

lemma insert_tables:
  assumes "tables db t = Some tbl"
  shows "tables (snd (DatabaseService_insert db t fns pk vals)) = tables db
       \<or> (\<exists>ks tbl' tuples. insert_tuples tbl (fieldList fns) pk tuples = Some (ks, tbl')
             \<and> tables (snd (DatabaseService_insert db t fns pk vals)) = (tables db)(t \<mapsto> tbl'))"
proof (cases "collect (map (fieldValues fns) vals)")
  case (Inl e)
  then show ?thesis by (simp add: DatabaseService_insert_def)
next
  case (Inr newRows)
  obtain rows db' where q:
    "DatabaseService_query db (Insert t (fieldList fns) (map (map quoteLiteral) newRows) pk) = (rows, db')"
    by (cases "DatabaseService_query db (Insert t (fieldList fns) (map (map quoteLiteral) newRows) pk)")
  then have s: "snd (DatabaseService_insert db t fns pk vals) = db'"
    by (simp add: DatabaseService_insert_def Inr)
  from query_Insert [OF assms, of "fieldList fns" "map (map quoteLiteral) newRows" pk] q
  have "tables db' = tables db
       \<or> (\<exists>ks tbl'. insert_tuples tbl (fieldList fns) pk (map (map quoteLiteral) newRows) = Some (ks, tbl')
             \<and> tables db' = (tables db)(t \<mapsto> tbl'))"
    by simp
  then show ?thesis unfolding s by blast
qed

lemma get_enum_table_tables [simp]: "tables (snd (get_enum_table db t f)) = tables db"
proof -
  obtain rows db' where q: "DatabaseService_query db (Select t [''id'', f]) = (rows, db')"
    by (cases "DatabaseService_query db (Select t [''id'', f])")
  then have "snd (get_enum_table db t f) = db'" by (simp add: get_enum_table_def)
  moreover from q query_Select_tables [of db t "[''id'', f]"] have "tables db' = tables db" by simp
  ultimately show ?thesis by simp
qed

lemma pool_query_no_fault:
  assumes "tables db (stmt_table st) = Some tbl" and "faults db = []" and "exec tbl st = Some (rows, tbl')"
  shows "pool_query db st = (Inr rows, db\<lparr>tables := (tables db)(stmt_table st \<mapsto> tbl')\<rparr>)"
  using assms by (simp add: pool_query_def Let_def)

lemma insert_tuples_source:
  "insert_tuples tbl fs pk tuples = Some (ks, tbl') \<Longrightarrow>
   \<exists>new. trows tbl' = trows tbl @ new
      \<and> (\<forall>r\<in>set new. \<exists>ls\<in>set tuples. \<exists>tb. columns tb = columns tbl \<and> build_row tb fs ls = Some r)"
proof (induction tuples arbitrary: tbl ks)
  case Nil
  then show ?case by simp
next
  case (Cons ls rest)
  from Cons.prems(1) obtain r where br: "build_row tbl fs ls = Some r"
    by (auto split: option.splits)
  define tbl1 where "tbl1 = (if ''id'' \<notin> set fs \<and> serial tbl then tbl\<lparr>next_id := next_id tbl + 1\<rparr> else tbl)"
  have t1: "trows tbl1 = trows tbl" "columns tbl1 = columns tbl"
    by (simp_all add: tbl1_def)
  show ?case
  proof (cases "conflicts tbl1 r (trows tbl1)")
    case True
    with Cons.prems(1) br have "insert_tuples tbl1 fs pk rest = Some (ks, tbl')"
      by (simp add: tbl1_def Let_def)
    from Cons.IH [OF this] t1 show ?thesis by auto
  next
    case False
    with Cons.prems(1) br obtain ks' where
      rec: "insert_tuples (tbl1\<lparr>trows := trows tbl1 @ [r]\<rparr>) fs pk rest = Some (ks', tbl')"
      by (auto simp: tbl1_def Let_def split: if_splits)
    from Cons.IH [OF rec] t1 obtain new where
      new: "trows tbl' = (trows tbl @ [r]) @ new"
        "\<forall>x\<in>set new. \<exists>ls\<in>set rest. \<exists>tb. columns tb = columns tbl \<and> build_row tb fs ls = Some x"
      by auto
    show ?thesis
      apply (rule exI [of _ "r # new"])
      using new br by auto
  qed
qed

lemma map_of_columns:
  "f \<in> fst ` set cols \<Longrightarrow> map_of (map (\<lambda>(c, ty). (c, g c)) cols) f = Some (g f)"
  by (induction cols) auto

lemma build_row_single:
  assumes "build_row tb [f] [l] = Some r" and "map_of (columns tb) f = Some ty"
  shows "coerce ty l = Some (cell r f)"
proof -
  from assms obtain v where v: "coerce ty l = Some v"
    by (auto simp: build_row_def split: option.splits)
  have "f \<in> fst ` set (columns tb)" using assms(2) by (metis domI dom_map_of_conv_image_fst)
  note m = map_of_columns [OF this]
  from assms v show ?thesis
    by (auto simp: build_row_def Let_def cell_def m split: option.splits if_splits)
qed

lemma collect_Prim:
  "collect (map (fieldValues (FieldName f)) (map Prim vs)) = Inr rows \<Longrightarrow> rows = map (\<lambda>v. [v]) vs"
proof (induction vs arbitrary: rows)
  case Nil
  then show ?case by simp
next
  case (Cons v vs)
  then show ?case by (cases v) (auto split: sum.splits)
qed

lemma insert_tuples_dimension:
  assumes f: "f \<noteq> ''id''"
  shows "columns tbl = [(''id'', IntCol), (f, TextCol)] \<Longrightarrow> serial tbl \<Longrightarrow>
     uniques tbl = [''id'', f] \<Longrightarrow> notnull tbl = [''id'', f] \<Longrightarrow>
     \<forall>r\<in>set (trows tbl). \<exists>i. cell r ''id'' = JNum i \<and> i < next_id tbl \<Longrightarrow>
     \<exists>ks tbl' new. insert_tuples tbl [f] ''id'' (map (\<lambda>s. [SqlText s]) ss) = Some (ks, tbl')
        \<and> trows tbl' = trows tbl @ new
        \<and> (\<lambda>r. cell r f) ` set new = JStr ` set ss - (\<lambda>r. cell r f) ` set (trows tbl)"
proof (induction ss arbitrary: tbl)
  case Nil
  then show ?case by simp
next
  case (Cons s ss)
  define r where "r = [(''id'', JNum (next_id tbl)), (f, JStr s)]"
  define tbl1 where "tbl1 = tbl\<lparr>next_id := next_id tbl + 1\<rparr>"
  have br: "build_row tbl [f] [SqlText s] = Some r"
    using f Cons.prems(1,2,4) by (simp add: build_row_def r_def cell_def)
  have cell_r: "cell r ''id'' = JNum (next_id tbl)" "cell r f = JStr s"
    using f by (simp_all add: r_def cell_def)
  have conf: "conflicts tbl1 r (trows tbl) \<longleftrightarrow> JStr s \<in> (\<lambda>r. cell r f) ` set (trows tbl)"
    using Cons.prems(3,5) cell_r by (auto simp: conflicts_def tbl1_def list_ex_iff)
  have step: "insert_tuples tbl [f] ''id'' (map (\<lambda>s. [SqlText s]) (s # ss)) =
      (if JStr s \<in> (\<lambda>r. cell r f) ` set (trows tbl)
       then insert_tuples tbl1 [f] ''id'' (map (\<lambda>s. [SqlText s]) ss)
       else map_option (\<lambda>(ks, t). (cell r ''id'' # ks, t))
              (insert_tuples (tbl1\<lparr>trows := trows tbl @ [r]\<rparr>) [f] ''id'' (map (\<lambda>s. [SqlText s]) ss)))"
    using br f Cons.prems(2) conf by (simp add: Let_def tbl1_def [symmetric]) (simp add: tbl1_def)
  show ?case
  proof (cases "JStr s \<in> (\<lambda>r. cell r f) ` set (trows tbl)")
    case True
    have ids: "\<forall>r\<in>set (trows tbl1). \<exists>i. cell r ''id'' = JNum i \<and> i < next_id tbl1"
      using Cons.prems(5) by (fastforce simp: tbl1_def)
    from Cons.IH [of tbl1] Cons.prems(1,2,3,4) ids obtain ks tbl' new where
      a: "insert_tuples tbl1 [f] ''id'' (map (\<lambda>s. [SqlText s]) ss) = Some (ks, tbl')"
        "trows tbl' = trows tbl1 @ new"
        "(\<lambda>r. cell r f) ` set new = JStr ` set ss - (\<lambda>r. cell r f) ` set (trows tbl1)"
      by (auto simp: tbl1_def)
    show ?thesis
      apply (rule exI [of _ ks], rule exI [of _ tbl'], rule exI [of _ new])
      using a True step by (auto simp: tbl1_def)
  next
    case False
    define tbl2 where "tbl2 = tbl1\<lparr>trows := trows tbl @ [r]\<rparr>"
    have ids: "\<forall>r\<in>set (trows tbl2). \<exists>i. cell r ''id'' = JNum i \<and> i < next_id tbl2"
      using Cons.prems(5) cell_r by (fastforce simp: tbl1_def tbl2_def)
    from Cons.IH [of tbl2] Cons.prems(1,2,3,4) ids obtain ks tbl' new where
      a: "insert_tuples tbl2 [f] ''id'' (map (\<lambda>s. [SqlText s]) ss) = Some (ks, tbl')"
        "trows tbl' = trows tbl2 @ new"
        "(\<lambda>r. cell r f) ` set new = JStr ` set ss - (\<lambda>r. cell r f) ` set (trows tbl2)"
      by (auto simp: tbl1_def tbl2_def)
    show ?thesis
      apply (rule exI [of _ "cell r ''id'' # ks"], rule exI [of _ tbl'], rule exI [of _ "r # new"])
      using a False step cell_r by (auto simp: tbl1_def tbl2_def)
  qed
qed

lemma insert_tables_Prim:
  assumes "tables db t = Some tbl"
  shows "tables (snd (DatabaseService_insert db t (FieldName f) pk (map Prim vs))) = tables db
       \<or> (\<exists>ks tbl'. insert_tuples tbl [f] pk (map (\<lambda>v. [quoteLiteral v]) vs) = Some (ks, tbl')
             \<and> tables (snd (DatabaseService_insert db t (FieldName f) pk (map Prim vs))) = (tables db)(t \<mapsto> tbl'))"
proof (cases "collect (map (fieldValues (FieldName f)) (map Prim vs))")
  case (Inl e)
  then show ?thesis by (simp add: DatabaseService_insert_def)
next
  case (Inr newRows)
  from collect_Prim [OF Inr] have nr: "map (map quoteLiteral) newRows = map (\<lambda>v. [quoteLiteral v]) vs"
    by simp
  obtain rows db' where q:
    "DatabaseService_query db (Insert t [f] (map (\<lambda>v. [quoteLiteral v]) vs) pk) = (rows, db')"
    by (cases "DatabaseService_query db (Insert t [f] (map (\<lambda>v. [quoteLiteral v]) vs) pk)")
  then have s: "snd (DatabaseService_insert db t (FieldName f) pk (map Prim vs)) = db'"
    by (simp add: DatabaseService_insert_def Inr nr del: map_map)
  from query_Insert [OF assms, of "[f]" "map (\<lambda>v. [quoteLiteral v]) vs" pk] q
  show ?thesis unfolding s by simp
qed

lemma select_ok:
  assumes "faults db = []" and "tables db t = Some tbl"
    and "list_all (\<lambda>c. map_of (columns tbl) c \<noteq> None) cs"
  shows "DatabaseService_query db (Select t cs) = (map (\<lambda>r. map (\<lambda>c. (c, cell r c)) cs) (trows tbl), db)"
proof -
  have "exec tbl (Select t cs) = Some (map (\<lambda>r. map (\<lambda>c. (c, cell r c)) cs) (trows tbl), tbl)"
    using assms(3) by (simp add: exec_def)
  from pool_query_no_fault [of db "Select t cs", OF _ assms(1) this] assms(2)
  show ?thesis by (simp add: DatabaseService_query_def fun_upd_idem)
qed

lemma get_enum_table_ok:
  assumes "faults db = []" and "tables db t = Some tbl" and "dimension_ok tbl f"
  shows "get_enum_table db t f = (map (\<lambda>r. (cell r f, cell r ''id'')) (trows tbl), db)"
proof -
  from assms(3) have cols: "columns tbl = [(''id'', IntCol), (f, TextCol)]" and f: "f \<noteq> ''id''"
    by (simp_all add: dimension_ok_def)
  have "list_all (\<lambda>c. map_of (columns tbl) c \<noteq> None) [''id'', f]" by (simp add: cols)
  from select_ok [OF assms(1,2) this] f show ?thesis
    by (simp add: get_enum_table_def js_get_def)
qed

lemma insert_dimension_exact:
  assumes "tables db t = Some tbl" and "faults db = []" and "dimension_ok tbl f"
    and "\<forall>v\<in>set items. \<exists>s. v = JStr s"
  shows "\<exists>tbl' new. tables (snd (insertNewValuesInEnumTable db t f items)) t = Some tbl'
      \<and> trows tbl' = trows tbl @ new
      \<and> (\<lambda>r. cell r f) ` set new = set items - (\<lambda>r. cell r f) ` set (trows tbl)"
proof -
  from assms(3) have cols: "columns tbl = [(''id'', IntCol), (f, TextCol)]" and f: "f \<noteq> ''id''"
    and ser: "serial tbl" and un: "uniques tbl = [''id'', f]" and nn: "notnull tbl = [''id'', f]"
    and la: "list_all (\<lambda>r. case cell r ''id'' of JNum i \<Rightarrow> i < next_id tbl | _ \<Rightarrow> False) (trows tbl)"
    by (simp_all add: dimension_ok_def)
  have ids: "\<forall>r\<in>set (trows tbl). \<exists>i. cell r ''id'' = JNum i \<and> i < next_id tbl"
  proof
    fix r assume "r \<in> set (trows tbl)"
    with la have "case cell r ''id'' of JNum i \<Rightarrow> i < next_id tbl | _ \<Rightarrow> False"
      by (simp add: list_all_iff)
    then show "\<exists>i. cell r ''id'' = JNum i \<and> i < next_id tbl"
      by (cases "cell r ''id''") simp_all
  qed
  define newValues where "newValues = filter (\<lambda>v. v \<notin> (\<lambda>r. cell r f) ` set (trows tbl)) items"
  have g: "get_enum_table db t f = (map (\<lambda>r. (cell r f, cell r ''id'')) (trows tbl), db)"
    by (rule get_enum_table_ok [OF assms(2,1,3)])
  have nv: "filter (\<lambda>v. \<not> map_has (map (\<lambda>r. (cell r f, cell r ''id'')) (trows tbl)) v) items = newValues"
    by (simp add: newValues_def map_has_def comp_def)
  have setnv: "set newValues = set items - (\<lambda>r. cell r f) ` set (trows tbl)"
    by (auto simp: newValues_def)
  show ?thesis
  proof (cases "newValues = []")
    case True
    then have "snd (insertNewValuesInEnumTable db t f items) = db"
      by (simp add: insertNewValuesInEnumTable_def g nv)
    with assms(1) setnv True show ?thesis
      by (intro exI [of _ tbl] exI [of _ "[]"]) simp
  next
    case False
    define ss where "ss = map js_toString newValues"
    have strs: "\<forall>v\<in>set newValues. \<exists>s. v = JStr s" using assms(4) by (auto simp: newValues_def)
    then have tup: "map (\<lambda>v. [quoteLiteral v]) newValues = map (\<lambda>s. [SqlText s]) ss"
      by (auto simp: ss_def)
    have unwrap: "JStr ` set ss = set newValues" using strs by (force simp: ss_def)
    have col: "collect (map (fieldValues (FieldName f)) (map Prim newValues)) = Inr (map (\<lambda>v. [v]) newValues)"
      using strs by (induction newValues) auto
    from insert_tuples_dimension [OF f cols ser un nn ids, of ss] obtain ks tbl' new where
      it: "insert_tuples tbl [f] ''id'' (map (\<lambda>s. [SqlText s]) ss) = Some (ks, tbl')"
      and rows: "trows tbl' = trows tbl @ new"
      and cells: "(\<lambda>r. cell r f) ` set new = JStr ` set ss - (\<lambda>r. cell r f) ` set (trows tbl)"
      by blast
    have ne: "map (\<lambda>s. [SqlText s]) ss \<noteq> []" using False by (simp add: ss_def)
    have ex: "exec tbl (Insert t [f] (map (\<lambda>s. [SqlText s]) ss) ''id'') = Some (map (\<lambda>k. [(''id'', k)]) ks, tbl')"
      using it ne by (simp add: exec_def cols)
    from pool_query_no_fault [of db "Insert t [f] (map (\<lambda>s. [SqlText s]) ss) ''id''", OF _ assms(2) ex] assms(1)
    have q: "DatabaseService_query db (Insert t [f] (map (\<lambda>s. [SqlText s]) ss) ''id'')
        = (map (\<lambda>k. [(''id'', k)]) ks, db\<lparr>tables := (tables db)(t \<mapsto> tbl')\<rparr>)"
      by (simp add: DatabaseService_query_def)
    have "snd (DatabaseService_insert db t (FieldName f) ''id'' (map Prim newValues))
        = db\<lparr>tables := (tables db)(t \<mapsto> tbl')\<rparr>"
    proof -
      have "map (map quoteLiteral) (map (\<lambda>v. [v]) newValues) = map (\<lambda>s. [SqlText s]) ss"
        using tup by (simp add: comp_def)
      then show ?thesis
        unfolding DatabaseService_insert_def col sum.case fieldList.simps by (simp only: q) simp
    qed
    with False have "snd (insertNewValuesInEnumTable db t f items) = db\<lparr>tables := (tables db)(t \<mapsto> tbl')\<rparr>"
      by (cases "fst (DatabaseService_insert db t (FieldName f) ''id'' (map Prim newValues))")
         (auto simp: insertNewValuesInEnumTable_def g nv split: prod.splits sum.splits)
    with rows cells unwrap setnv show ?thesis
      by (intro exI [of _ tbl'] exI [of _ new]) simp
  qed
qed

text \<open>
  Claim C4. Take a dimension table, that is a table whose value column is a text column
  under \<^verbatim>\<open>UNIQUE\<close> and \<^verbatim>\<open>NOT NULL\<close> (as \<^verbatim>\<open>ELEMENT\<close>, \<^verbatim>\<open>RARITY\<close>, \<^verbatim>\<open>FAMILY\<close> and \<^verbatim>\<open>CTA_USER\<close>
  are). Whatever the candidates and whatever statement fails, the enum-table insert only
  appends rows: the rows that were there stay where they are with their ids and values;
  every appended row carries the text of one of the candidates, a value that no earlier
  row and no other appended row has. When no statement fails, the table is as the schema
  declares it with its sequence ahead of the stored ids, and the candidates are texts,
  the values of the appended rows are exactly the candidates that the table did not hold.
\<close>

theorem enum_table_append_only:
  assumes "tables db t = Some tbl" and "f \<in> set (uniques tbl)" and "f \<in> set (notnull tbl)"
    and "map_of (columns tbl) f = Some TextCol"
  shows "\<exists>tbl' new. tables (snd (insertNewValuesInEnumTable db t f items)) t = Some tbl'
           \<and> trows tbl' = trows tbl @ new
           \<and> distinct (map (\<lambda>r. cell r f) new)
           \<and> (\<forall>r\<in>set new. cell r f \<notin> (\<lambda>r'. cell r' f) ` set (trows tbl))
           \<and> (\<forall>r\<in>set new. \<exists>v\<in>set items. coerce TextCol (quoteLiteral v) = Some (cell r f))
           \<and> (faults db = [] \<and> dimension_ok tbl f \<and> (\<forall>v\<in>set items. \<exists>s. v = JStr s) \<longrightarrow>
                (\<lambda>r. cell r f) ` set new = set items - (\<lambda>r'. cell r' f) ` set (trows tbl))"
proof -
  obtain existingValues db1 where g: "get_enum_table db t f = (existingValues, db1)"
    by (cases "get_enum_table db t f")
  have t1: "tables db1 = tables db"
    using get_enum_table_tables [of db t f] g by simp
  define newValues where "newValues = filter (\<lambda>v. \<not> map_has existingValues v) items"
  have general: "\<exists>tbl' new. tables (snd (insertNewValuesInEnumTable db t f items)) t = Some tbl'
           \<and> trows tbl' = trows tbl @ new
           \<and> distinct (map (\<lambda>r. cell r f) new)
           \<and> (\<forall>r\<in>set new. cell r f \<notin> (\<lambda>r'. cell r' f) ` set (trows tbl))
           \<and> (\<forall>r\<in>set new. \<exists>v\<in>set items. coerce TextCol (quoteLiteral v) = Some (cell r f))"
  proof -
    have unchanged: ?thesis if "tables (snd (insertNewValuesInEnumTable db t f items)) = tables db"
      using that assms(1) by (intro exI [of _ tbl] exI [of _ "[]"]) simp
    show ?thesis
    proof (cases "newValues = []")
      case True
      then have "snd (insertNewValuesInEnumTable db t f items) = db1"
        by (simp add: insertNewValuesInEnumTable_def newValues_def g)
      then show ?thesis using unchanged t1 by simp
    next
      case False
      obtain res db2 where i: "DatabaseService_insert db1 t (FieldName f) ''id'' (map Prim newValues) = (res, db2)"
        by (cases "DatabaseService_insert db1 t (FieldName f) ''id'' (map Prim newValues)")
      with False have eq: "snd (insertNewValuesInEnumTable db t f items) = db2"
        by (cases res) (simp_all add: insertNewValuesInEnumTable_def newValues_def g)
      have "tables db1 t = Some tbl" using t1 assms(1) by simp
      from insert_tables_Prim [OF this, of f "''id''" newValues] i
      have "tables db2 = tables db1
         \<or> (\<exists>ks tbl'. insert_tuples tbl [f] ''id'' (map (\<lambda>v. [quoteLiteral v]) newValues) = Some (ks, tbl')
               \<and> tables db2 = (tables db1)(t \<mapsto> tbl'))"
        by simp
      then show ?thesis
      proof
        assume "tables db2 = tables db1"
        then show ?thesis using unchanged eq t1 by simp
      next
        assume "\<exists>ks tbl'. insert_tuples tbl [f] ''id'' (map (\<lambda>v. [quoteLiteral v]) newValues) = Some (ks, tbl') \<and>
            tables db2 = (tables db1)(t \<mapsto> tbl')"
        then obtain ks tbl' where
          it: "insert_tuples tbl [f] ''id'' (map (\<lambda>v. [quoteLiteral v]) newValues) = Some (ks, tbl')" and
          tt: "tables db2 = (tables db1)(t \<mapsto> tbl')"
          by auto
        from insert_tuples_appends [OF it assms(2,3)] obtain new where
          a: "trows tbl' = trows tbl @ new" "distinct (map (\<lambda>r. cell r f) new)"
            "\<forall>r\<in>set new. cell r f \<notin> (\<lambda>r'. cell r' f) ` set (trows tbl)"
          by auto
        from insert_tuples_source [OF it] a(1) have
          src: "\<forall>r\<in>set new. \<exists>ls\<in>set (map (\<lambda>v. [quoteLiteral v]) newValues).
                  \<exists>tb. columns tb = columns tbl \<and> build_row tb [f] ls = Some r"
          by auto
        have "\<forall>r\<in>set new. \<exists>v\<in>set items. coerce TextCol (quoteLiteral v) = Some (cell r f)"
        proof
          fix r assume "r \<in> set new"
          with src obtain v tb where v: "v \<in> set newValues" and tb: "columns tb = columns tbl"
            and br: "build_row tb [f] [quoteLiteral v] = Some r"
            by auto
          from build_row_single [OF br] tb assms(4)
          have "coerce TextCol (quoteLiteral v) = Some (cell r f)" by simp
          with v show "\<exists>v\<in>set items. coerce TextCol (quoteLiteral v) = Some (cell r f)"
            by (auto simp: newValues_def)
        qed
        with a show ?thesis using eq tt by (intro exI [of _ tbl'] exI [of _ new]) simp
      qed
    qed
  qed
  then obtain tbl' new where
    r: "tables (snd (insertNewValuesInEnumTable db t f items)) t = Some tbl'"
       "trows tbl' = trows tbl @ new"
       "distinct (map (\<lambda>r. cell r f) new)"
       "\<forall>r\<in>set new. cell r f \<notin> (\<lambda>r'. cell r' f) ` set (trows tbl)"
       "\<forall>r\<in>set new. \<exists>v\<in>set items. coerce TextCol (quoteLiteral v) = Some (cell r f)"
    by blast
  have exact: "(\<lambda>r. cell r f) ` set new = set items - (\<lambda>r'. cell r' f) ` set (trows tbl)"
    if h: "faults db = []" "dimension_ok tbl f" "\<forall>v\<in>set items. \<exists>s. v = JStr s"
  proof -
    from insert_dimension_exact [OF assms(1) h] obtain tbl2 new2 where
      e: "tables (snd (insertNewValuesInEnumTable db t f items)) t = Some tbl2"
         "trows tbl2 = trows tbl @ new2"
         "(\<lambda>r. cell r f) ` set new2 = set items - (\<lambda>r. cell r f) ` set (trows tbl)"
      by blast
    from e(1) r(1) have "tbl2 = tbl'" by simp
    with e(2) r(2) have "new2 = new" by simp
    with e(3) show ?thesis by simp
  qed
  from r exact show ?thesis by blast
qed

text \<open>
  The theorem at an \<^verbatim>\<open>ELEMENT\<close> table that holds \<^verbatim>\<open>FIRE\<close> under id 1, for the candidates
  \<^verbatim>\<open>FIRE\<close> and \<^verbatim>\<open>WATER\<close>: one row is appended, and it holds \<^verbatim>\<open>WATER\<close>.
\<close>

theorem enum_table_append_only_witness:
  "\<exists>tbl' new.
     tables (snd (insertNewValuesInEnumTable
        \<lparr>tables = [''ELEMENT'' \<mapsto> (enum_table ''name'')
                      \<lparr>next_id := 2, trows := [[(''id'', JNum 1), (''name'', JStr ''FIRE'')]]\<rparr>],
         faults = []\<rparr>
        ''ELEMENT'' ''name'' [JStr ''FIRE'', JStr ''WATER''])) ''ELEMENT'' = Some tbl'
     \<and> trows tbl' = [[(''id'', JNum 1), (''name'', JStr ''FIRE'')]] @ new
     \<and> distinct (map (\<lambda>r. cell r ''name'') new)
     \<and> (\<lambda>r. cell r ''name'') ` set new = {JStr ''WATER''}"
proof -
  define tbl where "tbl = (enum_table ''name'')\<lparr>next_id := 2, trows := [[(''id'', JNum 1), (''name'', JStr ''FIRE'')]]\<rparr>"
  define db where "db = \<lparr>tables = [''ELEMENT'' \<mapsto> tbl], faults = []\<rparr>"
  have a: "tables db ''ELEMENT'' = Some tbl" by (simp add: db_def)
  have b: "''name'' \<in> set (uniques tbl)" "''name'' \<in> set (notnull tbl)"
    "map_of (columns tbl) ''name'' = Some TextCol"
    by (simp_all add: tbl_def enum_table_def)
  have c: "faults db = [] \<and> dimension_ok tbl ''name'' \<and> (\<forall>v\<in>set [JStr ''FIRE'', JStr ''WATER'']. \<exists>s. v = JStr s)"
    by (simp add: db_def tbl_def enum_table_def dimension_ok_def cell_def)
  from enum_table_append_only [OF a b, of "[JStr ''FIRE'', JStr ''WATER'']"] c obtain tbl' new where
    r: "tables (snd (insertNewValuesInEnumTable db ''ELEMENT'' ''name'' [JStr ''FIRE'', JStr ''WATER''])) ''ELEMENT'' = Some tbl'"
       "trows tbl' = trows tbl @ new"
       "distinct (map (\<lambda>r. cell r ''name'') new)"
       "(\<lambda>r. cell r ''name'') ` set new
          = set [JStr ''FIRE'', JStr ''WATER''] - (\<lambda>r'. cell r' ''name'') ` set (trows tbl)"
    by blast
  from r(4) have "(\<lambda>r. cell r ''name'') ` set new = {JStr ''WATER''}"
    by (simp add: tbl_def cell_def)
  with r(1,2,3) show ?thesis
    unfolding db_def tbl_def by (intro exI [of _ tbl'] exI [of _ new]) simp
qed

subsection \<open>The two-phase upsert\<close>

lemma coerce_cells_zip:
  "coerce_cells cols fs ls = Some g \<Longrightarrow>
   length fs = length ls \<and> map fst g = fs \<and>
   (\<forall>i<length fs. \<exists>ty. map_of cols (fs ! i) = Some ty \<and> coerce ty (ls ! i) = Some (snd (g ! i)))"
proof (induction cols fs ls arbitrary: g rule: coerce_cells.induct)
  case (1 cols)
  then show ?case by simp
next
  case (2 cols f fs l ls)
  from "2.prems" obtain ty v g' where
    a: "map_of cols f = Some ty" "coerce ty l = Some v" "coerce_cells cols fs ls = Some g'" "g = (f, v) # g'"
    by (auto split: option.splits)
  from "2.IH" [OF a(1,2,3)] have ih:
    "length fs = length ls" "map fst g' = fs"
    "\<forall>i<length fs. \<exists>ty. map_of cols (fs ! i) = Some ty \<and> coerce ty (ls ! i) = Some (snd (g' ! i))"
    by auto
  show ?case
  proof (intro conjI allI impI)
    fix i assume "i < length (f # fs)"
    then show "\<exists>ty. map_of cols ((f # fs) ! i) = Some ty \<and> coerce ty ((l # ls) ! i) = Some (snd (g ! i))"
      using a ih(3) by (cases i) auto
  qed (use a ih in auto)
qed auto

lemma candidate_cells_lookup:
  assumes "candidate_cells tbl fs ob = Some g" and "distinct fs" and "f \<in> set fs"
  shows "\<exists>ty. map_of (columns tbl) f = Some ty \<and> map_of g f = coerce ty (quoteLiteral (js_get ob f))"
proof -
  from assms(3) obtain i where i: "i < length fs" "fs ! i = f"
    by (auto simp: in_set_conv_nth)
  from coerce_cells_zip [OF assms(1) [unfolded candidate_cells_def]] i
  obtain ty where ty: "map_of (columns tbl) f = Some ty"
      "coerce ty (quoteLiteral (js_get ob f)) = Some (snd (g ! i))"
    and fst: "map fst g = fs"
    by auto
  have len: "length g = length fs" using fst by (metis length_map)
  have "distinct (map fst g)" using fst assms(2) by simp
  moreover have "(f, snd (g ! i)) \<in> set g"
    using i fst len by (metis nth_map nth_mem prod.collapse)
  ultimately have "map_of g f = Some (snd (g ! i))" by simp
  with ty show ?thesis by auto
qed

lemma candidate_cells_dom:
  assumes "candidate_cells tbl fs ob = Some g"
  shows "map fst g = fs"
  using coerce_cells_zip [OF assms [unfolded candidate_cells_def]] by simp

lemma key_text:
  assumes "parse_int (js_toString v) = Some n"
  shows "coerce IntCol (quoteLiteral v) = Some (JNum n)"
  using assms by (cases v) (auto simp: parse_int_def parse_nat_def digit_val_def split: if_splits)

lemma candidate_key_cell:
  assumes "candidate_cells tbl fs ob = Some g" and "distinct fs" and "''id'' \<in> set fs"
    and "map_of (columns tbl) ''id'' = Some IntCol" and "candidate_key ob = Some n"
  shows "map_of g ''id'' = Some (JNum n)"
  using candidate_cells_lookup [OF assms(1,2,3)] assms(4,5) key_text [of "js_get ob ''id''" n]
  by (simp add: candidate_key_def)

lemma cell_full_row:
  "cell (full_row tbl g) c =
     (if c \<in> fst ` set (columns tbl) then (case map_of g c of Some v \<Rightarrow> v | None \<Rightarrow> JNull) else JNull)"
proof -
  have "map_of (map (\<lambda>(c, ty). (c, case map_of g c of Some v \<Rightarrow> v | None \<Rightarrow> JNull)) cols) c =
        (if c \<in> fst ` set cols then Some (case map_of g c of Some v \<Rightarrow> v | None \<Rightarrow> JNull) else None)"
    for cols :: "(string \<times> coltype) list"
    by (induction cols) auto
  then show ?thesis by (simp add: cell_def full_row_def)
qed

lemma fst_full_row [simp]: "map fst (full_row tbl g) = map fst (columns tbl)"
  by (simp add: full_row_def case_prod_beta comp_def)

lemma conflicts_keyed:
  "uniques tbl = [''id''] \<Longrightarrow> cell r ''id'' \<noteq> JNull \<Longrightarrow>
   conflicts tbl r rs \<longleftrightarrow> cell r ''id'' \<in> set (map (\<lambda>r'. cell r' ''id'') rs)"
  by (auto simp: conflicts_def list_ex_iff)

lemma build_row_keyed:
  assumes "keyed tbl" and "candidate_cells tbl fs ob = Some g" and "distinct fs" and "''id'' \<in> set fs"
    and "candidate_key ob = Some n"
  shows "build_row tbl fs (map (\<lambda>f. quoteLiteral (js_get ob f)) fs) = Some (full_row tbl g)"
    and "cell (full_row tbl g) ''id'' = JNum n"
proof -
  have idcol: "map_of (columns tbl) ''id'' = Some IntCol" using assms(1) by (simp add: keyed_def)
  have gid: "map_of g ''id'' = Some (JNum n)"
    using candidate_key_cell [OF assms(2,3,4) idcol assms(5)] .
  have mem: "''id'' \<in> fst ` set (columns tbl)"
    using idcol by (metis domI dom_map_of_conv_image_fst)
  show c: "cell (full_row tbl g) ''id'' = JNum n"
    using gid mem by (simp add: cell_full_row)
  have eq: "map (\<lambda>(c, ty). (c, case map_of g c of Some v \<Rightarrow> v
                | None \<Rightarrow> if c = ''id'' \<and> serial tbl then JNum (next_id tbl) else JNull)) (columns tbl)
            = full_row tbl g"
    unfolding full_row_def using gid by (intro map_cong) (auto split: option.splits)
  have nn: "notnull tbl = [''id'']" using assms(1) by (simp add: keyed_def)
  show "build_row tbl fs (map (\<lambda>f. quoteLiteral (js_get ob f)) fs) = Some (full_row tbl g)"
    using assms(2,3) eq c nn by (simp add: build_row_def candidate_cells_def Let_def)
qed

lemma keyed_append:
  assumes "keyed tbl" and "map fst r = map fst (columns tbl)" and "cell r ''id'' \<noteq> JNull"
    and "cell r ''id'' \<notin> set (keys_of tbl)"
  shows "keyed (tbl\<lparr>trows := trows tbl @ [r]\<rparr>)"
  using assms by (auto simp: keyed_def keys_of_def)

lemma insert_tuples_keyed:
  assumes "keyed tbl" and "distinct fs" and "''id'' \<in> set fs"
    and "\<forall>ob\<in>set obs. \<exists>n g. candidate_key ob = Some n \<and> candidate_cells tbl fs ob = Some g"
    and "distinct (map candidate_key obs)"
  shows "insert_tuples tbl fs ''id'' (map (\<lambda>ob. map (\<lambda>f. quoteLiteral (js_get ob f)) fs) obs)
        = Some (map (\<lambda>ob. JNum (the (candidate_key ob)))
                  (filter (\<lambda>ob. JNum (the (candidate_key ob)) \<notin> set (keys_of tbl)) obs),
                tbl\<lparr>trows := trows tbl @ map (\<lambda>ob. full_row tbl (the (candidate_cells tbl fs ob)))
                  (filter (\<lambda>ob. JNum (the (candidate_key ob)) \<notin> set (keys_of tbl)) obs)\<rparr>)"
  using assms
proof (induction obs arbitrary: tbl)
  case Nil
  then show ?case by simp
next
  case (Cons ob obs)
  from Cons.prems(4) obtain n g where ob: "candidate_key ob = Some n" "candidate_cells tbl fs ob = Some g"
    by auto
  note br = build_row_keyed [OF Cons.prems(1) ob(2) Cons.prems(2,3) ob(1)]
  have un: "uniques tbl = [''id'']" using Cons.prems(1) by (simp add: keyed_def)
  have tbl1: "(if ''id'' \<notin> set fs \<and> serial tbl then tbl\<lparr>next_id := next_id tbl + 1\<rparr> else tbl) = tbl"
    using Cons.prems(3) by simp
  have cf: "conflicts tbl (full_row tbl g) (trows tbl) \<longleftrightarrow> JNum n \<in> set (keys_of tbl)"
    using conflicts_keyed [OF un, of "full_row tbl g" "trows tbl"] br(2) by (simp add: keys_of_def)
  have rest: "\<forall>ob\<in>set obs. \<exists>n g. candidate_key ob = Some n \<and> candidate_cells tbl fs ob = Some g"
    and dist: "distinct (map candidate_key obs)"
    using Cons.prems(4,5) by auto
  show ?case
  proof (cases "JNum n \<in> set (keys_of tbl)")
    case True
    with Cons.IH [OF Cons.prems(1,2,3) rest dist] br(1) cf ob show ?thesis
      by (simp add: tbl1 del: insert_tuples.simps(2) add: insert_tuples.simps(2) [of tbl])
  next
    case False
    define tbl2 where "tbl2 = tbl\<lparr>trows := trows tbl @ [full_row tbl g]\<rparr>"
    have k2: "keyed tbl2"
      unfolding tbl2_def using keyed_append [OF Cons.prems(1), of "full_row tbl g"] br(2) False by simp
    have cc: "candidate_cells tbl2 fs = candidate_cells tbl fs"
      by (simp add: tbl2_def candidate_cells_def fun_eq_iff)
    have fr: "full_row tbl2 = full_row tbl"
      by (simp add: tbl2_def full_row_def fun_eq_iff)
    have keys2: "keys_of tbl2 = keys_of tbl @ [JNum n]"
      using br(2) by (simp add: tbl2_def keys_of_def)
    have others: "\<forall>ob'\<in>set obs. the (candidate_key ob') \<noteq> n"
    proof
      fix ob' assume m: "ob' \<in> set obs"
      with rest obtain n' where "candidate_key ob' = Some n'" by auto
      moreover from Cons.prems(5) m ob(1) have "candidate_key ob' \<noteq> Some n"
        by (auto simp: image_iff)
      ultimately show "the (candidate_key ob') \<noteq> n" by simp
    qed
    have flt: "filter (\<lambda>ob. JNum (the (candidate_key ob)) \<notin> set (keys_of tbl2)) obs
             = filter (\<lambda>ob. JNum (the (candidate_key ob)) \<notin> set (keys_of tbl)) obs"
      using others by (intro filter_cong) (auto simp: keys2)
    have rest2: "\<forall>ob\<in>set obs. \<exists>n g. candidate_key ob = Some n \<and> candidate_cells tbl2 fs ob = Some g"
      using rest cc by simp
    from Cons.IH [OF k2 Cons.prems(2,3) rest2 dist]
    have ih: "insert_tuples tbl2 fs ''id'' (map (\<lambda>ob. map (\<lambda>f. quoteLiteral (js_get ob f)) fs) obs)
        = Some (map (\<lambda>ob. JNum (the (candidate_key ob)))
                  (filter (\<lambda>ob. JNum (the (candidate_key ob)) \<notin> set (keys_of tbl)) obs),
                tbl\<lparr>trows := trows tbl @ full_row tbl g # map (\<lambda>ob. full_row tbl (the (candidate_cells tbl fs ob)))
                  (filter (\<lambda>ob. JNum (the (candidate_key ob)) \<notin> set (keys_of tbl)) obs)\<rparr>)"
      by (simp add: flt cc fr) (simp add: tbl2_def)
    show ?thesis
      using False br cf ob ih by (simp add: tbl1 tbl2_def)
  qed
qed

lemma cell_set_cells:
  "cell (set_cells g r) c =
     (case map_of g c of Some v \<Rightarrow> if c \<in> fst ` set r then v else JNull | None \<Rightarrow> cell r c)"
proof -
  have "map_of (map (\<lambda>(c, old). (c, case map_of g c of Some v \<Rightarrow> v | None \<Rightarrow> old)) r) c =
        map_option (\<lambda>old. case map_of g c of Some v \<Rightarrow> v | None \<Rightarrow> old) (map_of r c)"
    by (induction r) (auto split: option.splits)
  moreover have "c \<in> fst ` set r \<longleftrightarrow> map_of r c \<noteq> None"
    by (metis domIff dom_map_of_conv_image_fst)
  ultimately show ?thesis
    by (auto simp: cell_def set_cells_def split: option.splits)
qed

lemma fst_set_cells [simp]: "map fst (set_cells g r) = map fst r"
  by (simp add: set_cells_def case_prod_beta comp_def)

lemma keys_rewrite:
  assumes "map_of g ''id'' = Some k" and "\<forall>r\<in>set rs. ''id'' \<in> fst ` set r"
  shows "map (\<lambda>r. cell r ''id'') (rewrite g k rs) = map (\<lambda>r. cell r ''id'') rs"
  using assms by (auto simp: rewrite_def cell_set_cells)

lemma update_rows_keyed:
  assumes "uniques tbl = [''id'']" and "notnull tbl = [''id'']" and "map_of g ''id'' = Some (JNum n)"
    and "\<forall>r\<in>set (earlier @ rs). ''id'' \<in> fst ` set r"
    and "distinct (map (\<lambda>r. cell r ''id'') (earlier @ rs))"
  shows "update_rows tbl g ''id'' (JNum n) earlier rs = Some (rewrite g (JNum n) rs)"
  using assms(4,5)
proof (induction rs arbitrary: earlier)
  case Nil
  show ?case by (simp add: rewrite_def)
next
  case (Cons r rs)
  show ?case
  proof (cases "cell r ''id'' = JNum n")
    case True
    define r' where "r' = set_cells g r"
    have idr: "''id'' \<in> fst ` set r" using Cons.prems(1) by simp
    have k': "cell r' ''id'' = JNum n"
      using assms(3) idr by (simp add: r'_def cell_set_cells)
    have nc: "\<not> conflicts tbl r' (earlier @ rs)"
      using conflicts_keyed [OF assms(1), of r' "earlier @ rs"] k' Cons.prems(2) True by auto
    have sh: "\<forall>x\<in>set ((earlier @ [r']) @ rs). ''id'' \<in> fst ` set x"
    proof -
      have "fst ` set r' = fst ` set r" unfolding r'_def by (metis fst_set_cells set_map)
      then show ?thesis using Cons.prems(1) by auto
    qed
    have di: "distinct (map (\<lambda>r. cell r ''id'') ((earlier @ [r']) @ rs))"
      using Cons.prems(2) k' True by simp
    from Cons.IH [OF sh di] nc k' True show ?thesis
      by (simp add: assms(2) Let_def r'_def [symmetric] rewrite_def)
  next
    case False
    have sh: "\<forall>x\<in>set ((earlier @ [r]) @ rs). ''id'' \<in> fst ` set x" using Cons.prems(1) by auto
    have di: "distinct (map (\<lambda>r. cell r ''id'') ((earlier @ [r]) @ rs))" using Cons.prems(2) by simp
    from Cons.IH [OF sh di] False show ?thesis by (simp add: rewrite_def)
  qed
qed

lemma keyed_shape: "keyed tbl \<Longrightarrow> r \<in> set (trows tbl) \<Longrightarrow> ''id'' \<in> fst ` set r"
proof -
  assume k: "keyed tbl" and r: "r \<in> set (trows tbl)"
  then have "map fst r = map fst (columns tbl)" by (auto simp: keyed_def list_all_iff)
  moreover from k have "''id'' \<in> fst ` set (columns tbl)"
    by (metis keyed_def domI dom_map_of_conv_image_fst)
  ultimately show ?thesis by (metis set_map)
qed

lemma keyed_rewrite:
  assumes "keyed tbl" and "map_of g ''id'' = Some (JNum n)"
  shows "keyed (tbl\<lparr>trows := rewrite g (JNum n) (trows tbl)\<rparr>)"
proof -
  have sh: "\<forall>r\<in>set (trows tbl). ''id'' \<in> fst ` set r" using keyed_shape [OF assms(1)] by simp
  have keys: "map (\<lambda>r. cell r ''id'') (rewrite g (JNum n) (trows tbl)) = map (\<lambda>r. cell r ''id'') (trows tbl)"
    using keys_rewrite [OF assms(2) sh] .
  have "list_all (\<lambda>r. map fst r = map fst (columns tbl) \<and> cell r ''id'' \<noteq> JNull) (rewrite g (JNum n) (trows tbl))"
    using assms(1,2) sh
    by (auto simp: keyed_def list_all_iff rewrite_def cell_set_cells)
  then show ?thesis
    using assms(1) keys by (simp add: keyed_def keys_of_def)
qed

lemma exec_Update_keyed:
  assumes "keyed tbl" and "distinct fs" and "2 \<le> length fs" and "''id'' \<in> set fs"
    and "candidate_key ob = Some n" and "candidate_cells tbl fs ob = Some g"
  shows "exec tbl (Update t fs (map quoteLiteral (map (js_get ob) fs)) ''id'' (js_toString (js_get ob ''id'')))
         = Some ([], tbl\<lparr>trows := rewrite g (JNum n) (trows tbl)\<rparr>)"
proof -
  have idcol: "map_of (columns tbl) ''id'' = Some IntCol" using assms(1) by (simp add: keyed_def)
  have gid: "map_of g ''id'' = Some (JNum n)"
    using candidate_key_cell [OF assms(6,2,4) idcol assms(5)] .
  have un: "uniques tbl = [''id'']" "notnull tbl = [''id'']" using assms(1) by (simp_all add: keyed_def)
  have sh: "\<forall>r\<in>set ([] @ trows tbl). ''id'' \<in> fst ` set r" using keyed_shape [OF assms(1)] by simp
  have di: "distinct (map (\<lambda>r. cell r ''id'') ([] @ trows tbl))"
    using assms(1) by (simp add: keyed_def keys_of_def)
  have cc: "coerce_cells (columns tbl) fs (map quoteLiteral (map (js_get ob) fs)) = Some g"
    using assms(6) by (simp add: candidate_cells_def comp_def)
  show ?thesis
    using update_rows_keyed [OF un gid sh di] idcol assms(2,3,5) cc
    by (simp add: exec_def candidate_key_def)
qed

lemma update_keyed:
  assumes "tables db t = Some tbl" and "faults db = []" and "keyed tbl"
    and "distinct fs" and "2 \<le> length fs" and "''id'' \<in> set fs"
    and "\<forall>ob\<in>set obs. \<exists>n g. candidate_key ob = Some n \<and> candidate_cells tbl fs ob = Some g"
  shows "DatabaseService_update db t (FieldNames fs) ''id'' (map Obj obs)
         = (Inr (), db\<lparr>tables := (tables db)(t \<mapsto> tbl\<lparr>trows := rewrite_all tbl fs obs (trows tbl)\<rparr>)\<rparr>)"
  using assms(1,2,3,7)
proof (induction obs arbitrary: db tbl)
  case Nil
  then show ?case by (simp add: rewrite_all_def fun_upd_idem)
next
  case (Cons ob obs)
  from Cons.prems(4) obtain n g where ob: "candidate_key ob = Some n" "candidate_cells tbl fs ob = Some g"
    by auto
  define tbl1 where "tbl1 = tbl\<lparr>trows := rewrite g (JNum n) (trows tbl)\<rparr>"
  define db1 where "db1 = db\<lparr>tables := (tables db)(t \<mapsto> tbl1)\<rparr>"
  have idcol: "map_of (columns tbl) ''id'' = Some IntCol" using Cons.prems(3) by (simp add: keyed_def)
  have gid: "map_of g ''id'' = Some (JNum n)"
    using candidate_key_cell [OF ob(2) assms(4,6) idcol ob(1)] .
  have st: "update_stmt t (FieldNames fs) ''id'' (Obj ob)
      = Inr (Update t fs (map quoteLiteral (map (js_get ob) fs)) ''id'' (js_toString (js_get ob ''id'')))"
  proof -
    have "collect (map (item_get (Obj ob)) fs) = Inr (map (js_get ob) fs)"
      by (induction fs) auto
    moreover from ob(1) have "CHR ''%'' \<notin> set (js_toString (js_get ob ''id''))"
      by (auto simp: candidate_key_def dest: parse_int_plain)
    ultimately show ?thesis by (simp add: update_stmt_def pg_format_plain)
  qed
  have q: "DatabaseService_query db (Update t fs (map quoteLiteral (map (js_get ob) fs)) ''id'' (js_toString (js_get ob ''id'')))
        = ([], db1)"
    using pool_query_no_fault [of db "Update t fs (map quoteLiteral (map (js_get ob) fs)) ''id'' (js_toString (js_get ob ''id''))" tbl "[]" tbl1]
      exec_Update_keyed [OF Cons.prems(3) assms(4,5,6) ob] Cons.prems(1,2)
    by (simp add: DatabaseService_query_def tbl1_def db1_def)
  have k1: "keyed tbl1" unfolding tbl1_def using keyed_rewrite [OF Cons.prems(3) gid] .
  have cc: "candidate_cells tbl1 fs = candidate_cells tbl fs"
    by (simp add: tbl1_def candidate_cells_def fun_eq_iff)
  have rest: "\<forall>ob\<in>set obs. \<exists>n g. candidate_key ob = Some n \<and> candidate_cells tbl1 fs ob = Some g"
    using Cons.prems(4) cc by simp
  have t1: "tables db1 t = Some tbl1" and f1: "faults db1 = []"
    using Cons.prems(2) by (simp_all add: db1_def)
  have ra: "rewrite_all tbl1 fs obs = rewrite_all tbl fs obs"
    by (simp add: rewrite_all_def cc fun_eq_iff)
  have fin: "DatabaseService_update db1 t (FieldNames fs) ''id'' (map Obj obs)
      = (Inr (), db1\<lparr>tables := (tables db1)(t \<mapsto> tbl1\<lparr>trows := rewrite_all tbl fs obs (trows tbl1)\<rparr>)\<rparr>)"
    using Cons.IH [OF t1 f1 k1 rest] by (simp only: ra)
  have step: "DatabaseService_update db t (FieldNames fs) ''id'' (map Obj (ob # obs))
      = DatabaseService_update db1 t (FieldNames fs) ''id'' (map Obj obs)"
    using st q by simp
  have ra2: "rewrite_all tbl fs (ob # obs) (trows tbl) = rewrite_all tbl fs obs (trows tbl1)"
    using ob by (simp add: rewrite_all_def tbl1_def)
  have e1: "(tables db1)(t \<mapsto> Y) = (tables db)(t \<mapsto> Y)" for Y by (simp add: db1_def)
  have e2: "db1\<lparr>tables := F\<rparr> = db\<lparr>tables := F\<rparr>" for F by (simp add: db1_def)
  show ?case
    unfolding step fin ra2 e1 e2 by (simp add: tbl1_def fun_upd_def)
qed

subsection \<open>The rows after the updates\<close>

lemma rewrite_all_Cons:
  "rewrite_all tbl fs (ob # obs) rs =
     rewrite_all tbl fs obs (rewrite (the (candidate_cells tbl fs ob)) (JNum (the (candidate_key ob))) rs)"
  by (simp add: rewrite_all_def)

text \<open>A valid candidate of a table and a column list.\<close>

lemma valid_gid:
  assumes "map_of (columns tbl) ''id'' = Some IntCol" and "distinct fs" and "''id'' \<in> set fs"
    and "candidate_key ob = Some n" and "candidate_cells tbl fs ob = Some g"
  shows "map_of (the (candidate_cells tbl fs ob)) ''id'' = Some (JNum (the (candidate_key ob)))"
  using candidate_key_cell [OF assms(5,2,3,1,4)] assms(4,5) by simp

lemma rewrite_all_keys:
  assumes "map_of (columns tbl) ''id'' = Some IntCol" and "distinct fs" and "''id'' \<in> set fs"
    and "\<forall>ob\<in>set obs. \<exists>n g. candidate_key ob = Some n \<and> candidate_cells tbl fs ob = Some g"
    and "\<forall>r\<in>set rs. ''id'' \<in> fst ` set r"
  shows "map (\<lambda>r. cell r ''id'') (rewrite_all tbl fs obs rs) = map (\<lambda>r. cell r ''id'') rs
       \<and> map (map fst) (rewrite_all tbl fs obs rs) = map (map fst) rs"
  using assms(4,5)
proof (induction obs arbitrary: rs)
  case Nil
  show ?case by (simp add: rewrite_all_def)
next
  case (Cons ob obs)
  from Cons.prems(1) obtain n g where ob: "candidate_key ob = Some n" "candidate_cells tbl fs ob = Some g"
    by auto
  have gid: "map_of g ''id'' = Some (JNum n)"
    using valid_gid [OF assms(1,2,3) ob] ob by simp
  define rs1 where "rs1 = rewrite g (JNum n) rs"
  have k1: "map (\<lambda>r. cell r ''id'') rs1 = map (\<lambda>r. cell r ''id'') rs"
    unfolding rs1_def using keys_rewrite [OF gid Cons.prems(2)] .
  have s1: "map (map fst) rs1 = map (map fst) rs"
    by (simp add: rs1_def rewrite_def)
  have sh1: "\<forall>r\<in>set rs1. ''id'' \<in> fst ` set r"
  proof
    fix r assume "r \<in> set rs1"
    then obtain r0 where "r0 \<in> set rs" "map fst r = map fst r0"
      by (auto simp: rs1_def rewrite_def)
    with Cons.prems(2) show "''id'' \<in> fst ` set r" by (metis set_map)
  qed
  from Cons.prems(1) have rest: "\<forall>ob\<in>set obs. \<exists>n g. candidate_key ob = Some n \<and> candidate_cells tbl fs ob = Some g"
    by simp
  from Cons.IH [OF rest sh1] k1 s1 ob show ?case
    by (simp add: rewrite_all_Cons rs1_def)
qed

lemma rewrite_all_keeps:
  assumes "r \<in> set rs" and "\<forall>ob\<in>set obs. cell r ''id'' \<noteq> JNum (the (candidate_key ob))"
  shows "r \<in> set (rewrite_all tbl fs obs rs)"
  using assms
proof (induction obs arbitrary: rs)
  case Nil
  then show ?case by (simp add: rewrite_all_def)
next
  case (Cons ob obs)
  have "r \<in> set (rewrite (the (candidate_cells tbl fs ob)) (JNum (the (candidate_key ob))) rs)"
    using Cons.prems by (force simp: rewrite_def)
  with Cons show ?case by (simp add: rewrite_all_Cons)
qed

lemma rewrite_all_sets:
  assumes "map_of (columns tbl) ''id'' = Some IntCol" and "distinct fs" and "''id'' \<in> set fs"
    and "\<forall>ob\<in>set obs. \<exists>n g. candidate_key ob = Some n \<and> candidate_cells tbl fs ob = Some g"
    and "distinct (map candidate_key obs)"
    and "\<forall>r\<in>set rs. set fs \<subseteq> fst ` set r"
    and "ob \<in> set obs" and "JNum (the (candidate_key ob)) \<in> (\<lambda>r. cell r ''id'') ` set rs"
  shows "\<exists>r\<in>set (rewrite_all tbl fs obs rs). cell r ''id'' = JNum (the (candidate_key ob))
           \<and> (\<forall>f\<in>set fs. cell r f = cell (the (candidate_cells tbl fs ob)) f)"
  using assms(4,5,6,7,8)
proof (induction obs arbitrary: rs)
  case Nil
  then show ?case by simp
next
  case (Cons u obs)
  from Cons.prems(1) obtain n g where u: "candidate_key u = Some n" "candidate_cells tbl fs u = Some g"
    by auto
  have gid: "map_of g ''id'' = Some (JNum n)"
    using valid_gid [OF assms(1,2,3) u] u by simp
  have dom: "map fst g = fs" using candidate_cells_dom [OF u(2)] .
  define rs1 where "rs1 = rewrite g (JNum n) rs"
  have shid: "\<forall>r\<in>set rs. ''id'' \<in> fst ` set r" using Cons.prems(3) assms(3) by auto
  have k1: "map (\<lambda>r. cell r ''id'') rs1 = map (\<lambda>r. cell r ''id'') rs"
    unfolding rs1_def using keys_rewrite [OF gid shid] .
  have sh1: "\<forall>r\<in>set rs1. set fs \<subseteq> fst ` set r"
  proof
    fix r assume "r \<in> set rs1"
    then obtain r0 where "r0 \<in> set rs" "map fst r = map fst r0"
      by (auto simp: rs1_def rewrite_def)
    with Cons.prems(3) show "set fs \<subseteq> fst ` set r" by (metis set_map)
  qed
  from Cons.prems(1,2) have rest: "\<forall>ob\<in>set obs. \<exists>n g. candidate_key ob = Some n \<and> candidate_cells tbl fs ob = Some g"
    and dist: "distinct (map candidate_key obs)" by simp_all
  have ra: "rewrite_all tbl fs (u # obs) rs = rewrite_all tbl fs obs rs1"
    using u by (simp add: rewrite_all_Cons rs1_def)
  show ?case
  proof (cases "ob = u")
    case True
    from Cons.prems(5) True u obtain r0 where r0: "r0 \<in> set rs" "cell r0 ''id'' = JNum n"
      by auto
    define r1 where "r1 = set_cells g r0"
    have in1: "r1 \<in> set rs1" using r0 by (force simp: rs1_def rewrite_def r1_def)
    have sub: "set fs \<subseteq> fst ` set r0" using Cons.prems(3) r0 by simp
    have cells: "\<forall>f\<in>set fs. cell r1 f = cell g f"
    proof
      fix f assume f: "f \<in> set fs"
      then have "f \<in> fst ` set g" using dom by (metis set_map)
      then obtain v where v: "map_of g f = Some v"
        by (metis domD dom_map_of_conv_image_fst)
      with f sub show "cell r1 f = cell g f"
        by (auto simp: r1_def cell_set_cells) (simp add: cell_def)
    qed
    have key1: "cell r1 ''id'' = JNum n"
      using cells assms(3) gid by (simp add: cell_def)
    have others: "\<forall>ob'\<in>set obs. cell r1 ''id'' \<noteq> JNum (the (candidate_key ob'))"
    proof
      fix ob' assume m: "ob' \<in> set obs"
      with rest obtain n' where n': "candidate_key ob' = Some n'" by auto
      from Cons.prems(2) m u(1) have "candidate_key ob' \<noteq> Some n" by (auto simp: image_iff)
      with n' key1 show "cell r1 ''id'' \<noteq> JNum (the (candidate_key ob'))" by simp
    qed
    from rewrite_all_keeps [OF in1 others] have "r1 \<in> set (rewrite_all tbl fs obs rs1)" .
    with cells key1 True u show ?thesis unfolding ra by auto
  next
    case False
    with Cons.prems(4) have m: "ob \<in> set obs" by simp
    have ex: "JNum (the (candidate_key ob)) \<in> (\<lambda>r. cell r ''id'') ` set rs1"
      using Cons.prems(5) k1 by (metis set_map)
    from Cons.IH [OF rest dist sh1 m ex] show ?thesis unfolding ra .
  qed
qed

lemma set_cells_same:
  assumes "distinct (map fst r)" and "\<forall>c v. map_of g c = Some v \<longrightarrow> cell r c = v"
  shows "set_cells g r = r"
proof -
  have "(case map_of g c of Some v \<Rightarrow> v | None \<Rightarrow> old) = old" if "(c, old) \<in> set r" for c old
  proof (cases "map_of g c")
    case None
    then show ?thesis by simp
  next
    case (Some v)
    from that assms(1) have "map_of r c = Some old" by simp
    then have "cell r c = old" by (simp add: cell_def)
    with assms(2) Some show ?thesis by auto
  qed
  then have "map (\<lambda>(c, old). (c, case map_of g c of Some v \<Rightarrow> v | None \<Rightarrow> old)) r = map (\<lambda>x. x) r"
    by (intro map_cong) auto
  then show ?thesis by (simp add: set_cells_def)
qed

lemma rewrite_all_same:
  assumes "\<forall>ob\<in>set obs. \<forall>r\<in>set rs. cell r ''id'' = JNum (the (candidate_key ob)) \<longrightarrow>
             set_cells (the (candidate_cells tbl fs ob)) r = r"
  shows "rewrite_all tbl fs obs rs = rs"
  using assms
proof (induction obs)
  case Nil
  show ?case by (simp add: rewrite_all_def)
next
  case (Cons ob obs)
  have "rewrite (the (candidate_cells tbl fs ob)) (JNum (the (candidate_key ob))) rs = rs"
    unfolding rewrite_def using Cons.prems by (intro map_idI) auto
  with Cons show ?case by (simp add: rewrite_all_Cons)
qed

subsection \<open>The two phases together\<close>

lemma collect_Inr: "collect (map (\<lambda>x. Inr (h x)) xs) = Inr (map h xs)"
  by (induction xs) auto

lemma fieldValues_Obj: "fieldValues (FieldNames fs) (Obj ob) = Inr (map (js_get ob) fs)"
proof -
  have "collect (map (item_get (Obj ob)) fs) = Inr (map (js_get ob) fs)"
    by (induction fs) auto
  then show ?thesis by simp
qed

lemma filter_zip_keep: "map fst (filter snd (zip (map h xs) (map P xs))) = map h (filter P xs)"
  by (induction xs) auto

lemma insert_keyed:
  assumes "tables db t = Some tbl" and "faults db = []" and "keyed tbl"
    and "distinct fs" and "''id'' \<in> set fs"
    and "\<forall>ob\<in>set obs. \<exists>n g. candidate_key ob = Some n \<and> candidate_cells tbl fs ob = Some g"
    and "distinct (map candidate_key obs)"
  shows "DatabaseService_insert db t (FieldNames fs) ''id'' (map Obj obs)
       = (Inr (map (\<lambda>ob. JNum (the (candidate_key ob)))
                 (filter (\<lambda>ob. JNum (the (candidate_key ob)) \<notin> set (keys_of tbl)) obs)),
          db\<lparr>tables := (tables db)(t \<mapsto> tbl\<lparr>trows := trows tbl @
                 map (\<lambda>ob. full_row tbl (the (candidate_cells tbl fs ob)))
                   (filter (\<lambda>ob. JNum (the (candidate_key ob)) \<notin> set (keys_of tbl)) obs)\<rparr>)\<rparr>)"
proof -
  have co: "collect (map (fieldValues (FieldNames fs)) (map Obj obs)) = Inr (map (\<lambda>ob. map (js_get ob) fs) obs)"
  proof -
    have "map (fieldValues (FieldNames fs)) (map Obj obs) = map (\<lambda>ob. Inr (map (js_get ob) fs)) obs"
      by (simp add: fieldValues_Obj del: fieldValues.simps)
    then show ?thesis by (simp only: collect_Inr)
  qed
  have tup: "map (map quoteLiteral) (map (\<lambda>ob. map (js_get ob) fs) obs)
           = map (\<lambda>ob. map (\<lambda>f. quoteLiteral (js_get ob f)) fs) obs"
    by (simp add: comp_def)
  have dbid: "db\<lparr>faults := []\<rparr> = db" using assms(2) by simp
  show ?thesis
  proof (cases "obs = []")
    case True
    have "pool_query db (Insert t fs [] ''id'') = (Inl DbError, db)"
      using assms(1,2) dbid by (simp add: pool_query_def exec_def)
    moreover have "db\<lparr>tables := (tables db)(t \<mapsto> tbl\<lparr>trows := trows tbl\<rparr>)\<rparr> = db"
      using assms(1) by (simp add: fun_upd_idem)
    ultimately show ?thesis
      unfolding DatabaseService_insert_def co
      using True by (simp add: DatabaseService_query_def)
  next
    case False
    have idcol: "map_of (columns tbl) ''id'' = Some IntCol" using assms(3) by (simp add: keyed_def)
    have fne: "fs \<noteq> []" using assms(5) by auto
    note it = insert_tuples_keyed [OF assms(3,4,5,6,7)]
    have ex: "exec tbl (Insert t fs (map (\<lambda>ob. map (\<lambda>f. quoteLiteral (js_get ob f)) fs) obs) ''id'')
        = Some (map (\<lambda>k. [(''id'', k)]) (map (\<lambda>ob. JNum (the (candidate_key ob)))
                 (filter (\<lambda>ob. JNum (the (candidate_key ob)) \<notin> set (keys_of tbl)) obs)),
                tbl\<lparr>trows := trows tbl @
                 map (\<lambda>ob. full_row tbl (the (candidate_cells tbl fs ob)))
                   (filter (\<lambda>ob. JNum (the (candidate_key ob)) \<notin> set (keys_of tbl)) obs)\<rparr>)"
      using False fne idcol it by (simp add: exec_def)
    have pq: "pool_query db (Insert t fs (map (\<lambda>ob. map (\<lambda>f. quoteLiteral (js_get ob f)) fs) obs) ''id'')
        = (Inr (map (\<lambda>k. [(''id'', k)]) (map (\<lambda>ob. JNum (the (candidate_key ob)))
                 (filter (\<lambda>ob. JNum (the (candidate_key ob)) \<notin> set (keys_of tbl)) obs))),
           db\<lparr>tables := (tables db)(t \<mapsto> tbl\<lparr>trows := trows tbl @
                 map (\<lambda>ob. full_row tbl (the (candidate_cells tbl fs ob)))
                   (filter (\<lambda>ob. JNum (the (candidate_key ob)) \<notin> set (keys_of tbl)) obs)\<rparr>)\<rparr>)"
      using pool_query_no_fault [OF _ assms(2) ex] assms(1) by simp
    have unwrap: "js_get [(''id'', k)] ''id'' = k" for k
      by (simp add: js_get_def)
    show ?thesis
      unfolding DatabaseService_insert_def co
      by (simp add: DatabaseService_query_def pq unwrap comp_def)
  qed
qed

lemma valid_keys_distinct:
  assumes "\<forall>ob\<in>set obs. \<exists>n. candidate_key ob = Some n" and "distinct (map candidate_key obs)"
  shows "distinct (map (\<lambda>ob. JNum (the (candidate_key ob))) obs)"
proof -
  have "map (\<lambda>ob. JNum (the (candidate_key ob))) obs = map (\<lambda>k. JNum (the k)) (map candidate_key obs)"
    by simp
  moreover have "inj_on (\<lambda>k. JNum (the k)) (set (map candidate_key obs))"
    using assms(1) by (auto simp: inj_on_def) (metis option.sel)
  ultimately show ?thesis using assms(2) by (simp only: distinct_map)
qed

lemma keyed_after_insert:
  assumes "keyed tbl" and "distinct fs" and "''id'' \<in> set fs"
    and "\<forall>ob\<in>set obs. \<exists>n g. candidate_key ob = Some n \<and> candidate_cells tbl fs ob = Some g"
    and "distinct (map candidate_key obs)"
  shows "keyed (tbl\<lparr>trows := trows tbl @ map (\<lambda>ob. full_row tbl (the (candidate_cells tbl fs ob)))
                   (filter (\<lambda>ob. JNum (the (candidate_key ob)) \<notin> set (keys_of tbl)) obs)\<rparr>)"
proof -
  define new where "new = filter (\<lambda>ob. JNum (the (candidate_key ob)) \<notin> set (keys_of tbl)) obs"
  have key: "cell (full_row tbl (the (candidate_cells tbl fs ob))) ''id'' = JNum (the (candidate_key ob))"
    if "ob \<in> set obs" for ob
  proof -
    from that assms(4) obtain n g where "candidate_key ob = Some n" "candidate_cells tbl fs ob = Some g"
      by auto
    with build_row_keyed(2) [OF assms(1) _ assms(2,3)] show ?thesis by simp
  qed
  have keys: "map (\<lambda>r. cell r ''id'') (map (\<lambda>ob. full_row tbl (the (candidate_cells tbl fs ob))) new)
            = map (\<lambda>ob. JNum (the (candidate_key ob))) new"
    using key by (simp add: new_def)
  have d1: "distinct (map (\<lambda>ob. JNum (the (candidate_key ob))) new)"
    unfolding new_def
    by (rule valid_keys_distinct) (use assms(4,5) in \<open>auto simp: distinct_map_filter\<close>)
  have disj: "set (map (\<lambda>ob. JNum (the (candidate_key ob))) new) \<inter> set (keys_of tbl) = {}"
    by (auto simp: new_def)
  have shape: "list_all (\<lambda>r. map fst r = map fst (columns tbl) \<and> cell r ''id'' \<noteq> JNull)
      (map (\<lambda>ob. full_row tbl (the (candidate_cells tbl fs ob))) new)"
    using key by (auto simp: list_all_iff new_def)
  have keysof: "keys_of (tbl\<lparr>trows := trows tbl @ map (\<lambda>ob. full_row tbl (the (candidate_cells tbl fs ob))) new\<rparr>)
      = keys_of tbl @ map (\<lambda>ob. JNum (the (candidate_key ob))) new"
    using keys by (simp add: keys_of_def)
  have "keyed (tbl\<lparr>trows := trows tbl @ map (\<lambda>ob. full_row tbl (the (candidate_cells tbl fs ob))) new\<rparr>)"
    unfolding keyed_def keysof
    using assms(1) d1 disj shape by (auto simp: keyed_def)
  then show ?thesis by (simp add: new_def)
qed

lemma upsert_result:
  assumes "tables db t = Some tbl" and "faults db = []" and "keyed tbl"
    and "distinct fs" and "2 \<le> length fs" and "''id'' \<in> set fs"
    and "\<forall>ob\<in>set obs. \<exists>n g. candidate_key ob = Some n \<and> candidate_cells tbl fs ob = Some g"
    and "distinct (map candidate_key obs)"
  shows "\<exists>us. set us \<subseteq> set obs \<and> distinct (map candidate_key us)
           \<and> (\<forall>ob\<in>set obs. ob \<in> set us \<or> JNum (the (candidate_key ob)) \<notin> set (keys_of tbl))
           \<and> DatabaseService_upsert db t (FieldNames fs) ''id'' (map Obj obs) True
               = (Inr (), db\<lparr>tables := (tables db)(t \<mapsto> tbl\<lparr>trows := upserted tbl fs obs us\<rparr>)\<rparr>)"
proof -
  define new where "new = filter (\<lambda>ob. JNum (the (candidate_key ob)) \<notin> set (keys_of tbl)) obs"
  define ks where "ks = map (\<lambda>ob. JNum (the (candidate_key ob))) new"
  define tbl1 where "tbl1 = tbl\<lparr>trows := trows tbl @ map (\<lambda>ob. full_row tbl (the (candidate_cells tbl fs ob))) new\<rparr>"
  define db1 where "db1 = db\<lparr>tables := (tables db)(t \<mapsto> tbl1)\<rparr>"
  define us where "us = (if ks \<noteq> [] then filter (\<lambda>ob. js_in ob ''id'' \<and> js_get ob ''id'' \<notin> set ks) obs else obs)"
  have ins: "DatabaseService_insert db t (FieldNames fs) ''id'' (map Obj obs) = (Inr ks, db1)"
    using insert_keyed [OF assms(1,2,3,4,6,7,8)] by (simp add: ks_def new_def db1_def tbl1_def)
  have sel: "(if ks \<noteq> []
              then map_sum id (\<lambda>keep. map fst (filter snd (zip (map Obj obs) keep)))
                     (collect (map (toUpdate ''id'' ks) (map Obj obs)))
              else Inr (map Obj obs)) = Inr (map Obj us)"
  proof -
    have "map (toUpdate ''id'' ks) (map Obj obs) = map (\<lambda>ob. Inr (js_in ob ''id'' \<and> js_get ob ''id'' \<notin> set ks)) obs"
      by simp
    then have "collect (map (toUpdate ''id'' ks) (map Obj obs))
             = Inr (map (\<lambda>ob. js_in ob ''id'' \<and> js_get ob ''id'' \<notin> set ks) obs)"
      by (simp only: collect_Inr)
    then show ?thesis
      by (simp add: us_def filter_zip_keep del: map_map)
  qed
  have sub: "set us \<subseteq> set obs" by (auto simp: us_def)
  have dus: "distinct (map candidate_key us)"
    using assms(8) by (auto simp: us_def distinct_map_filter)
  have cover: "\<forall>ob\<in>set obs. ob \<in> set us \<or> JNum (the (candidate_key ob)) \<notin> set (keys_of tbl)"
  proof
    fix ob assume m: "ob \<in> set obs"
    from m assms(7) obtain n where n: "candidate_key ob = Some n" by auto
    show "ob \<in> set us \<or> JNum (the (candidate_key ob)) \<notin> set (keys_of tbl)"
    proof (cases "ob \<in> set us")
      case True
      then show ?thesis by simp
    next
      case False
      have inn: "js_in ob ''id''"
      proof (rule ccontr)
        assume "\<not> js_in ob ''id''"
        then have "js_get ob ''id'' = JUndefined" by (simp add: js_in_def js_get_def)
        with n show False
          by (simp add: candidate_key_def parse_int_def parse_nat_def digit_val_def)
      qed
      from False m inn have "ks \<noteq> []" and "js_get ob ''id'' \<in> set ks"
        by (auto simp: us_def split: if_splits)
      then obtain ob' where ob': "ob' \<in> set new" "js_get ob ''id'' = JNum (the (candidate_key ob'))"
        by (auto simp: ks_def)
      from ob'(1) have m': "ob' \<in> set obs" and fresh: "JNum (the (candidate_key ob')) \<notin> set (keys_of tbl)"
        by (simp_all add: new_def)
      from m' assms(7) obtain n' where n': "candidate_key ob' = Some n'" by auto
      from ob'(2) n' have "candidate_key ob = Some n'"
        by (simp add: candidate_key_def)
      with n have "n = n'" by simp
      with fresh n n' show ?thesis by simp
    qed
  qed
  have k1: "keyed tbl1"
    unfolding tbl1_def new_def using keyed_after_insert [OF assms(3,4,6,7,8)] .
  have cc: "candidate_cells tbl1 fs = candidate_cells tbl fs"
    by (simp add: tbl1_def candidate_cells_def fun_eq_iff)
  have valid1: "\<forall>ob\<in>set us. \<exists>n g. candidate_key ob = Some n \<and> candidate_cells tbl1 fs ob = Some g"
    using assms(7) sub cc by auto
  have t1: "tables db1 t = Some tbl1" and f1: "faults db1 = []"
    using assms(2) by (simp_all add: db1_def)
  have ra: "rewrite_all tbl1 fs us = rewrite_all tbl fs us"
    by (simp add: rewrite_all_def cc fun_eq_iff)
  have upd: "DatabaseService_update db1 t (FieldNames fs) ''id'' (map Obj us)
       = (Inr (), db\<lparr>tables := (tables db)(t \<mapsto> tbl\<lparr>trows := upserted tbl fs obs us\<rparr>)\<rparr>)"
    using update_keyed [OF t1 f1 k1 assms(4,5,6) valid1]
    by (simp add: ra) (simp add: db1_def tbl1_def upserted_def new_def)
  have none: "db1 = db\<lparr>tables := (tables db)(t \<mapsto> tbl\<lparr>trows := upserted tbl fs obs us\<rparr>)\<rparr>" if "us = []"
    using that by (simp add: db1_def tbl1_def upserted_def new_def rewrite_all_def)
  have "DatabaseService_upsert db t (FieldNames fs) ''id'' (map Obj obs) True
               = (Inr (), db\<lparr>tables := (tables db)(t \<mapsto> tbl\<lparr>trows := upserted tbl fs obs us\<rparr>)\<rparr>)"
    unfolding DatabaseService_upsert_def
    using upd none by (simp add: ins sel del: map_map)
  with sub dus cover show ?thesis by blast
qed

lemma keyed_rewrite_all:
  assumes "distinct fs" and "''id'' \<in> set fs"
  shows "keyed tbl \<Longrightarrow>
    \<forall>ob\<in>set us. \<exists>n g. candidate_key ob = Some n \<and> candidate_cells tbl fs ob = Some g \<Longrightarrow>
    keyed (tbl\<lparr>trows := rewrite_all tbl fs us (trows tbl)\<rparr>)"
proof (induction us arbitrary: tbl)
  case Nil
  then show ?case by (simp add: rewrite_all_def)
next
  case (Cons u us)
  from Cons.prems(2) obtain n g where u: "candidate_key u = Some n" "candidate_cells tbl fs u = Some g"
    by auto
  have idcol: "map_of (columns tbl) ''id'' = Some IntCol" using Cons.prems(1) by (simp add: keyed_def)
  have gid: "map_of g ''id'' = Some (JNum n)"
    using candidate_key_cell [OF u(2) assms idcol u(1)] .
  define tbl1 where "tbl1 = tbl\<lparr>trows := rewrite g (JNum n) (trows tbl)\<rparr>"
  have k1: "keyed tbl1" unfolding tbl1_def using keyed_rewrite [OF Cons.prems(1) gid] .
  have cc: "candidate_cells tbl1 fs = candidate_cells tbl fs"
    by (simp add: tbl1_def candidate_cells_def fun_eq_iff)
  have rest: "\<forall>ob\<in>set us. \<exists>n g. candidate_key ob = Some n \<and> candidate_cells tbl1 fs ob = Some g"
    using Cons.prems(2) cc by simp
  have ra: "rewrite_all tbl1 fs us = rewrite_all tbl fs us"
    by (simp add: rewrite_all_def cc fun_eq_iff)
  from Cons.IH [OF k1 rest] u show ?case
    by (simp add: ra rewrite_all_Cons) (simp add: tbl1_def)
qed

lemma keyed_same_key:
  assumes "keyed tbl" and "r \<in> set (trows tbl)" and "r' \<in> set (trows tbl)"
    and "cell r ''id'' = cell r' ''id''"
  shows "r = r'"
proof -
  from assms(1) have "distinct (map (\<lambda>r. cell r ''id'') (trows tbl))"
    by (simp add: keyed_def keys_of_def)
  then have "inj_on (\<lambda>r. cell r ''id'') (set (trows tbl))" by (simp add: distinct_map)
  with assms(2,3,4) show ?thesis by (auto dest: inj_onD)
qed

lemma upsert_effect:
  assumes "tables db t = Some tbl" and "faults db = []" and "keyed tbl"
    and "distinct fs" and "2 \<le> length fs" and "''id'' \<in> set fs"
    and "\<forall>ob\<in>set obs. \<exists>n g. candidate_key ob = Some n \<and> candidate_cells tbl fs ob = Some g"
    and "distinct (map candidate_key obs)"
  shows "\<exists>tbl'.
      DatabaseService_upsert db t (FieldNames fs) ''id'' (map Obj obs) True
        = (Inr (), db\<lparr>tables := (tables db)(t \<mapsto> tbl')\<rparr>)
      \<and> distinct (keys_of tbl')
      \<and> set (keys_of tbl') = set (keys_of tbl) \<union> (\<lambda>ob. JNum (the (candidate_key ob))) ` set obs
      \<and> (\<forall>ob\<in>set obs. \<exists>r\<in>set (trows tbl').
             cell r ''id'' = JNum (the (candidate_key ob))
             \<and> (\<forall>f\<in>set fs. cell r f = cell (the (candidate_cells tbl fs ob)) f))
      \<and> (\<forall>r\<in>set (trows tbl).
             cell r ''id'' \<notin> (\<lambda>ob. JNum (the (candidate_key ob))) ` set obs \<longrightarrow> r \<in> set (trows tbl'))
      \<and> DatabaseService_upsert (db\<lparr>tables := (tables db)(t \<mapsto> tbl')\<rparr>) t (FieldNames fs) ''id'' (map Obj obs) True
        = (Inr (), db\<lparr>tables := (tables db)(t \<mapsto> tbl')\<rparr>)"
proof -
  from upsert_result [OF assms] obtain us where
    sub: "set us \<subseteq> set obs" and dus: "distinct (map candidate_key us)"
    and cover: "\<forall>ob\<in>set obs. ob \<in> set us \<or> JNum (the (candidate_key ob)) \<notin> set (keys_of tbl)"
    and res: "DatabaseService_upsert db t (FieldNames fs) ''id'' (map Obj obs) True
               = (Inr (), db\<lparr>tables := (tables db)(t \<mapsto> tbl\<lparr>trows := upserted tbl fs obs us\<rparr>)\<rparr>)"
    by blast
  define new where "new = filter (\<lambda>ob. JNum (the (candidate_key ob)) \<notin> set (keys_of tbl)) obs"
  define tbl1 where "tbl1 = tbl\<lparr>trows := trows tbl @ map (\<lambda>ob. full_row tbl (the (candidate_cells tbl fs ob))) new\<rparr>"
  define tbl' where "tbl' = tbl\<lparr>trows := upserted tbl fs obs us\<rparr>"
  define db' where "db' = db\<lparr>tables := (tables db)(t \<mapsto> tbl')\<rparr>"
  have idcol: "map_of (columns tbl) ''id'' = Some IntCol" using assms(3) by (simp add: keyed_def)
  have k1: "keyed tbl1"
    unfolding tbl1_def new_def using keyed_after_insert [OF assms(3,4,6,7,8)] .
  have cc1: "candidate_cells tbl1 fs = candidate_cells tbl fs"
    by (simp add: tbl1_def candidate_cells_def fun_eq_iff)
  have validus: "\<forall>ob\<in>set us. \<exists>n g. candidate_key ob = Some n \<and> candidate_cells tbl fs ob = Some g"
    using assms(7) sub by auto
  have ra1: "rewrite_all tbl1 fs = rewrite_all tbl fs"
    by (simp add: rewrite_all_def cc1 fun_eq_iff)
  have ups: "upserted tbl fs obs us = rewrite_all tbl fs us (trows tbl1)"
    by (simp add: upserted_def tbl1_def new_def)
  have tbl'_alt: "tbl' = tbl1\<lparr>trows := rewrite_all tbl1 fs us (trows tbl1)\<rparr>"
    by (simp add: tbl'_def ups ra1) (simp add: tbl1_def)
  have k': "keyed tbl'"
    unfolding tbl'_alt using keyed_rewrite_all [OF assms(4,6) k1] validus cc1 by simp
  have key_new: "cell (full_row tbl (the (candidate_cells tbl fs ob))) ''id'' = JNum (the (candidate_key ob))"
    if "ob \<in> set obs" for ob
  proof -
    from that assms(7) obtain n g where "candidate_key ob = Some n" "candidate_cells tbl fs ob = Some g"
      by auto
    with build_row_keyed(2) [OF assms(3) _ assms(4,6)] show ?thesis by simp
  qed
  have keys1: "keys_of tbl1 = keys_of tbl @ map (\<lambda>ob. JNum (the (candidate_key ob))) new"
    using key_new by (simp add: keys_of_def tbl1_def new_def)
  have sh1: "\<forall>r\<in>set (trows tbl1). ''id'' \<in> fst ` set r"
    using keyed_shape [OF k1] by simp
  have keys': "keys_of tbl' = keys_of tbl1"
    using rewrite_all_keys [OF idcol assms(4,6) validus sh1]
    by (simp add: keys_of_def tbl'_def ups)
  have c2: "distinct (keys_of tbl')" using k' by (simp add: keyed_def)
  have c3: "set (keys_of tbl') = set (keys_of tbl) \<union> (\<lambda>ob. JNum (the (candidate_key ob))) ` set obs"
    unfolding keys' keys1 by (auto simp: new_def)
  have cols: "set fs \<subseteq> fst ` set r" if "r \<in> set (trows tbl1)" and "obs \<noteq> []" for r
  proof -
    from that(2) obtain ob where "ob \<in> set obs" by (cases obs) auto
    with assms(7) obtain g where g: "candidate_cells tbl fs ob = Some g" by auto
    have "set fs \<subseteq> fst ` set (columns tbl)"
    proof
      fix f assume "f \<in> set fs"
      from candidate_cells_lookup [OF g assms(4) this] show "f \<in> fst ` set (columns tbl)"
        by (metis domI dom_map_of_conv_image_fst)
    qed
    moreover from k1 that(1) have "map fst r = map fst (columns tbl)"
      by (auto simp: keyed_def list_all_iff tbl1_def)
    ultimately show ?thesis by (metis set_map)
  qed
  have c4: "\<forall>ob\<in>set obs. \<exists>r\<in>set (trows tbl').
             cell r ''id'' = JNum (the (candidate_key ob))
             \<and> (\<forall>f\<in>set fs. cell r f = cell (the (candidate_cells tbl fs ob)) f)"
  proof
    fix ob assume m: "ob \<in> set obs"
    then have ne: "obs \<noteq> []" by auto
    from m assms(7) obtain n g where ob: "candidate_key ob = Some n" "candidate_cells tbl fs ob = Some g"
      by auto
    have present: "JNum (the (candidate_key ob)) \<in> (\<lambda>r. cell r ''id'') ` set (trows tbl1)"
    proof -
      have "JNum (the (candidate_key ob)) \<in> set (keys_of tbl1)"
        unfolding keys1 using m by (auto simp: new_def)
      then show ?thesis by (simp add: keys_of_def)
    qed
    show "\<exists>r\<in>set (trows tbl'). cell r ''id'' = JNum (the (candidate_key ob))
             \<and> (\<forall>f\<in>set fs. cell r f = cell (the (candidate_cells tbl fs ob)) f)"
    proof (cases "ob \<in> set us")
      case True
      have sh: "\<forall>r\<in>set (trows tbl1). set fs \<subseteq> fst ` set r" using cols ne by simp
      from rewrite_all_sets [OF idcol assms(4,6) validus dus sh True present]
      show ?thesis by (simp add: tbl'_def ups)
    next
      case False
      with cover m have fresh: "JNum (the (candidate_key ob)) \<notin> set (keys_of tbl)" by auto
      with m have inew: "ob \<in> set new" by (simp add: new_def)
      define r0 where "r0 = full_row tbl g"
      have in1: "r0 \<in> set (trows tbl1)" using inew ob by (force simp: tbl1_def r0_def)
      have key0: "cell r0 ''id'' = JNum n" using key_new [OF m] ob by (simp add: r0_def)
      have others: "\<forall>u\<in>set us. cell r0 ''id'' \<noteq> JNum (the (candidate_key u))"
      proof
        fix u assume mu: "u \<in> set us"
        with sub have muo: "u \<in> set obs" by auto
        with assms(7) obtain n' where n': "candidate_key u = Some n'" by auto
        from mu False have "u \<noteq> ob" by auto
        with assms(8) m muo have "candidate_key u \<noteq> candidate_key ob"
          by (auto simp: distinct_map dest: inj_onD)
        with n' ob key0 show "cell r0 ''id'' \<noteq> JNum (the (candidate_key u))" by simp
      qed
      from rewrite_all_keeps [OF in1 others] have in': "r0 \<in> set (trows tbl')"
        by (simp add: tbl'_def ups)
      have cells: "\<forall>f\<in>set fs. cell r0 f = cell g f"
      proof
        fix f assume f: "f \<in> set fs"
        from candidate_cells_lookup [OF ob(2) assms(4) f] have "f \<in> fst ` set (columns tbl)"
          by (metis domI dom_map_of_conv_image_fst)
        then show "cell r0 f = cell g f" by (simp add: r0_def cell_full_row) (simp add: cell_def)
      qed
      from in' key0 cells ob show ?thesis by auto
    qed
  qed
  have c5: "\<forall>r\<in>set (trows tbl).
             cell r ''id'' \<notin> (\<lambda>ob. JNum (the (candidate_key ob))) ` set obs \<longrightarrow> r \<in> set (trows tbl')"
  proof (intro ballI impI)
    fix r assume r: "r \<in> set (trows tbl)"
      and out: "cell r ''id'' \<notin> (\<lambda>ob. JNum (the (candidate_key ob))) ` set obs"
    have in1: "r \<in> set (trows tbl1)" using r by (simp add: tbl1_def)
    have "\<forall>u\<in>set us. cell r ''id'' \<noteq> JNum (the (candidate_key u))" using out sub by auto
    from rewrite_all_keeps [OF in1 this] show "r \<in> set (trows tbl')"
      by (simp add: tbl'_def ups)
  qed
  have c6: "DatabaseService_upsert db' t (FieldNames fs) ''id'' (map Obj obs) True = (Inr (), db')"
  proof -
    have t': "tables db' t = Some tbl'" and f': "faults db' = []"
      using assms(2) by (simp_all add: db'_def)
    have cc': "candidate_cells tbl' fs = candidate_cells tbl fs"
      by (simp add: tbl'_def candidate_cells_def fun_eq_iff)
    have valid': "\<forall>ob\<in>set obs. \<exists>n g. candidate_key ob = Some n \<and> candidate_cells tbl' fs ob = Some g"
      using assms(7) cc' by simp
    from upsert_result [OF t' f' k' assms(4,5,6) valid' assms(8)] obtain us2 where
      sub2: "set us2 \<subseteq> set obs"
      and res2: "DatabaseService_upsert db' t (FieldNames fs) ''id'' (map Obj obs) True
               = (Inr (), db'\<lparr>tables := (tables db')(t \<mapsto> tbl'\<lparr>trows := upserted tbl' fs obs us2\<rparr>)\<rparr>)"
      by blast
    have nonew: "filter (\<lambda>ob. JNum (the (candidate_key ob)) \<notin> set (keys_of tbl')) obs = []"
      using c3 by (auto simp: filter_empty_conv)
    have same: "rewrite_all tbl' fs us2 (trows tbl') = trows tbl'"
    proof (rule rewrite_all_same, intro ballI impI)
      fix ob r assume mu: "ob \<in> set us2" and r: "r \<in> set (trows tbl')"
        and kr: "cell r ''id'' = JNum (the (candidate_key ob))"
      from mu sub2 have m: "ob \<in> set obs" by auto
      from m assms(7) obtain n g where ob: "candidate_key ob = Some n" "candidate_cells tbl fs ob = Some g"
        by auto
      from c4 m obtain r' where r': "r' \<in> set (trows tbl')" "cell r' ''id'' = JNum (the (candidate_key ob))"
        "\<forall>f\<in>set fs. cell r' f = cell (the (candidate_cells tbl fs ob)) f"
        by blast
      from keyed_same_key [OF k' r r'(1)] kr r'(2) have rr: "r = r'" by simp
      have dr: "distinct (map fst r)"
        using k' r by (auto simp: keyed_def list_all_iff)
      have dom: "map fst g = fs" using candidate_cells_dom [OF ob(2)] .
      have "\<forall>c v. map_of g c = Some v \<longrightarrow> cell r c = v"
      proof (intro allI impI)
        fix c v assume cv: "map_of g c = Some v"
        then have "c \<in> fst ` set g" by (metis domI dom_map_of_conv_image_fst)
        then have "c \<in> set fs" using dom by (metis set_map)
        with r'(3) rr ob(2) have "cell r c = cell g c" by simp
        with cv show "cell r c = v" by (simp add: cell_def)
      qed
      from set_cells_same [OF dr this] ob(2) cc'
      show "set_cells (the (candidate_cells tbl' fs ob)) r = r" by simp
    qed
    have "upserted tbl' fs obs us2 = trows tbl'"
      by (simp add: upserted_def nonew same)
    then have "db'\<lparr>tables := (tables db')(t \<mapsto> tbl'\<lparr>trows := upserted tbl' fs obs us2\<rparr>)\<rparr> = db'"
      using t' by (simp add: fun_upd_idem)
    with res2 show ?thesis by simp
  qed
  show ?thesis
    apply (rule exI [of _ tbl'])
    using res c2 c3 c4 c5 c6 unfolding tbl'_def [symmetric] db'_def [symmetric]
    by (simp add: db'_def)
qed

text \<open>
  Claim C1, as the code has it for the tables that go through \<^verbatim>\<open>upsert\<close> with their key
  (\<^verbatim>\<open>CARD_META\<close>, \<^verbatim>\<open>CARD\<close>, \<^verbatim>\<open>MINT_PASS\<close>). On a table whose only constraint is its integer
  key, for a column list of at least two columns that includes the key, candidates with
  pairwise distinct integer keys and admissible values, and no failing statement: the call
  returns normally and touches no other table; the keys of the table are the old keys
  and the keys of the candidates, each once; for every candidate the row of its key holds
  the candidate's values in all the listed columns, whether the row was inserted or
  updated; rows of other keys are as before; and a second upsert of the same candidates
  leaves the store exactly as the first one left it.
\<close>

theorem upsert_two_phase:
  assumes "tables db t = Some tbl" and "faults db = []" and "keyed tbl"
    and "distinct fs" and "2 \<le> length fs" and "''id'' \<in> set fs"
    and "\<forall>ob\<in>set obs. \<exists>n g. candidate_key ob = Some n \<and> candidate_cells tbl fs ob = Some g"
    and "distinct (map candidate_key obs)"
  shows "\<exists>tbl'.
      DatabaseService_upsert db t (FieldNames fs) ''id'' (map Obj obs) True
        = (Inr (), db\<lparr>tables := (tables db)(t \<mapsto> tbl')\<rparr>)
      \<and> distinct (keys_of tbl')
      \<and> set (keys_of tbl') = set (keys_of tbl) \<union> (\<lambda>ob. JNum (the (candidate_key ob))) ` set obs
      \<and> (\<forall>ob\<in>set obs. \<exists>r\<in>set (trows tbl').
             cell r ''id'' = JNum (the (candidate_key ob))
             \<and> (\<forall>f\<in>set fs. cell r f = cell (the (candidate_cells tbl fs ob)) f))
      \<and> (\<forall>r\<in>set (trows tbl).
             cell r ''id'' \<notin> (\<lambda>ob. JNum (the (candidate_key ob))) ` set obs \<longrightarrow> r \<in> set (trows tbl'))
      \<and> DatabaseService_upsert (db\<lparr>tables := (tables db)(t \<mapsto> tbl')\<rparr>) t (FieldNames fs) ''id'' (map Obj obs) True
        = (Inr (), db\<lparr>tables := (tables db)(t \<mapsto> tbl')\<rparr>)"
  using assms by (rule upsert_effect)

text \<open>
  The theorem at a \<^verbatim>\<open>CARD\<close> table that holds card 1 with rank 1, for the candidates
  card 1 with rank 3 (an update) and card 2 with rank 5 (an insert).
\<close>

theorem upsert_two_phase_witness:
  "\<exists>tbl'.
      DatabaseService_upsert card_store ''CARD'' (FieldNames [''id'', ''rank'']) ''id'' (map Obj card_candidates) True
        = (Inr (), card_store\<lparr>tables := (tables card_store)(''CARD'' \<mapsto> tbl')\<rparr>)
      \<and> set (keys_of tbl') = {JNum 1, JNum 2}
      \<and> (\<exists>r\<in>set (trows tbl'). cell r ''id'' = JNum 1 \<and> cell r ''rank'' = JNum 3)
      \<and> (\<exists>r\<in>set (trows tbl'). cell r ''id'' = JNum 2 \<and> cell r ''rank'' = JNum 5)
      \<and> DatabaseService_upsert (card_store\<lparr>tables := (tables card_store)(''CARD'' \<mapsto> tbl')\<rparr>) ''CARD''
            (FieldNames [''id'', ''rank'']) ''id'' (map Obj card_candidates) True
        = (Inr (), card_store\<lparr>tables := (tables card_store)(''CARD'' \<mapsto> tbl')\<rparr>)"
proof -
  have a: "tables card_store ''CARD'' = Some (CARD_table\<lparr>trows := [card_row 1 1]\<rparr>)"
    and b: "faults card_store = []"
    by (simp_all add: card_store_def)
  have c: "keyed (CARD_table\<lparr>trows := [card_row 1 1]\<rparr>)"
    by (simp add: keyed_def keys_of_def CARD_table_def card_row_def cell_def)
  have d: "distinct [''id'', ''rank'']" "2 \<le> length [''id'', ''rank'']" "''id'' \<in> set [''id'', ''rank'']"
    by simp_all
  have e: "\<forall>ob\<in>set card_candidates. \<exists>n g. candidate_key ob = Some n \<and>
     candidate_cells (CARD_table\<lparr>trows := [card_row 1 1]\<rparr>) [''id'', ''rank''] ob = Some g"
    by (simp add: card_candidates_def candidate_key_def candidate_cells_def js_get_def CARD_table_def)
  have f: "distinct (map candidate_key card_candidates)"
    by (simp add: card_candidates_def candidate_key_def js_get_def)
  from upsert_two_phase [OF a b c d e f] obtain tbl' where t:
    "DatabaseService_upsert card_store ''CARD'' (FieldNames [''id'', ''rank'']) ''id'' (map Obj card_candidates) True
        = (Inr (), card_store\<lparr>tables := (tables card_store)(''CARD'' \<mapsto> tbl')\<rparr>)"
    "set (keys_of tbl') = set (keys_of (CARD_table\<lparr>trows := [card_row 1 1]\<rparr>)) \<union>
        (\<lambda>ob. JNum (the (candidate_key ob))) ` set card_candidates"
    "\<forall>ob\<in>set card_candidates. \<exists>r\<in>set (trows tbl').
             cell r ''id'' = JNum (the (candidate_key ob))
             \<and> (\<forall>f\<in>set [''id'', ''rank'']. cell r f =
                   cell (the (candidate_cells (CARD_table\<lparr>trows := [card_row 1 1]\<rparr>) [''id'', ''rank''] ob)) f)"
    "DatabaseService_upsert (card_store\<lparr>tables := (tables card_store)(''CARD'' \<mapsto> tbl')\<rparr>) ''CARD''
            (FieldNames [''id'', ''rank'']) ''id'' (map Obj card_candidates) True
        = (Inr (), card_store\<lparr>tables := (tables card_store)(''CARD'' \<mapsto> tbl')\<rparr>)"
    by blast
  have k: "set (keys_of tbl') = {JNum 1, JNum 2}"
    using t(2) by (auto simp: keys_of_def card_row_def cell_def card_candidates_def candidate_key_def js_get_def)
  have r: "(\<exists>r\<in>set (trows tbl'). cell r ''id'' = JNum 1 \<and> cell r ''rank'' = JNum 3)"
    "(\<exists>r\<in>set (trows tbl'). cell r ''id'' = JNum 2 \<and> cell r ''rank'' = JNum 5)"
    using t(3) by (simp_all add: card_candidates_def candidate_key_def candidate_cells_def js_get_def CARD_table_def cell_def)
  from t(1,4) k r show ?thesis by blast
qed

text \<open>
  Claim C1 as stated also names the pass-type table, which does not go through
  \<^verbatim>\<open>upsert\<close>: \<^verbatim>\<open>updateMintPassTypes\<close> inserts the types whose name is not stored yet and never
  updates a stored one. Submitting the type \<^verbatim>\<open>GOLD\<close> again under another name leaves the
  stored row as it was, so its content is not that of the latest candidate.
\<close>

theorem pass_type_not_updated:
  "(let db1 = snd (updateMintPassTypes (createSchema empty_store) [sample_pass_type ''Gold pass'']);
        db2 = snd (updateMintPassTypes db1 [sample_pass_type ''Golden pass''])
    in map_option trows (tables db2 ''MINT_PASS_TYPE''))
   = Some [[(''id'', JNum 1), (''pass_type'', JStr ''GOLD''), (''name'', JStr ''Gold pass''),
            (''description'', JNull), (''image_url'', JStr ''https://img/GOLD.png'')]]"
  by code_simp


subsection \<open>Failed statements\<close>

text \<open>
  \<^verbatim>\<open>query\<close> turns a failed statement into an empty result, and \<^verbatim>\<open>insert\<close> and \<^verbatim>\<open>update\<close>
  send their statements through \<^verbatim>\<open>query\<close>: none of them rejects with the store's error.
\<close>

lemma query_absorbs: "fst (pool_query db st) = Inl e \<Longrightarrow> fst (DatabaseService_query db st) = []"
  by (auto simp: DatabaseService_query_def split: prod.splits sum.splits)

lemma item_get_no_DbError: "item_get v f \<noteq> Inl DbError"
  by (cases "(v, f)" rule: item_get.cases) auto

lemma collect_no_DbError: "(\<forall>x\<in>set xs. x \<noteq> Inl DbError) \<Longrightarrow> collect xs \<noteq> Inl DbError"
  by (induction xs rule: collect.induct) (auto split: sum.splits)

lemma fieldValues_no_DbError: "fieldValues fns v \<noteq> Inl DbError"
proof (cases "(fns, v)" rule: fieldValues.cases)
  case (4 fs ob)
  have "collect (map (item_get ob) fs) \<noteq> Inl DbError"
    by (rule collect_no_DbError) (simp add: item_get_no_DbError)
  with 4 show ?thesis by simp
qed auto

lemma insert_no_DbError: "fst (DatabaseService_insert db t fns pk vals) \<noteq> Inl DbError"
proof -
  have "collect (map (fieldValues fns) vals) \<noteq> Inl DbError"
    by (rule collect_no_DbError) (simp add: fieldValues_no_DbError)
  then show ?thesis
    by (auto simp: DatabaseService_insert_def Let_def split: sum.splits prod.splits)
qed

lemma update_no_DbError: "fst (DatabaseService_update db t fns pk vals) \<noteq> Inl DbError"
proof (induction vals arbitrary: db)
  case Nil
  show ?case by simp
next
  case (Cons v vals)
  have "update_stmt t fns pk v \<noteq> Inl DbError"
    using item_get_no_DbError [of v pk] fieldValues_no_DbError [of fns v]
      pg_format_no_DbError [of "update_arg fns xs" for xs, OF update_arg_no_DbError]
    by (auto simp: update_stmt_def split: sum.splits)
  with Cons show ?case
    by (auto split: sum.splits)
qed

text \<open>
  Claim C5 fails on \<^verbatim>\<open>delete\<close>, which awaits \<^verbatim>\<open>pool.query\<close> outside \<^verbatim>\<open>query\<close>: when the
  statement fails, the call rejects with the store's error instead of returning.
\<close>

theorem delete_rejects_on_failure:
  "fst (DatabaseService_delete ((createSchema empty_store)\<lparr>faults := [True]\<rparr>) ''CARD'' [JNum 1]) = Inl DbError"
  by (simp add: DatabaseService_delete_def pool_query_def)

subsection \<open>The text of an update\<close>

text \<open>
  Claim C9 fails on the key of an update: the value of the key is spliced into the
  \<^verbatim>\<open>WHERE\<close> clause of the template as it is (the formatter reads it as a part of the
  template and does not quote it), while the values of the \<^verbatim>\<open>SET\<close> clause are quoted.
  A row whose key is the text \<^verbatim>\<open>0 OR 1=1\<close> yields a statement whose condition holds for
  every row of the table.
\<close>

theorem update_text_key_unescaped:
  "update_text ''CARD_META'' (FieldNames [''name'', ''description'']) ''id''
        (Obj [(''id'', JStr ''0 OR 1=1''), (''name'', JStr ''x''), (''description'', JStr ''y'')])
   = Inr ''UPDATE CARD_META SET (name,description) = ('x', 'y') WHERE id = 0 OR 1=1''"
  by code_simp

section \<open>The owners of passes\<close>

lemma classify_asset_users:
  "classify_asset m a = Inr m1 \<Longrightarrow>
   set (users_set m1) = set (users_set m) \<union> (if is_card a then {user a} else {})"
  by (auto simp: classify_asset_def classify_pass_def classify_card_def is_card_def set_add_def
      split: option.splits sum.splits if_splits)

lemma classify_users:
  "classify m as = Inr m' \<Longrightarrow> set (users_set m') = set (users_set m) \<union> user ` {a \<in> set as. is_card a}"
proof (induction as arbitrary: m)
  case Nil
  then show ?case by simp
next
  case (Cons a as)
  from Cons.prems obtain m1 where a: "classify_asset m a = Inr m1" and r: "classify m1 as = Inr m'"
    by (auto split: sum.splits)
  from Cons.IH [OF r] classify_asset_users [OF a] show ?case by auto
qed

lemma classify_asset_passes:
  assumes "classify_asset m a = Inr m1"
  shows "if is_pass a
    then \<exists>ob. candidate_of a ob \<and> mintPasses_map m1 = set_if_new (mintPasses_map m) (token_id a) ob
    else mintPasses_map m1 = mintPasses_map m"
proof (cases "metadata a")
  case None
  with assms show ?thesis by (simp add: classify_asset_def)
next
  case (Some md)
  show ?thesis
  proof (cases "js_get md ''tokenType'' = JStr ''MINT_PASS''")
    case True
    then have p: "is_pass a" by (simp add: is_pass_def Some)
    from assms Some True obtain passType where pt: "getMintPassType a = Inr passType"
      by (cases "getMintPassType a") (simp_all add: classify_asset_def classify_pass_def)
    define ob where "ob = [(''id'', parseInt (token_id a)), (''passType'', JStr passType),
                       (''user'', user a), (''numbering'', js_get md ''numbering''),
                       (''created_at'', created_at a), (''updated_at'', updated_at a)]"
    have "candidate_of a ob"
      by (simp add: candidate_of_def ob_def js_get_def Some)
    moreover from assms Some True pt
    have "mintPasses_map m1 = set_if_new (mintPasses_map m) (token_id a) ob"
      by (auto simp: classify_asset_def classify_pass_def ob_def)
    ultimately show ?thesis using p by auto
  next
    case False
    then have p: "\<not> is_pass a" by (simp add: is_pass_def Some)
    from assms Some False have "mintPasses_map m1 = mintPasses_map m"
      by (cases "getMetaCardId a") (auto simp: classify_asset_def classify_card_def split: if_splits)
    with p show ?thesis by simp
  qed
qed

lemma classify_passes:
  "classify m as = Inr m' \<Longrightarrow>
   distinct (map fst (mintPasses_map m) @ map token_id (filter is_pass as)) \<Longrightarrow>
   \<exists>new. mintPasses_map m' = mintPasses_map m @ new
         \<and> list_all2 candidate_of (filter is_pass as) (map snd new)"
proof (induction as arbitrary: m)
  case Nil
  then show ?case by simp
next
  case (Cons a as)
  from Cons.prems(1) obtain m1 where a: "classify_asset m a = Inr m1" and r: "classify m1 as = Inr m'"
    by (auto split: sum.splits)
  show ?case
  proof (cases "is_pass a")
    case False
    with classify_asset_passes [OF a] have same: "mintPasses_map m1 = mintPasses_map m" by simp
    from Cons.prems(2) False have "distinct (map fst (mintPasses_map m1) @ map token_id (filter is_pass as))"
      by (simp add: same)
    from Cons.IH [OF r this] False same show ?thesis by simp
  next
    case True
    with classify_asset_passes [OF a] obtain ob where
      ob: "candidate_of a ob" "mintPasses_map m1 = set_if_new (mintPasses_map m) (token_id a) ob"
      by auto
    from Cons.prems(2) True have fresh: "token_id a \<notin> set (map fst (mintPasses_map m))" by auto
    with ob(2) have m1: "mintPasses_map m1 = mintPasses_map m @ [(token_id a, ob)]"
      by (simp add: set_if_new_def)
    from Cons.prems(2) True have "distinct (map fst (mintPasses_map m1) @ map token_id (filter is_pass as))"
      by (auto simp: m1)
    from Cons.IH [OF r this] obtain new where
      n: "mintPasses_map m' = mintPasses_map m1 @ new" "list_all2 candidate_of (filter is_pass as) (map snd new)"
      by blast
    show ?thesis
      by (rule exI [of _ "(token_id a, ob) # new"]) (use n m1 ob(1) True in simp)
  qed
qed

lemma select_rows:
  assumes "faults db = []" and "DatabaseService_query db (Select t cs) = (rows, db')"
  shows "db' = db \<and> (rows = [] \<or> (\<exists>tbl. tables db t = Some tbl
            \<and> rows = map (\<lambda>r. map (\<lambda>c. (c, cell r c)) cs) (trows tbl)))"
proof (cases "tables db t")
  case None
  with assms show ?thesis
    by (cases db) (auto simp: DatabaseService_query_def pool_query_def Let_def)
next
  case (Some tbl)
  show ?thesis
  proof (cases "list_all (\<lambda>c. map_of (columns tbl) c \<noteq> None) cs")
    case True
    from select_ok [OF assms(1) Some True] assms(2) Some show ?thesis by simp
  next
    case False
    with assms Some show ?thesis
      by (cases db) (auto simp: DatabaseService_query_def pool_query_def Let_def exec_def)
  qed
qed

lemma lookup_rows:
  assumes "faults db = []" and "f \<noteq> ''id''"
    and "DatabaseService_query db (Select t [''id'', f]) = (rows, db')"
  shows "db' = db"
    and "set (map (\<lambda>r. (js_get r f, js_get r ''id'')) rows)
           \<subseteq> (\<lambda>r. (cell r f, cell r ''id'')) ` (case tables db t of None \<Rightarrow> {} | Some tbl \<Rightarrow> set (trows tbl))"
proof -
  from select_rows [OF assms(1,3)] show "db' = db" by simp
  from select_rows [OF assms(1,3)] assms(2)
  show "set (map (\<lambda>r. (js_get r f, js_get r ''id'')) rows)
           \<subseteq> (\<lambda>r. (cell r f, cell r ''id'')) ` (case tables db t of None \<Rightarrow> {} | Some tbl \<Rightarrow> set (trows tbl))"
    by (auto simp: js_get_def)
qed

lemma map_get_absent: "k \<notin> fst ` set m \<Longrightarrow> map_get m k = JUndefined"
proof -
  assume "k \<notin> fst ` set m"
  then have "map_of (rev m) k = None" by (simp add: map_of_eq_None_iff)
  then show ?thesis by (simp add: map_get_def)
qed

lemma map_get_cases: "map_get m k = JUndefined \<or> map_get m k \<in> snd ` set m"
proof (cases "map_of (rev m) k")
  case None
  then show ?thesis by (simp add: map_get_def)
next
  case (Some v)
  then have "(k, v) \<in> set m" by (auto dest: map_of_SomeD)
  with Some show ?thesis by (force simp: map_get_def)
qed

lemma int_ids_lookup:
  assumes "int_ids db t"
    and "set m \<subseteq> (\<lambda>r. (cell r f, cell r ''id'')) ` (case tables db t of None \<Rightarrow> {} | Some tbl \<Rightarrow> set (trows tbl))"
  shows "\<exists>x. coerce IntCol (quoteLiteral (map_get m k)) = Some x"
proof -
  from map_get_cases [of m k] show ?thesis
  proof
    assume "map_get m k = JUndefined"
    then show ?thesis by simp
  next
    assume "map_get m k \<in> snd ` set m"
    with assms(2) obtain tbl r where "tables db t = Some tbl" "r \<in> set (trows tbl)"
      "map_get m k = cell r ''id''"
      by (cases "tables db t") auto
    with assms(1) obtain i where "map_get m k = JNum i"
      by (cases "cell r ''id''") (auto simp: int_ids_def list_all_iff)
    then show ?thesis by simp
  qed
qed

lemma list_all2_left: "list_all2 R xs ys \<Longrightarrow> x \<in> set xs \<Longrightarrow> \<exists>y\<in>set ys. R x y"
  by (induction rule: list_all2_induct) auto

lemma list_all2_right: "list_all2 R xs ys \<Longrightarrow> y \<in> set ys \<Longrightarrow> \<exists>x\<in>set xs. R x y"
  by (induction rule: list_all2_induct) auto

lemma list_all2_maps: "list_all2 R xs ys \<Longrightarrow> (\<And>x y. R x y \<Longrightarrow> g y = h x) \<Longrightarrow> map g ys = map h xs"
  by (induction rule: list_all2_induct) auto

lemma coerce_text: "\<exists>x. coerce TextCol l = Some x"
  by (cases l) auto

lemma read_users_ok:
  assumes "faults db = []" and "read_users db = (um, db1)"
  shows "db1 = db" and "fst ` set um \<subseteq> user_addresses db"
    and "int_ids db ''CTA_USER'' \<Longrightarrow> \<exists>x. coerce IntCol (quoteLiteral (map_get um k)) = Some x"
proof -
  obtain rows db' where q: "DatabaseService_query db (Select ''CTA_USER'' [''id'', ''address'']) = (rows, db')"
    by (cases "DatabaseService_query db (Select ''CTA_USER'' [''id'', ''address''])")
  with assms(2) have u: "um = map (\<lambda>r. (js_get r ''address'', js_get r ''id'')) rows" and d: "db1 = db'"
    by (simp_all add: read_users_def get_enum_table_def)
  note l = lookup_rows [OF assms(1) _ q]
  from l(1) d show "db1 = db" by simp
  have sub: "set um \<subseteq> (\<lambda>r. (cell r ''address'', cell r ''id'')) `
       (case tables db ''CTA_USER'' of None \<Rightarrow> {} | Some tbl \<Rightarrow> set (trows tbl))"
    using l(2) u by simp
  then show "fst ` set um \<subseteq> user_addresses db"
    by (cases "tables db ''CTA_USER''") (auto simp: user_addresses_def)
  show "\<exists>x. coerce IntCol (quoteLiteral (map_get um k)) = Some x" if "int_ids db ''CTA_USER''"
    using int_ids_lookup [OF that sub] .
qed

lemma read_mint_pass_types_ok:
  assumes "faults db = []" and "read_mint_pass_types db = (tm, db1)"
  shows "db1 = db"
    and "int_ids db ''MINT_PASS_TYPE'' \<Longrightarrow> \<exists>x. coerce IntCol (quoteLiteral (map_get tm k)) = Some x"
proof -
  obtain rows db' where q: "DatabaseService_query db (Select ''MINT_PASS_TYPE'' [''id'', ''pass_type'']) = (rows, db')"
    by (cases "DatabaseService_query db (Select ''MINT_PASS_TYPE'' [''id'', ''pass_type''])")
  with assms(2) have u: "tm = map (\<lambda>r. (js_get r ''pass_type'', js_get r ''id'')) rows" and d: "db1 = db'"
    by (simp_all add: read_mint_pass_types_def)
  note l = lookup_rows [OF assms(1) _ q]
  from l(1) d show "db1 = db" by simp
  have sub: "set tm \<subseteq> (\<lambda>r. (cell r ''pass_type'', cell r ''id'')) `
       (case tables db ''MINT_PASS_TYPE'' of None \<Rightarrow> {} | Some tbl \<Rightarrow> set (trows tbl))"
    using l(2) u by simp
  show "\<exists>x. coerce IntCol (quoteLiteral (map_get tm k)) = Some x" if "int_ids db ''MINT_PASS_TYPE''"
    using int_ids_lookup [OF that sub] .
qed

lemma pass_rows_written:
  assumes nf: "faults db = []" and tb: "tables db ''MINT_PASS'' = Some tbl" and kd: "keyed tbl"
    and cols: "columns tbl = columns MINT_PASS_table"
    and iu: "int_ids db ''CTA_USER''" and it: "int_ids db ''MINT_PASS_TYPE''"
    and la: "list_all2 candidate_of passes ps"
    and dist: "distinct (map (\<lambda>a. parseInt (token_id a)) passes)"
    and adm: "\<forall>a\<in>set passes. (\<exists>n. parseInt (token_id a) = JNum n)
               \<and> (\<forall>md. metadata a = Some md \<longrightarrow> (\<exists>x. coerce IntCol (quoteLiteral (js_get md ''numbering'')) = Some x))"
  shows "\<exists>tbl'. updateMintPasses db ps = (Inr (), db\<lparr>tables := (tables db)(''MINT_PASS'' \<mapsto> tbl')\<rparr>)
          \<and> (\<forall>a\<in>set passes. user a \<notin> user_addresses db \<longrightarrow>
                (\<exists>r\<in>set (trows tbl'). cell r ''id'' = parseInt (token_id a) \<and> cell r ''user_id'' = JNull))"
proof (cases "ps = []")
  case True
  with la have "passes = []" by simp
  moreover have "db\<lparr>tables := (tables db)(''MINT_PASS'' \<mapsto> tbl)\<rparr> = db"
    using tb by (simp add: fun_upd_idem)
  ultimately show ?thesis using True
    by (intro exI [of _ tbl]) (simp add: updateMintPasses_def)
next
  case False
  define fs where "fs = [''id'', ''numbering'', ''created_at'', ''updated_at'', ''mint_pass_type_id'', ''user_id'']"
  obtain um db1 where ru: "read_users db = (um, db1)" by (cases "read_users db")
  note u = read_users_ok [OF nf ru]
  obtain tm db2 where rt: "read_mint_pass_types db = (tm, db2)" by (cases "read_mint_pass_types db")
  note t = read_mint_pass_types_ok [OF nf rt]
  define row where "row = (\<lambda>r. [(''mint_pass_type_id'', map_get tm (js_get r ''passType'')),
                                   (''user_id'', map_get um (js_get r ''user''))] @ r)"
  define obs where "obs = map row ps"
  have ump: "updateMintPasses db ps = DatabaseService_upsert db ''MINT_PASS'' (FieldNames fs) ''id'' (map Obj obs) True"
    using False ru rt u(1) t(1)
    by (simp add: updateMintPasses_def obs_def row_def fs_def comp_def)
  have gets: "js_get (row r) ''id'' = js_get r ''id''" "js_get (row r) ''numbering'' = js_get r ''numbering''"
    "js_get (row r) ''created_at'' = js_get r ''created_at''" "js_get (row r) ''updated_at'' = js_get r ''updated_at''"
    "js_get (row r) ''mint_pass_type_id'' = map_get tm (js_get r ''passType'')"
    "js_get (row r) ''user_id'' = map_get um (js_get r ''user'')" for r
    by (simp_all add: row_def js_get_def)
  have dfs: "distinct fs" "2 \<le> length fs" "''id'' \<in> set fs" "''user_id'' \<in> set fs" by (simp_all add: fs_def)
  have one: "\<exists>n. js_get r ''id'' = JNum n \<and> candidate_key (row r) = Some n
               \<and> (\<exists>g. candidate_cells tbl fs (row r) = Some g)" if r: "r \<in> set ps" for r
  proof -
    from list_all2_right [OF la r] obtain a where a: "a \<in> set passes" "candidate_of a r" by blast
    from a(2) obtain md where md: "metadata a = Some md" "js_get r ''numbering'' = js_get md ''numbering''"
      and rid: "js_get r ''id'' = parseInt (token_id a)"
      by (auto simp: candidate_of_def)
    from adm a(1) md obtain n x2 where n: "parseInt (token_id a) = JNum n"
      and x2: "coerce IntCol (quoteLiteral (js_get r ''numbering'')) = Some x2"
      by fastforce
    obtain x3 where x3: "coerce TextCol (quoteLiteral (js_get r ''created_at'')) = Some x3"
      using coerce_text by blast
    obtain x4 where x4: "coerce TextCol (quoteLiteral (js_get r ''updated_at'')) = Some x4"
      using coerce_text by blast
    obtain x5 where x5: "coerce IntCol (quoteLiteral (map_get tm (js_get r ''passType''))) = Some x5"
      using t(2) [OF it] by blast
    obtain x6 where x6: "coerce IntCol (quoteLiteral (map_get um (js_get r ''user''))) = Some x6"
      using u(3) [OF iu] by blast
    have key: "candidate_key (row r) = Some n"
      by (simp add: candidate_key_def gets rid n)
    have "candidate_cells tbl fs (row r)
        = Some [(''id'', JNum n), (''numbering'', x2), (''created_at'', x3), (''updated_at'', x4),
                (''mint_pass_type_id'', x5), (''user_id'', x6)]"
      by (simp add: candidate_cells_def cols MINT_PASS_table_def fs_def gets rid n x2 x3 x4 x5 x6)
    with key rid n show ?thesis by simp
  qed
  have valid: "\<forall>ob\<in>set obs. \<exists>n g. candidate_key ob = Some n \<and> candidate_cells tbl fs ob = Some g"
    using one by (auto simp: obs_def)
  have keys: "map candidate_key obs = map (\<lambda>a. parse_int (js_toString (parseInt (token_id a)))) passes"
  proof -
    have "map candidate_key obs = map (\<lambda>r. parse_int (js_toString (js_get r ''id''))) ps"
      by (simp add: obs_def candidate_key_def gets comp_def)
    also have "\<dots> = map (\<lambda>a. parse_int (js_toString (parseInt (token_id a)))) passes"
      by (rule list_all2_maps [OF la]) (simp add: candidate_of_def)
    finally show ?thesis .
  qed
  have dk: "distinct (map candidate_key obs)"
  proof -
    have "inj_on (\<lambda>v. parse_int (js_toString v)) (set (map (\<lambda>a. parseInt (token_id a)) passes))"
    proof (rule inj_onI)
      fix v w assume v: "v \<in> set (map (\<lambda>a. parseInt (token_id a)) passes)"
        and w: "w \<in> set (map (\<lambda>a. parseInt (token_id a)) passes)"
        and e: "parse_int (js_toString v) = parse_int (js_toString w)"
      from v adm obtain i where "v = JNum i" by auto
      moreover from w adm obtain j where "w = JNum j" by auto
      ultimately show "v = w" using e by simp
    qed
    with dist have "distinct (map (\<lambda>v. parse_int (js_toString v)) (map (\<lambda>a. parseInt (token_id a)) passes))"
      by (simp only: distinct_map)
    then show ?thesis by (simp add: keys comp_def)
  qed
  from upsert_effect [OF tb nf kd dfs(1,2,3) valid dk] obtain tbl' where
    res: "DatabaseService_upsert db ''MINT_PASS'' (FieldNames fs) ''id'' (map Obj obs) True
        = (Inr (), db\<lparr>tables := (tables db)(''MINT_PASS'' \<mapsto> tbl')\<rparr>)"
    and held: "\<forall>ob\<in>set obs. \<exists>r\<in>set (trows tbl').
             cell r ''id'' = JNum (the (candidate_key ob))
             \<and> (\<forall>f\<in>set fs. cell r f = cell (the (candidate_cells tbl fs ob)) f)"
    by blast
  have "\<exists>r\<in>set (trows tbl'). cell r ''id'' = parseInt (token_id a) \<and> cell r ''user_id'' = JNull"
    if a: "a \<in> set passes" and absent: "user a \<notin> user_addresses db" for a
  proof -
    from list_all2_left [OF la a] obtain r where r: "r \<in> set ps" "candidate_of a r" by blast
    from one [OF r(1)] obtain n g where n: "js_get r ''id'' = JNum n" "candidate_key (row r) = Some n"
      and g: "candidate_cells tbl fs (row r) = Some g"
      by blast
    from r(2) have rid: "js_get r ''id'' = parseInt (token_id a)" and ru: "js_get r ''user'' = user a"
      by (simp_all add: candidate_of_def)
    have "user a \<notin> fst ` set um" using absent u(2) by auto
    then have und: "js_get (row r) ''user_id'' = JUndefined"
      by (simp add: gets ru map_get_absent)
    from candidate_cells_lookup [OF g dfs(1,4)] und have "map_of g ''user_id'' = Some JNull"
      by auto
    then have gu: "cell g ''user_id'' = JNull" by (simp add: cell_def)
    have "row r \<in> set obs" using r(1) by (simp add: obs_def)
    with held obtain rw where rw: "rw \<in> set (trows tbl')" "cell rw ''id'' = JNum (the (candidate_key (row r)))"
      "\<forall>f\<in>set fs. cell rw f = cell (the (candidate_cells tbl fs (row r))) f"
      by blast
    from rw(2) n rid have "cell rw ''id'' = parseInt (token_id a)" by simp
    moreover from rw(3) dfs(4) g gu have "cell rw ''user_id'' = JNull" by simp
    ultimately show ?thesis using rw(1) by blast
  qed
  with res ump show ?thesis by (intro exI [of _ tbl']) simp
qed

text \<open>
  Claim C10. The classification of a page puts an owner into the candidates for the
  user dimension exactly when a card record of the page has this owner: pass records add
  none. And when the pass candidates of the page are written (no statement failing, the
  ids of the passes distinct integers, their numbering an integer or absent), the call
  returns normally and, for every pass record whose owner is not an address of the
  user dimension, the pass table holds a row with the id of the pass and a null user
  key.
\<close>

theorem pass_owner_unresolved:
  assumes "classify empty_maps page = Inr maps"
    and "distinct (map (\<lambda>a. parseInt (token_id a)) (filter is_pass page))"
    and "\<forall>a\<in>set page. is_pass a \<longrightarrow> (\<exists>n. parseInt (token_id a) = JNum n)
               \<and> (\<forall>md. metadata a = Some md \<longrightarrow> (\<exists>x. coerce IntCol (quoteLiteral (js_get md ''numbering'')) = Some x))"
    and "faults db = []" and "tables db ''MINT_PASS'' = Some tbl" and "keyed tbl"
    and "columns tbl = columns MINT_PASS_table"
    and "int_ids db ''CTA_USER''" and "int_ids db ''MINT_PASS_TYPE''"
  shows "set (users (to_candidates maps)) = user ` {a \<in> set page. is_card a}
     \<and> (\<exists>tbl'. updateMintPasses db (mintPasses (to_candidates maps))
                  = (Inr (), db\<lparr>tables := (tables db)(''MINT_PASS'' \<mapsto> tbl')\<rparr>)
          \<and> (\<forall>a\<in>set page. is_pass a \<and> user a \<notin> user_addresses db \<longrightarrow>
                (\<exists>r\<in>set (trows tbl'). cell r ''id'' = parseInt (token_id a) \<and> cell r ''user_id'' = JNull)))"
proof -
  have us: "set (users (to_candidates maps)) = user ` {a \<in> set page. is_card a}"
    using classify_users [OF assms(1)] by (simp add: to_candidates_def empty_maps_def)
  have "distinct (map parseInt (map token_id (filter is_pass page)))"
    using assms(2) by (simp add: comp_def)
  then have "distinct (map token_id (filter is_pass page))" by (simp only: distinct_map)
  then have "distinct (map fst (mintPasses_map empty_maps) @ map token_id (filter is_pass page))"
    by (simp add: empty_maps_def)
  from classify_passes [OF assms(1) this] obtain new where
    "mintPasses_map maps = mintPasses_map empty_maps @ new"
    "list_all2 candidate_of (filter is_pass page) (map snd new)"
    by blast
  then have la: "list_all2 candidate_of (filter is_pass page) (mintPasses (to_candidates maps))"
    by (simp add: to_candidates_def empty_maps_def)
  have adm: "\<forall>a\<in>set (filter is_pass page). (\<exists>n. parseInt (token_id a) = JNum n)
               \<and> (\<forall>md. metadata a = Some md \<longrightarrow> (\<exists>x. coerce IntCol (quoteLiteral (js_get md ''numbering'')) = Some x))"
    using assms(3) by auto
  from pass_rows_written [OF assms(4,5,6,7,8,9) la assms(2) adm] us show ?thesis by auto
qed

text \<open>
  The theorem at the sample page and store: the candidates for the user dimension are
  \<^verbatim>\<open>0xA\<close> alone, and the pass 7 of \<^verbatim>\<open>0xC\<close> is stored with a null user key.
\<close>

theorem pass_owner_unresolved_witness:
  "\<exists>maps tbl'. classify empty_maps pass_page = Inr maps
     \<and> set (users (to_candidates maps)) = {JStr ''0xA''}
     \<and> updateMintPasses pass_store (mintPasses (to_candidates maps))
          = (Inr (), pass_store\<lparr>tables := (tables pass_store)(''MINT_PASS'' \<mapsto> tbl')\<rparr>)
     \<and> (\<exists>r\<in>set (trows tbl'). cell r ''id'' = JNum 7 \<and> cell r ''user_id'' = JNull)"
proof -
  have "case classify empty_maps pass_page of Inl e \<Rightarrow> False | Inr maps \<Rightarrow> True" by code_simp
  then obtain maps where cl: "classify empty_maps pass_page = Inr maps"
    by (cases "classify empty_maps pass_page") auto
  have d: "distinct (map (\<lambda>a. parseInt (token_id a)) (filter is_pass pass_page))" by code_simp
  have "list_all (\<lambda>a. is_pass a \<longrightarrow> (case parseInt (token_id a) of JNum n \<Rightarrow> True | _ \<Rightarrow> False)
            \<and> (case metadata a of None \<Rightarrow> True
                | Some md \<Rightarrow> coerce IntCol (quoteLiteral (js_get md ''numbering'')) \<noteq> None)) pass_page"
    by code_simp
  then have each: "\<And>a. a \<in> set pass_page \<Longrightarrow> is_pass a \<Longrightarrow>
       (case parseInt (token_id a) of JNum n \<Rightarrow> True | _ \<Rightarrow> False)
       \<and> (case metadata a of None \<Rightarrow> True
           | Some md \<Rightarrow> coerce IntCol (quoteLiteral (js_get md ''numbering'')) \<noteq> None)"
    by (simp add: list_all_iff)
  have adm: "\<forall>a\<in>set pass_page. is_pass a \<longrightarrow> (\<exists>n. parseInt (token_id a) = JNum n)
               \<and> (\<forall>md. metadata a = Some md \<longrightarrow> (\<exists>x. coerce IntCol (quoteLiteral (js_get md ''numbering'')) = Some x))"
  proof (intro ballI impI conjI allI)
    fix a assume a: "a \<in> set pass_page" "is_pass a"
    from each [OF a] show "\<exists>n. parseInt (token_id a) = JNum n"
      by (cases "parseInt (token_id a)") simp_all
    fix md assume "metadata a = Some md"
    with each [OF a] show "\<exists>x. coerce IntCol (quoteLiteral (js_get md ''numbering'')) = Some x"
      by auto
  qed
  have nf: "faults pass_store = []" and tb: "tables pass_store ''MINT_PASS'' = Some MINT_PASS_table"
    by (simp_all add: pass_store_def)
  have kd: "keyed MINT_PASS_table" by (simp add: keyed_def MINT_PASS_table_def keys_of_def)
  have iu: "int_ids pass_store ''CTA_USER''" and it: "int_ids pass_store ''MINT_PASS_TYPE''"
    by (simp_all add: int_ids_def pass_store_def enum_table_def MINT_PASS_TYPE_table_def cell_def)
  from pass_owner_unresolved [OF cl d adm nf tb kd refl iu it] obtain tbl' where
    us: "set (users (to_candidates maps)) = user ` {a \<in> set pass_page. is_card a}"
    and w: "updateMintPasses pass_store (mintPasses (to_candidates maps))
                  = (Inr (), pass_store\<lparr>tables := (tables pass_store)(''MINT_PASS'' \<mapsto> tbl')\<rparr>)"
    and rows: "\<forall>a\<in>set pass_page. is_pass a \<and> user a \<notin> user_addresses pass_store \<longrightarrow>
                (\<exists>r\<in>set (trows tbl'). cell r ''id'' = parseInt (token_id a) \<and> cell r ''user_id'' = JNull)"
    by blast
  have owners: "map user (filter is_card pass_page) = [JStr ''0xA'']" by code_simp
  have "user ` {a \<in> set pass_page. is_card a} = set (map user (filter is_card pass_page))" by auto
  then have cards: "user ` {a \<in> set pass_page. is_card a} = {JStr ''0xA''}"
    by (simp only: owners) simp
  have seven: "parseInt (JStr ''7'') = JNum 7" by code_simp
  have "is_pass (sample_pass ''7'' ''0xC'' ''2022-05-02'')
      \<and> user (sample_pass ''7'' ''0xC'' ''2022-05-02'') \<notin> user_addresses pass_store"
    by (simp add: is_pass_def sample_pass_def js_get_def user_addresses_def pass_store_def enum_table_def cell_def)
  with rows have "\<exists>r\<in>set (trows tbl'). cell r ''id'' = parseInt (token_id (sample_pass ''7'' ''0xC'' ''2022-05-02''))
       \<and> cell r ''user_id'' = JNull"
    by (simp add: pass_page_def)
  then have "\<exists>r\<in>set (trows tbl'). cell r ''id'' = JNum 7 \<and> cell r ''user_id'' = JNull"
    by (simp add: sample_pass_def seven)
  with cl us cards w show ?thesis by auto
qed

section \<open>What a page does to the checkpoint table\<close>

subsection \<open>Statements on one table leave the others alone\<close>

lemma pool_query_other:
  "t' \<noteq> stmt_table st \<Longrightarrow> tables (snd (pool_query db st)) t' = tables db t'"
  by (auto simp: pool_query_def Let_def split: option.splits)

lemma pool_query_faults:
  "faults db = [] \<Longrightarrow> faults (snd (pool_query db st)) = []"
  by (auto simp: pool_query_def Let_def split: option.splits)

lemma query_other:
  "t' \<noteq> stmt_table st \<Longrightarrow> tables (snd (DatabaseService_query db st)) t' = tables db t'"
  using pool_query_other [of t' st db]
  by (auto simp: DatabaseService_query_def split: prod.splits sum.splits)

lemma query_faults:
  "faults db = [] \<Longrightarrow> faults (snd (DatabaseService_query db st)) = []"
  using pool_query_faults [of db st]
  by (auto simp: DatabaseService_query_def split: prod.splits sum.splits)

lemma insert_other:
  "t' \<noteq> t \<Longrightarrow> tables (snd (DatabaseService_insert db t fns pk vals)) t' = tables db t'"
proof (cases "collect (map (fieldValues fns) vals)")
  case (Inl e)
  then show ?thesis by (simp add: DatabaseService_insert_def)
next
  case (Inr newRows)
  assume ne: "t' \<noteq> t"
  obtain rows db' where q:
    "DatabaseService_query db (Insert t (fieldList fns) (map (map quoteLiteral) newRows) pk) = (rows, db')"
    by (cases "DatabaseService_query db (Insert t (fieldList fns) (map (map quoteLiteral) newRows) pk)")
  with query_other [of t' "Insert t (fieldList fns) (map (map quoteLiteral) newRows) pk" db] ne
  have "tables db' t' = tables db t'" by simp
  with q Inr show ?thesis by (simp add: DatabaseService_insert_def)
qed

lemma insert_faults:
  "faults db = [] \<Longrightarrow> faults (snd (DatabaseService_insert db t fns pk vals)) = []"
proof (cases "collect (map (fieldValues fns) vals)")
  case (Inl e)
  then show "faults db = [] \<Longrightarrow> ?thesis" by (simp add: DatabaseService_insert_def)
next
  case (Inr newRows)
  assume f: "faults db = []"
  obtain rows db' where q:
    "DatabaseService_query db (Insert t (fieldList fns) (map (map quoteLiteral) newRows) pk) = (rows, db')"
    by (cases "DatabaseService_query db (Insert t (fieldList fns) (map (map quoteLiteral) newRows) pk)")
  with query_faults [OF f, of "Insert t (fieldList fns) (map (map quoteLiteral) newRows) pk"]
  have "faults db' = []" by simp
  with q Inr show ?thesis by (simp add: DatabaseService_insert_def)
qed

lemma update_stmt_table:
  "update_stmt t fns pk v = Inr st \<Longrightarrow> stmt_table st = t"
  by (auto simp: update_stmt_def split: sum.splits)

lemma update_other:
  "t' \<noteq> t \<Longrightarrow> tables (snd (DatabaseService_update db t fns pk vals)) t' = tables db t'"
proof (induction vals arbitrary: db)
  case Nil
  show ?case by simp
next
  case (Cons v vals)
  show ?case
  proof (cases "update_stmt t fns pk v")
    case (Inl e)
    then show ?thesis by simp
  next
    case (Inr st)
    from update_stmt_table [OF Inr] Cons.prems
    have "tables (snd (DatabaseService_query db st)) t' = tables db t'"
      by (simp add: query_other)
    with Cons.IH [OF Cons.prems, of "snd (DatabaseService_query db st)"] Inr show ?thesis by simp
  qed
qed

lemma update_faults:
  "faults db = [] \<Longrightarrow> faults (snd (DatabaseService_update db t fns pk vals)) = []"
proof (induction vals arbitrary: db)
  case Nil
  then show ?case by simp
next
  case (Cons v vals)
  show ?case
  proof (cases "update_stmt t fns pk v")
    case (Inl e)
    with Cons.prems show ?thesis by simp
  next
    case (Inr st)
    from Cons.IH [OF query_faults [OF Cons.prems, of st]] Inr show ?thesis by simp
  qed
qed

lemma upsert_inv:
  assumes ins: "\<And>d f v. P d \<Longrightarrow> P (snd (DatabaseService_insert d t f pk v))"
    and upd: "\<And>d u. P d \<Longrightarrow> P (snd (DatabaseService_update d t fns pk u))"
    and start: "P db"
  shows "P (snd (DatabaseService_upsert db t fns pk vals insertPk))"
proof -
  define args where "args =
            (if insertPk then Inr (fns, vals)
             else case fns of
                    FieldName f \<Rightarrow> Inl TypeError
                  | FieldNames fs \<Rightarrow>
                      (case collect (map (withoutProp pk) vals) of
                         Inl e \<Rightarrow> Inl e
                       | Inr rest \<Rightarrow> Inr (FieldNames (filter (\<lambda>f. f \<noteq> pk) fs), rest)))"
  show ?thesis
  proof (cases args)
    case (Inl e)
    then have "snd (DatabaseService_upsert db t fns pk vals insertPk) = db"
      by (simp add: DatabaseService_upsert_def args_def [symmetric])
    with start show ?thesis by simp
  next
    case (Inr p)
    obtain insFields insVals where p: "p = (insFields, insVals)" by (cases p)
    obtain r db1 where i: "DatabaseService_insert db t insFields pk insVals = (r, db1)"
      by (cases "DatabaseService_insert db t insFields pk insVals")
    have p1: "P db1" using ins [OF start, of insFields insVals] i by simp
    show ?thesis
    proof (cases r)
      case (Inl e)
      then have "snd (DatabaseService_upsert db t fns pk vals insertPk) = db1"
        by (simp add: DatabaseService_upsert_def args_def [symmetric] Inr p i)
      with p1 show ?thesis by simp
    next
      case pk: (Inr pkValues)
      define sel where "sel = (if pkValues \<noteq> []
                         then map_sum id (\<lambda>keep. map fst (filter snd (zip vals keep)))
                                (collect (map (toUpdate pk pkValues) vals))
                         else Inr vals)"
      show ?thesis
      proof (cases sel)
        case (Inl e)
        then have "snd (DatabaseService_upsert db t fns pk vals insertPk) = db1"
          by (simp add: DatabaseService_upsert_def args_def [symmetric] Inr p i pk sel_def [symmetric])
        with p1 show ?thesis by simp
      next
        case u: (Inr updatedRows)
        have "snd (DatabaseService_upsert db t fns pk vals insertPk) =
            (if updatedRows \<noteq> [] then snd (DatabaseService_update db1 t fns pk updatedRows) else db1)"
          by (simp add: DatabaseService_upsert_def args_def [symmetric] Inr p i pk sel_def [symmetric] u)
        with p1 upd [OF p1, of updatedRows] show ?thesis by simp
      qed
    qed
  qed
qed

lemma upsert_other:
  assumes "t' \<noteq> t"
  shows "tables (snd (DatabaseService_upsert db t fns pk vals insertPk)) t' = tables db t'"
  by (rule upsert_inv [where P = "\<lambda>d. tables d t' = tables db t'"])
     (simp_all add: insert_other [OF assms] update_other [OF assms])

lemma upsert_faults:
  assumes "faults db = []"
  shows "faults (snd (DatabaseService_upsert db t fns pk vals insertPk)) = []"
  by (rule upsert_inv [where P = "\<lambda>d. faults d = []"])
     (simp_all add: insert_faults update_faults assms)

lemma delete_other:
  "t' \<noteq> t \<Longrightarrow> tables (snd (DatabaseService_delete db t ids)) t' = tables db t'"
  using pool_query_other [of t' "Delete t (map quoteLiteral ids)" db]
  by (auto simp: DatabaseService_delete_def split: prod.splits sum.splits)

lemma delete_faults:
  "faults db = [] \<Longrightarrow> faults (snd (DatabaseService_delete db t ids)) = []"
  using pool_query_faults [of db "Delete t (map quoteLiteral ids)"]
  by (auto simp: DatabaseService_delete_def split: prod.splits sum.splits)

lemma keeps_history_refl [simp]: "keeps_history db db"
  by (simp add: keeps_history_def)

lemma keeps_history_trans: "keeps_history a b \<Longrightarrow> keeps_history b c \<Longrightarrow> keeps_history a c"
  by (auto simp: keeps_history_def)

lemma kh_query:
  "stmt_table st \<noteq> ''UPDATE_HISTORY'' \<Longrightarrow> keeps_history db (snd (DatabaseService_query db st))"
  using query_other [of "''UPDATE_HISTORY''" st db] query_faults [of db st]
  by (auto simp: keeps_history_def)

lemma kh_insert:
  "t \<noteq> ''UPDATE_HISTORY'' \<Longrightarrow> keeps_history db (snd (DatabaseService_insert db t fns pk vals))"
  using insert_other [of "''UPDATE_HISTORY''" t db fns pk vals] insert_faults [of db t fns pk vals]
  by (auto simp: keeps_history_def)

lemma kh_upsert:
  "t \<noteq> ''UPDATE_HISTORY'' \<Longrightarrow> keeps_history db (snd (DatabaseService_upsert db t fns pk vals b))"
  using upsert_other [of "''UPDATE_HISTORY''" t db fns pk vals b] upsert_faults [of db t fns pk vals b]
  by (auto simp: keeps_history_def)

lemma kh_delete:
  "t \<noteq> ''UPDATE_HISTORY'' \<Longrightarrow> keeps_history db (snd (DatabaseService_delete db t ids))"
  using delete_other [of "''UPDATE_HISTORY''" t db ids] delete_faults [of db t ids]
  by (auto simp: keeps_history_def)

lemma kh_get_enum_table:
  "t \<noteq> ''UPDATE_HISTORY'' \<Longrightarrow> keeps_history db (snd (get_enum_table db t f))"
proof -
  assume ne: "t \<noteq> ''UPDATE_HISTORY''"
  obtain rows db' where q: "DatabaseService_query db (Select t [''id'', f]) = (rows, db')"
    by (cases "DatabaseService_query db (Select t [''id'', f])")
  then have "snd (get_enum_table db t f) = db'" by (simp add: get_enum_table_def)
  with kh_query [of "Select t [''id'', f]" db] q ne show ?thesis by simp
qed

lemma kh_insertNew:
  assumes "t \<noteq> ''UPDATE_HISTORY''"
  shows "keeps_history db (snd (insertNewValuesInEnumTable db t f items))"
proof -
  obtain existingValues db1 where g: "get_enum_table db t f = (existingValues, db1)"
    by (cases "get_enum_table db t f")
  have k1: "keeps_history db db1" using kh_get_enum_table [OF assms, of db f] g by simp
  define newValues where "newValues = filter (\<lambda>v. \<not> map_has existingValues v) items"
  show ?thesis
  proof (cases "newValues = []")
    case True
    then have "snd (insertNewValuesInEnumTable db t f items) = db1"
      by (simp add: insertNewValuesInEnumTable_def newValues_def g)
    with k1 show ?thesis by simp
  next
    case False
    obtain res db2 where i: "DatabaseService_insert db1 t (FieldName f) ''id'' (map Prim newValues) = (res, db2)"
      by (cases "DatabaseService_insert db1 t (FieldName f) ''id'' (map Prim newValues)")
    with False have eq: "snd (insertNewValuesInEnumTable db t f items) = db2"
      by (cases res) (simp_all add: insertNewValuesInEnumTable_def newValues_def g)
    from kh_insert [OF assms, of db1 "FieldName f" "''id''" "map Prim newValues"] i
    have "keeps_history db1 db2" by simp
    with k1 eq show ?thesis by (auto intro: keeps_history_trans)
  qed
qed

lemma kh_read_mint_pass_types: "keeps_history db (snd (read_mint_pass_types db))"
proof -
  obtain rows db' where q: "DatabaseService_query db (Select ''MINT_PASS_TYPE'' [''id'', ''pass_type'']) = (rows, db')"
    by (cases "DatabaseService_query db (Select ''MINT_PASS_TYPE'' [''id'', ''pass_type''])")
  then have "snd (read_mint_pass_types db) = db'" by (simp add: read_mint_pass_types_def)
  with kh_query [of "Select ''MINT_PASS_TYPE'' [''id'', ''pass_type'']" db] q show ?thesis by simp
qed

lemma snd_case_drop:
  "snd (case x of (Inl e, d) \<Rightarrow> (Inl e, d) | (Inr p, d) \<Rightarrow> (Inr u, d)) = snd x"
  by (cases x) (auto split: sum.splits)

lemma kh_updateMetaCards: "keeps_history db (snd (updateMetaCards db mcs))"
proof (cases "length mcs \<le> 0")
  case True
  then show ?thesis by (simp add: updateMetaCards_def)
next
  case False
  obtain e db1 where a: "read_elements db = (e, db1)" by (cases "read_elements db")
  obtain r db2 where b: "read_rarities db1 = (r, db2)" by (cases "read_rarities db1")
  obtain f db3 where c: "read_families db2 = (f, db3)" by (cases "read_families db2")
  have "keeps_history db db1"
    using kh_get_enum_table [of "''ELEMENT''" db "''name''"] a by (simp add: read_elements_def)
  moreover have "keeps_history db1 db2"
    using kh_get_enum_table [of "''RARITY''" db1 "''name''"] b by (simp add: read_rarities_def)
  moreover have "keeps_history db2 db3"
    using kh_get_enum_table [of "''FAMILY''" db2 "''name''"] c by (simp add: read_families_def)
  moreover have "keeps_history db3 (snd (updateMetaCards db mcs))"
    using False by (simp add: updateMetaCards_def a b c kh_upsert)
  ultimately show ?thesis by (blast intro: keeps_history_trans)
qed

lemma kh_updateCards: "keeps_history db (snd (updateCards db cs))"
proof (cases "length cs \<le> 0")
  case True
  then show ?thesis by (simp add: updateCards_def)
next
  case False
  obtain u db1 where a: "read_users db = (u, db1)" by (cases "read_users db")
  have "keeps_history db db1"
    using kh_get_enum_table [of "''CTA_USER''" db "''address''"] a by (simp add: read_users_def)
  moreover have "keeps_history db1 (snd (updateCards db cs))"
    using False by (simp add: updateCards_def a kh_upsert)
  ultimately show ?thesis by (blast intro: keeps_history_trans)
qed

lemma kh_updateMintPassTypes: "keeps_history db (snd (updateMintPassTypes db ps))"
proof (cases "length ps \<le> 0")
  case True
  then show ?thesis by (simp add: updateMintPassTypes_def)
next
  case False
  obtain e db1 where a: "read_mint_pass_types db = (e, db1)" by (cases "read_mint_pass_types db")
  have "keeps_history db db1" using kh_read_mint_pass_types [of db] a by simp
  moreover have "keeps_history db1 (snd (updateMintPassTypes db ps))"
    using False by (simp add: updateMintPassTypes_def a Let_def snd_case_drop kh_insert)
  ultimately show ?thesis by (blast intro: keeps_history_trans)
qed

lemma kh_updateMintPasses: "keeps_history db (snd (updateMintPasses db ps))"
proof (cases "length ps \<le> 0")
  case True
  then show ?thesis by (simp add: updateMintPasses_def)
next
  case False
  obtain u db1 where a: "read_users db = (u, db1)" by (cases "read_users db")
  obtain e db2 where b: "read_mint_pass_types db1 = (e, db2)" by (cases "read_mint_pass_types db1")
  have "keeps_history db db1"
    using kh_get_enum_table [of "''CTA_USER''" db "''address''"] a by (simp add: read_users_def)
  moreover have "keeps_history db1 db2" using kh_read_mint_pass_types [of db1] b by simp
  moreover have "keeps_history db2 (snd (updateMintPasses db ps))"
    using False by (simp add: updateMintPasses_def a b kh_upsert)
  ultimately show ?thesis by (blast intro: keeps_history_trans)
qed

lemma kh_andThen:
  assumes "keeps_history db (snd r)" and "\<And>d. keeps_history d (snd (f d))"
  shows "keeps_history db (snd (andThen r f))"
proof (cases r)
  case (Pair x d)
  with assms show ?thesis
    by (cases x) (auto simp: andThen_def intro: keeps_history_trans)
qed

lemma kh_Repository_update: "keeps_history db (snd (Repository_update db c))"
  unfolding Repository_update_def
  by (intro kh_andThen kh_updateMetaCards kh_updateCards kh_updateMintPassTypes kh_updateMintPasses)
     (simp_all add: updateElements_def updateRarities_def updateFamilies_def updateUsers_def kh_insertNew)

lemma kh_burn: "keeps_history db (snd (burn db passIds cardIds))"
  unfolding burn_def
  by (intro kh_andThen) (simp_all add: burnPasses_def burnCards_def kh_delete)

subsection \<open>Appending a checkpoint\<close>

lemma recordUpdate_fieldValues:
  "collect (map (fieldValues (FieldNames [''update_timestamp'', ''last_asset_timestamp'', ''assets_count'']))
      [Obj [(''update_timestamp'', u), (''last_asset_timestamp'', l), (''assets_count'', c)]])
   = Inr [[u, l, c]]"
  by (simp add: js_get_def)

lemma history_cells:
  assumes "columns tbl = columns UPDATE_HISTORY_table"
    and "coerce_cells (columns tbl) [''update_timestamp'', ''last_asset_timestamp'', ''assets_count'']
           [a, SqlText s, c] = Some given"
  shows "\<exists>v w. coerce TextCol a = Some v \<and> coerce IntCol c = Some w \<and>
           given = [(''update_timestamp'', v), (''last_asset_timestamp'', JStr s), (''assets_count'', w)]"
proof -
  have m: "map_of (columns tbl) ''update_timestamp'' = Some TextCol"
    "map_of (columns tbl) ''last_asset_timestamp'' = Some TextCol"
    "map_of (columns tbl) ''assets_count'' = Some IntCol"
    by (simp_all add: assms(1) UPDATE_HISTORY_table_def)
  from assms(2) show ?thesis
    by (simp add: m split: option.splits)
qed

lemma history_row:
  assumes "columns tbl = columns UPDATE_HISTORY_table"
  shows "map (\<lambda>(c, ty). (c, case map_of [(''update_timestamp'', v), (''last_asset_timestamp'', l), (''assets_count'', w)] c of
                          Some x \<Rightarrow> x
                        | None \<Rightarrow> if c = ''id'' \<and> serial tbl then JNum (next_id tbl) else JNull)) (columns tbl)
       = [(''id'', if serial tbl then JNum (next_id tbl) else JNull), (''update_timestamp'', v),
          (''last_asset_timestamp'', l), (''assets_count'', w)]"
  by (simp add: assms UPDATE_HISTORY_table_def)

lemma history_build_row:
  assumes "columns tbl = columns UPDATE_HISTORY_table"
    and "build_row tbl [''update_timestamp'', ''last_asset_timestamp'', ''assets_count''] [a, SqlText s, c] = Some r"
  shows "cell r ''last_asset_timestamp'' = JStr s"
proof -
  from assms(2) obtain given where
    g: "coerce_cells (columns tbl) [''update_timestamp'', ''last_asset_timestamp'', ''assets_count''] [a, SqlText s, c] = Some given"
    by (auto simp: build_row_def split: option.splits if_splits)
  from history_cells [OF assms(1) g] obtain v w where
    given: "given = [(''update_timestamp'', v), (''last_asset_timestamp'', JStr s), (''assets_count'', w)]"
    by blast
  from assms(2) g have "r = map (\<lambda>(c, ty). (c, case map_of given c of
                          Some x \<Rightarrow> x
                        | None \<Rightarrow> if c = ''id'' \<and> serial tbl then JNum (next_id tbl) else JNull)) (columns tbl)"
    by (simp add: build_row_def Let_def split: if_splits)
  then have "r = [(''id'', if serial tbl then JNum (next_id tbl) else JNull), (''update_timestamp'', v),
          (''last_asset_timestamp'', JStr s), (''assets_count'', w)]"
    unfolding given history_row [OF assms(1)] .
  then show ?thesis by (simp add: cell_def)
qed

lemma recordUpdate_exact:
  assumes "tables db ''UPDATE_HISTORY'' = Some tbl" and "faults db = []" and "history_ok tbl"
  shows "recordUpdate db (JStr u) (JStr s) (JNum (int n))
       = (Inr (), db\<lparr>tables := (tables db)(''UPDATE_HISTORY'' \<mapsto>
             tbl\<lparr>next_id := next_id tbl + 1, trows := trows tbl @ [checkpoint_row (next_id tbl) u s n]\<rparr>)\<rparr>)"
    and "history_ok (tbl\<lparr>next_id := next_id tbl + 1, trows := trows tbl @ [checkpoint_row (next_id tbl) u s n]\<rparr>)"
proof -
  have cols: "columns tbl = columns UPDATE_HISTORY_table"
    and ser: "serial tbl" and un: "uniques tbl = [''id'']"
    and nn: "notnull tbl = [''id'', ''update_timestamp'', ''last_asset_timestamp'']"
    and ids: "list_all (\<lambda>r. case cell r ''id'' of JNum i \<Rightarrow> i < next_id tbl | _ \<Rightarrow> False) (trows tbl)"
    using assms(3) by (simp_all add: history_ok_def UPDATE_HISTORY_table_def)
  define r where "r = checkpoint_row (next_id tbl) u s n"
  define fs where "fs = [''update_timestamp'', ''last_asset_timestamp'', ''assets_count'']"
  define ls where "ls = [SqlText u, SqlText s, SqlText (dec_int (int n))]"
  have m: "map_of (columns tbl) ''update_timestamp'' = Some TextCol"
    "map_of (columns tbl) ''last_asset_timestamp'' = Some TextCol"
    "map_of (columns tbl) ''assets_count'' = Some IntCol"
    "map_of (columns tbl) ''id'' = Some IntCol"
    by (simp_all add: cols UPDATE_HISTORY_table_def)
  have cc: "coerce_cells (columns tbl) fs ls
      = Some [(''update_timestamp'', JStr u), (''last_asset_timestamp'', JStr s), (''assets_count'', JNum (int n))]"
    by (simp add: fs_def ls_def m)
  have rid: "cell r ''id'' = JNum (next_id tbl)"
    and rn: "cell r ''update_timestamp'' = JStr u" "cell r ''last_asset_timestamp'' = JStr s"
    by (simp_all add: r_def checkpoint_row_def cell_def)
  have br: "build_row tbl fs ls = Some r"
    unfolding build_row_def cc Let_def option.case history_row [OF cols]
    by (simp add: fs_def ser nn cell_def r_def checkpoint_row_def)
  have fresh: "JNum (next_id tbl) \<notin> set (map (\<lambda>r. cell r ''id'') (trows tbl))"
  proof
    assume "JNum (next_id tbl) \<in> set (map (\<lambda>r. cell r ''id'') (trows tbl))"
    then obtain r' where "r' \<in> set (trows tbl)" "cell r' ''id'' = JNum (next_id tbl)" by auto
    with ids show False by (auto simp: list_all_iff)
  qed
  have nc: "\<not> conflicts (tbl\<lparr>next_id := next_id tbl + 1\<rparr>) r (trows tbl)"
    using conflicts_keyed [of "tbl\<lparr>next_id := next_id tbl + 1\<rparr>" r "trows tbl"] un rid fresh by simp
  have notin: "''id'' \<notin> set fs" by (simp add: fs_def)
  have it: "insert_tuples tbl fs ''id'' [ls]
          = Some ([JNum (next_id tbl)], tbl\<lparr>next_id := next_id tbl + 1, trows := trows tbl @ [r]\<rparr>)"
    using br ser nc rid notin by simp
  have ex: "exec tbl (Insert ''UPDATE_HISTORY'' fs [ls] ''id'')
          = Some ([[(''id'', JNum (next_id tbl))]], tbl\<lparr>next_id := next_id tbl + 1, trows := trows tbl @ [r]\<rparr>)"
    using it by (simp add: exec_def m) (simp add: fs_def)
  have pq: "pool_query db (Insert ''UPDATE_HISTORY'' fs [ls] ''id'')
          = (Inr [[(''id'', JNum (next_id tbl))]],
             db\<lparr>tables := (tables db)(''UPDATE_HISTORY'' \<mapsto> tbl\<lparr>next_id := next_id tbl + 1, trows := trows tbl @ [r]\<rparr>)\<rparr>)"
    using pool_query_no_fault [OF _ assms(2) ex] assms(1) by simp
  have q: "DatabaseService_query db (Insert ''UPDATE_HISTORY'' fs [ls] ''id'')
          = ([[(''id'', JNum (next_id tbl))]],
             db\<lparr>tables := (tables db)(''UPDATE_HISTORY'' \<mapsto> tbl\<lparr>next_id := next_id tbl + 1, trows := trows tbl @ [r]\<rparr>)\<rparr>)"
    by (simp add: DatabaseService_query_def pq)
  have lsq: "map (map quoteLiteral) [[JStr u, JStr s, JNum (int n)]] = [ls]"
    by (simp add: ls_def)
  show "recordUpdate db (JStr u) (JStr s) (JNum (int n))
       = (Inr (), db\<lparr>tables := (tables db)(''UPDATE_HISTORY'' \<mapsto>
             tbl\<lparr>next_id := next_id tbl + 1, trows := trows tbl @ [checkpoint_row (next_id tbl) u s n]\<rparr>)\<rparr>)"
  proof -
    have fv: "collect (map (fieldValues (FieldNames fs))
        [Obj [(''update_timestamp'', JStr u), (''last_asset_timestamp'', JStr s), (''assets_count'', JNum (int n))]])
        = Inr [[JStr u, JStr s, JNum (int n)]]"
      unfolding fs_def by (rule recordUpdate_fieldValues)
    have ins: "DatabaseService_insert db ''UPDATE_HISTORY'' (FieldNames fs) ''id''
        [Obj [(''update_timestamp'', JStr u), (''last_asset_timestamp'', JStr s), (''assets_count'', JNum (int n))]]
        = (Inr [JNum (next_id tbl)],
           db\<lparr>tables := (tables db)(''UPDATE_HISTORY'' \<mapsto> tbl\<lparr>next_id := next_id tbl + 1, trows := trows tbl @ [r]\<rparr>)\<rparr>)"
      unfolding DatabaseService_insert_def fv
      by (simp add: js_get_def q [unfolded ls_def])
    show ?thesis
      unfolding recordUpdate_def fs_def [symmetric] ins by (simp add: r_def)
  qed
  show "history_ok (tbl\<lparr>next_id := next_id tbl + 1, trows := trows tbl @ [checkpoint_row (next_id tbl) u s n]\<rparr>)"
    using assms(3) rid
    by (auto simp: history_ok_def list_all_iff r_def split: jsval.splits)
qed

lemma insert_tables_exact:
  assumes "tables db t = Some tbl" and "collect (map (fieldValues fns) vals) = Inr newRows"
  shows "tables (snd (DatabaseService_insert db t fns pk vals)) = tables db
       \<or> (\<exists>ks tbl'. insert_tuples tbl (fieldList fns) pk (map (map quoteLiteral) newRows) = Some (ks, tbl')
             \<and> tables (snd (DatabaseService_insert db t fns pk vals)) = (tables db)(t \<mapsto> tbl'))"
proof -
  obtain rows db' where q:
    "DatabaseService_query db (Insert t (fieldList fns) (map (map quoteLiteral) newRows) pk) = (rows, db')"
    by (cases "DatabaseService_query db (Insert t (fieldList fns) (map (map quoteLiteral) newRows) pk)")
  then have s: "snd (DatabaseService_insert db t fns pk vals) = db'"
    by (simp add: DatabaseService_insert_def assms(2))
  from query_Insert [OF assms(1), of "fieldList fns" "map (map quoteLiteral) newRows" pk] q
  show ?thesis unfolding s by simp
qed

lemma recordUpdate_rows:
  assumes "tables db ''UPDATE_HISTORY'' = Some tbl" and "columns tbl = columns UPDATE_HISTORY_table"
  shows "\<exists>tbl'. tables (snd (recordUpdate db u (JStr s) c)) ''UPDATE_HISTORY'' = Some tbl'
           \<and> columns tbl' = columns tbl
           \<and> (trows tbl' = trows tbl
               \<or> (\<exists>r. trows tbl' = trows tbl @ [r] \<and> cell r ''last_asset_timestamp'' = JStr s))"
proof -
  define fs where "fs = [''update_timestamp'', ''last_asset_timestamp'', ''assets_count'']"
  define ob where "ob = [(''update_timestamp'', u), (''last_asset_timestamp'', JStr s), (''assets_count'', c)]"
  have sn: "snd (recordUpdate db u (JStr s) c) = snd (DatabaseService_insert db ''UPDATE_HISTORY'' (FieldNames fs) ''id'' [Obj ob])"
    unfolding recordUpdate_def snd_case_drop fs_def ob_def ..
  have co: "collect (map (fieldValues (FieldNames fs)) [Obj ob]) = Inr [[u, JStr s, c]]"
    unfolding fs_def ob_def by (rule recordUpdate_fieldValues)
  from insert_tables_exact [OF assms(1) co, of "''id''"]
  show ?thesis
  proof
    assume "tables (snd (DatabaseService_insert db ''UPDATE_HISTORY'' (FieldNames fs) ''id'' [Obj ob])) = tables db"
    then show ?thesis using assms(1) sn by simp
  next
    assume "\<exists>ks tbl'. insert_tuples tbl (fieldList (FieldNames fs)) ''id'' (map (map quoteLiteral) [[u, JStr s, c]]) = Some (ks, tbl')
        \<and> tables (snd (DatabaseService_insert db ''UPDATE_HISTORY'' (FieldNames fs) ''id'' [Obj ob])) = (tables db)(''UPDATE_HISTORY'' \<mapsto> tbl')"
    then obtain ks tbl' where
      it: "insert_tuples tbl fs ''id'' [[quoteLiteral u, SqlText s, quoteLiteral c]] = Some (ks, tbl')"
      and tt: "tables (snd (DatabaseService_insert db ''UPDATE_HISTORY'' (FieldNames fs) ''id'' [Obj ob])) = (tables db)(''UPDATE_HISTORY'' \<mapsto> tbl')"
      by auto
    from it obtain r where br: "build_row tbl fs [quoteLiteral u, SqlText s, quoteLiteral c] = Some r"
      by (cases "build_row tbl fs [quoteLiteral u, SqlText s, quoteLiteral c]") auto
    have lat: "cell r ''last_asset_timestamp'' = JStr s"
      using history_build_row [OF assms(2) br [unfolded fs_def]] .
    from it br have "columns tbl' = columns tbl \<and> (trows tbl' = trows tbl \<or> trows tbl' = trows tbl @ [r])"
      by (auto simp: Let_def split: if_splits)
    with lat tt sn show ?thesis by auto
  qed
qed

subsection \<open>One page\<close>

lemma process_page_shape:
  "(\<exists>e db1. keeps_history (store m) db1
        \<and> process_page cfg m assets = (Inl e, m\<lparr>ticks := Suc (ticks m), store := db1\<rparr>))
   \<or> (\<exists>db2. keeps_history (store m) db2 \<and> assets = []
        \<and> process_page cfg m assets = (Inr (), m\<lparr>ticks := Suc (ticks m), store := db2\<rparr>))
   \<or> (\<exists>db2 r db3. keeps_history (store m) db2 \<and> assets \<noteq> []
        \<and> recordUpdate db2 (JStr (clock cfg (ticks m))) (updated_at (hd assets)) (JNum (int (length assets))) = (r, db3)
        \<and> process_page cfg m assets = (r, m\<lparr>ticks := Suc (ticks m), store := db3\<rparr>))"
proof (cases "classify empty_maps (filter (\<lambda>a. status a \<noteq> JStr ''burned'') assets)")
  case (Inl e)
  then have "process_page cfg m assets = (Inl e, m\<lparr>ticks := Suc (ticks m), store := store m\<rparr>)"
    by (simp add: process_page_def page_writes_def)
  then show ?thesis using keeps_history_refl [of "store m"] by blast
next
  case (Inr maps)
  obtain r1 db1 where ru: "Repository_update (store m) (to_candidates maps) = (r1, db1)"
    by (cases "Repository_update (store m) (to_candidates maps)")
  have k1: "keeps_history (store m) db1"
    using kh_Repository_update [of "store m" "to_candidates maps"] ru by simp
  show ?thesis
  proof (cases r1)
    case (Inl e)
    then have "process_page cfg m assets = (Inl e, m\<lparr>ticks := Suc (ticks m), store := db1\<rparr>)"
      by (simp add: process_page_def page_writes_def Inr ru)
    with k1 show ?thesis by blast
  next
    case u1: (Inr u)
    show ?thesis
    proof (cases "burned_ids ([], []) (filter (\<lambda>a. status a = JStr ''burned'') assets)")
      case (Inl e)
      then have "process_page cfg m assets = (Inl e, m\<lparr>ticks := Suc (ticks m), store := db1\<rparr>)"
        by (simp add: process_page_def page_writes_def Inr ru u1)
      with k1 show ?thesis by blast
    next
      case b: (Inr ids)
      obtain burnedPassIds burnedCardIds where ids: "ids = (burnedPassIds, burnedCardIds)" by (cases ids)
      obtain r2 db2 where bu: "burn db1 burnedPassIds burnedCardIds = (r2, db2)"
        by (cases "burn db1 burnedPassIds burnedCardIds")
      have k2: "keeps_history (store m) db2"
        using kh_burn [of db1 burnedPassIds burnedCardIds] bu k1 by (auto intro: keeps_history_trans)
      show ?thesis
      proof (cases r2)
        case (Inl e)
        then have "process_page cfg m assets = (Inl e, m\<lparr>ticks := Suc (ticks m), store := db2\<rparr>)"
          by (simp add: process_page_def page_writes_def Inr ru u1 b ids bu)
        with k2 show ?thesis by blast
      next
        case u2: (Inr u')
        show ?thesis
        proof (cases "assets = []")
          case True
          have fin: "(if length assets > 0 then X else Y) = Y" for X Y :: "(error + unit) \<times> database"
            using True by simp
          have "process_page cfg m assets = (Inr (), m\<lparr>ticks := Suc (ticks m), store := db2\<rparr>)"
            by (simp add: process_page_def page_writes_def Inr ru u1 b ids bu u2 fin del: length_greater_0_conv)
          with k2 True show ?thesis by blast
        next
          case False
          obtain r db3 where rec:
            "recordUpdate db2 (JStr (clock cfg (ticks m))) (updated_at (hd assets)) (JNum (int (length assets))) = (r, db3)"
            by (cases "recordUpdate db2 (JStr (clock cfg (ticks m))) (updated_at (hd assets)) (JNum (int (length assets)))")
          have fin: "(if length assets > 0 then X else Y) = X" for X Y :: "(error + unit) \<times> database"
            using False by simp
          have "process_page cfg m assets = (r, m\<lparr>ticks := Suc (ticks m), store := db3\<rparr>)"
            by (simp add: process_page_def page_writes_def Inr ru u1 b ids bu u2 fin rec del: length_greater_0_conv)
          with k2 False rec show ?thesis by blast
        qed
      qed
    qed
  qed
qed

lemma process_page_history:
  assumes "tables (store m) ''UPDATE_HISTORY'' = Some tbl" and "columns tbl = columns UPDATE_HISTORY_table"
    and "assets \<noteq> [] \<longrightarrow> updated_at (hd assets) = JStr s"
    and "process_page cfg m assets = (res, m1)"
  shows "\<exists>tbl'. tables (store m1) ''UPDATE_HISTORY'' = Some tbl' \<and> columns tbl' = columns tbl
           \<and> (trows tbl' = trows tbl
               \<or> (assets \<noteq> [] \<and> (\<exists>r. trows tbl' = trows tbl @ [r] \<and> cell r ''last_asset_timestamp'' = JStr s)))"
    and "lastCursor m1 = lastCursor m" and "requests m1 = requests m"
proof -
  from process_page_shape [of m cfg assets]
  have "(\<exists>tbl'. tables (store m1) ''UPDATE_HISTORY'' = Some tbl' \<and> columns tbl' = columns tbl
           \<and> (trows tbl' = trows tbl
               \<or> (assets \<noteq> [] \<and> (\<exists>r. trows tbl' = trows tbl @ [r] \<and> cell r ''last_asset_timestamp'' = JStr s))))
        \<and> lastCursor m1 = lastCursor m \<and> requests m1 = requests m"
  proof (elim disjE exE conjE)
    fix e db1 assume k: "keeps_history (store m) db1"
      and p: "process_page cfg m assets = (Inl e, m\<lparr>ticks := Suc (ticks m), store := db1\<rparr>)"
    from p assms(4) have "m1 = m\<lparr>ticks := Suc (ticks m), store := db1\<rparr>" by simp
    with k assms(1) show ?thesis by (auto simp: keeps_history_def)
  next
    fix db2 assume k: "keeps_history (store m) db2"
      and p: "process_page cfg m assets = (Inr (), m\<lparr>ticks := Suc (ticks m), store := db2\<rparr>)"
    from p assms(4) have "m1 = m\<lparr>ticks := Suc (ticks m), store := db2\<rparr>" by simp
    with k assms(1) show ?thesis by (auto simp: keeps_history_def)
  next
    fix db2 r db3 assume k: "keeps_history (store m) db2" and ne: "assets \<noteq> []"
      and rec: "recordUpdate db2 (JStr (clock cfg (ticks m))) (updated_at (hd assets)) (JNum (int (length assets))) = (r, db3)"
      and p: "process_page cfg m assets = (r, m\<lparr>ticks := Suc (ticks m), store := db3\<rparr>)"
    from p assms(4) have m1: "m1 = m\<lparr>ticks := Suc (ticks m), store := db3\<rparr>" by simp
    have t2: "tables db2 ''UPDATE_HISTORY'' = Some tbl" using k assms(1) by (simp add: keeps_history_def)
    from recordUpdate_rows [OF t2 assms(2), of "JStr (clock cfg (ticks m))" s "JNum (int (length assets))"]
      rec ne assms(3)
    show ?thesis by (simp add: m1)
  qed
  then show "\<exists>tbl'. tables (store m1) ''UPDATE_HISTORY'' = Some tbl' \<and> columns tbl' = columns tbl
           \<and> (trows tbl' = trows tbl
               \<or> (assets \<noteq> [] \<and> (\<exists>r. trows tbl' = trows tbl @ [r] \<and> cell r ''last_asset_timestamp'' = JStr s)))"
    and "lastCursor m1 = lastCursor m" and "requests m1 = requests m"
    by blast+
qed

lemma process_page_exact:
  assumes "tables (store m) ''UPDATE_HISTORY'' = Some tbl" and "faults (store m) = []" and "history_ok tbl"
    and "assets \<noteq> []" and "updated_at (hd assets) = JStr s"
    and "process_page cfg m assets = (Inr (), m1)"
  shows "tables (store m1) ''UPDATE_HISTORY'' =
           Some (tbl\<lparr>next_id := next_id tbl + 1,
                     trows := trows tbl @ [checkpoint_row (next_id tbl) (clock cfg (ticks m)) s (length assets)]\<rparr>)"
    and "faults (store m1) = []"
    and "lastCursor m1 = lastCursor m" and "requests m1 = requests m" and "ticks m1 = Suc (ticks m)"
proof -
  from process_page_shape [of m cfg assets] assms(4,6)
  obtain db2 r db3 where k: "keeps_history (store m) db2"
    and rec: "recordUpdate db2 (JStr (clock cfg (ticks m))) (updated_at (hd assets)) (JNum (int (length assets))) = (r, db3)"
    and p: "process_page cfg m assets = (r, m\<lparr>ticks := Suc (ticks m), store := db3\<rparr>)"
    by auto
  from p assms(6) have m1: "m1 = m\<lparr>ticks := Suc (ticks m), store := db3\<rparr>" by simp
  have t2: "tables db2 ''UPDATE_HISTORY'' = Some tbl" and f2: "faults db2 = []"
    using k assms(1,2) by (simp_all add: keeps_history_def)
  from recordUpdate_exact(1) [OF t2 f2 assms(3), of "clock cfg (ticks m)" s "length assets"] rec assms(5)
  have db3: "db3 = db2\<lparr>tables := (tables db2)(''UPDATE_HISTORY'' \<mapsto>
             tbl\<lparr>next_id := next_id tbl + 1,
                 trows := trows tbl @ [checkpoint_row (next_id tbl) (clock cfg (ticks m)) s (length assets)]\<rparr>)\<rparr>"
    by simp
  show "tables (store m1) ''UPDATE_HISTORY'' =
           Some (tbl\<lparr>next_id := next_id tbl + 1,
                     trows := trows tbl @ [checkpoint_row (next_id tbl) (clock cfg (ticks m)) s (length assets)]\<rparr>)"
    by (simp add: m1 db3)
  show "faults (store m1) = []" by (simp add: m1 db3 f2)
  show "lastCursor m1 = lastCursor m" "requests m1 = requests m" "ticks m1 = Suc (ticks m)"
    by (simp_all add: m1)
qed

section \<open>Cycles\<close>

subsection \<open>The checkpoints of a run\<close>

lemma pages_of_append [simp]: "pages_of (xs @ ys) = pages_of xs @ pages_of ys"
  by (induction xs rule: pages_of.induct) auto

lemma getNextAssets_imx:
  "ASSETS_SOURCE cfg = ''imx'' \<Longrightarrow> getNextAssets cfg m feed =
     (case feed of
        [] \<Rightarrow> None
      | Throws e # rest \<Rightarrow> Some (Inl e, m\<lparr>requests := requests m @ [lastCursor m]\<rparr>, rest)
      | Page cursor result # rest \<Rightarrow>
          Some (Inr result, m\<lparr>requests := requests m @ [lastCursor m], lastCursor := cursor\<rparr>, rest))"
  by (simp add: getNextAssets_def getNewAssetsPage_def)

lemma update_loop_stop:
  assumes "\<not> (0 < length assets \<and> n < MAX_ASSETS_PER_UPDATE cfg)"
  shows "update_loop cfg m assets n feed = (Done, m, feed)"
  by (subst update_loop.simps) (simp only: assms if_False)

lemma update_loop_step:
  assumes "0 < length assets \<and> n < MAX_ASSETS_PER_UPDATE cfg"
  shows "update_loop cfg m assets n feed =
        (case process_page cfg m assets of
           (Inl e, m1) \<Rightarrow> (Raised e, m1, feed)
         | (Inr u, m1) \<Rightarrow>
             (case getNextAssets cfg m1 feed of
                None \<Rightarrow> (Pending, m1, feed)
              | Some (Inl e, m2, feed') \<Rightarrow> (Aborted, m2, feed')
              | Some (Inr assets', m2, feed') \<Rightarrow> update_loop cfg m2 assets' (length assets') feed'))"
  by (subst update_loop.simps) (simp only: assms if_True simp_thms)

lemma update_loop_history:
  assumes imx: "ASSETS_SOURCE cfg = ''imx''"
  shows "tables (store m) ''UPDATE_HISTORY'' = Some tbl \<Longrightarrow> columns tbl = columns UPDATE_HISTORY_table \<Longrightarrow>
     \<forall>a\<in>set assets \<union> set (concat (pages_of feed)). \<exists>s. updated_at a = JStr s \<Longrightarrow>
     update_loop cfg m assets n feed = (r, m', feed') \<Longrightarrow>
     \<exists>tbl' new used. feed = used @ feed' \<and> tables (store m') ''UPDATE_HISTORY'' = Some tbl'
        \<and> columns tbl' = columns tbl \<and> trows tbl' = trows tbl @ new
        \<and> subseq (map (\<lambda>r. cell r ''last_asset_timestamp'') new)
                  (map updated_at (assets @ concat (pages_of used)))"
  using imx
proof (induction cfg m assets n feed arbitrary: tbl r m' feed' rule: update_loop.induct)
  case (1 cfg m assets assetsCount feed)
  note imx = "1.prems"(5)
  show ?case
  proof (cases "0 < length assets \<and> assetsCount < MAX_ASSETS_PER_UPDATE cfg")
    case False
    with "1.prems"(4) have "m' = m" "feed' = feed"
      by (simp_all add: update_loop_stop)
    with "1.prems"(1) show ?thesis
      by (intro exI [of _ tbl] exI [of _ "[]"]) simp
  next
    case guard: True
    then have ne: "assets \<noteq> []" by auto
    obtain res m1 where pp: "process_page cfg m assets = (res, m1)" by (cases "process_page cfg m assets")
    from "1.prems"(3) ne obtain s where s: "updated_at (hd assets) = JStr s"
      by (cases assets) auto
    from process_page_history(1) [OF "1.prems"(1,2) _ pp, of s] s obtain tbl1 where
      t1: "tables (store m1) ''UPDATE_HISTORY'' = Some tbl1" "columns tbl1 = columns tbl"
      and rows1: "trows tbl1 = trows tbl \<or> (\<exists>r. trows tbl1 = trows tbl @ [r] \<and> cell r ''last_asset_timestamp'' = JStr s)"
      by auto
    from rows1 obtain new1 where new1: "trows tbl1 = trows tbl @ new1"
      "subseq (map (\<lambda>r. cell r ''last_asset_timestamp'') new1) [updated_at (hd assets)]"
      using s by (elim disjE exE conjE) (force intro: exI [of _ "[]"])+
    have hd1: "subseq [updated_at (hd assets)] (map updated_at assets)"
      using ne by (cases assets) auto
    have sub1: "subseq (map (\<lambda>r. cell r ''last_asset_timestamp'') new1) (map updated_at assets)"
      using new1(2) hd1 by (rule subseq_order.order_trans)
    show ?thesis
    proof (cases res)
      case (Inl e)
      with "1.prems"(4) pp have "m' = m1" "feed' = feed"
        by (simp_all add: update_loop_step [OF guard])
      with t1 new1(1) sub1 show ?thesis
        by (intro exI [of _ tbl1] exI [of _ new1] exI [of _ "[]"]) simp
    next
      case (Inr u)
      show ?thesis
      proof (cases feed)
        case Nil
        with "1.prems"(4) pp Inr imx have "m' = m1" "feed' = feed"
          by (simp_all add: update_loop_step [OF guard] getNextAssets_imx)
        with t1 new1(1) sub1 show ?thesis
          by (intro exI [of _ tbl1] exI [of _ new1] exI [of _ "[]"]) simp
      next
        case (Cons a rest)
        show ?thesis
        proof (cases a)
          case (Throws e)
          with "1.prems"(4) pp Inr imx Cons
          have "m' = m1\<lparr>requests := requests m1 @ [lastCursor m1]\<rparr>" "feed' = rest"
            by (simp_all add: update_loop_step [OF guard] getNextAssets_imx)
          with t1 new1(1) sub1 Cons Throws show ?thesis
            by (intro exI [of _ tbl1] exI [of _ new1] exI [of _ "[a]"]) simp
        next
          case (Page c p)
          define m2 where "m2 = m1\<lparr>requests := requests m1 @ [lastCursor m1], lastCursor := c\<rparr>"
          have gn: "getNextAssets cfg m1 feed = Some (Inr p, m2, rest)"
            using imx Cons Page by (simp add: getNextAssets_imx m2_def)
          with "1.prems"(4) pp Inr
          have rec: "update_loop cfg m2 p (length p) rest = (r, m', feed')"
            by (simp add: update_loop_step [OF guard])
          have t2: "tables (store m2) ''UPDATE_HISTORY'' = Some tbl1" using t1 by (simp add: m2_def)
          have c2: "columns tbl1 = columns UPDATE_HISTORY_table" using t1(2) "1.prems"(2) by simp
          have strs: "\<forall>a\<in>set p \<union> set (concat (pages_of rest)). \<exists>s. updated_at a = JStr s"
            using "1.prems"(3) Cons Page by auto
          from "1.IH" [OF guard pp [symmetric] Inr gn refl refl refl t2 c2 strs rec imx]
          obtain tbl' new used where
            ih: "rest = used @ feed'" "tables (store m') ''UPDATE_HISTORY'' = Some tbl'"
              "columns tbl' = columns tbl1" "trows tbl' = trows tbl1 @ new"
              "subseq (map (\<lambda>r. cell r ''last_asset_timestamp'') new) (map updated_at (p @ concat (pages_of used)))"
            by blast
          have "subseq (map (\<lambda>r. cell r ''last_asset_timestamp'') (new1 @ new))
                  (map updated_at (assets @ concat (pages_of (a # used))))"
            using sub1 ih(5) Page by (simp add: list_emb_append_mono)
          with ih t1(2) new1(1) Cons show ?thesis
            by (intro exI [of _ tbl'] exI [of _ "new1 @ new"] exI [of _ "a # used"]) simp
        qed
      qed
    qed
  qed
qed

lemma update_history:
  assumes "ASSETS_SOURCE cfg = ''imx''"
    and "tables (store m) ''UPDATE_HISTORY'' = Some tbl" and "columns tbl = columns UPDATE_HISTORY_table"
    and "\<forall>a\<in>set (concat (pages_of feed)). \<exists>s. updated_at a = JStr s"
    and "CTAManager_update cfg m feed = (r, m', feed')"
  shows "\<exists>tbl' new used. feed = used @ feed' \<and> tables (store m') ''UPDATE_HISTORY'' = Some tbl'
        \<and> columns tbl' = columns tbl \<and> trows tbl' = trows tbl @ new
        \<and> subseq (map (\<lambda>r. cell r ''last_asset_timestamp'') new)
                  (map updated_at (concat (pages_of used)))"
proof (cases feed)
  case Nil
  with assms(1,5) have "m' = m" "feed' = feed"
    by (simp_all add: CTAManager_update_def getNextAssets_imx)
  with assms(2) show ?thesis
    by (intro exI [of _ tbl] exI [of _ "[]"]) simp
next
  case (Cons a rest)
  show ?thesis
  proof (cases a)
    case (Throws e)
    with assms(1,5) Cons have "m' = m\<lparr>requests := requests m @ [lastCursor m]\<rparr>" "feed' = rest"
      by (simp_all add: CTAManager_update_def getNextAssets_imx)
    with assms(2) Cons show ?thesis
      by (intro exI [of _ tbl] exI [of _ "[]"] exI [of _ "[a]"]) simp
  next
    case (Page c p)
    define m2 where "m2 = m\<lparr>requests := requests m @ [lastCursor m], lastCursor := c\<rparr>"
    from assms(1,5) Cons Page have rec: "update_loop cfg m2 p (length p) rest = (r, m', feed')"
      by (simp add: CTAManager_update_def getNextAssets_imx m2_def)
    have t2: "tables (store m2) ''UPDATE_HISTORY'' = Some tbl" using assms(2) by (simp add: m2_def)
    have strs: "\<forall>a\<in>set p \<union> set (concat (pages_of rest)). \<exists>s. updated_at a = JStr s"
      using assms(4) Cons Page by auto
    from update_loop_history [OF assms(1) t2 assms(3) strs rec]
    obtain tbl' new used where
      ih: "rest = used @ feed'" "tables (store m') ''UPDATE_HISTORY'' = Some tbl'"
        "columns tbl' = columns tbl" "trows tbl' = trows tbl @ new"
        "subseq (map (\<lambda>r. cell r ''last_asset_timestamp'') new) (map updated_at (p @ concat (pages_of used)))"
      by blast
    with Cons Page show ?thesis
      by (intro exI [of _ tbl'] exI [of _ new] exI [of _ "a # used"]) simp
  qed
qed

lemma cycles_history:
  assumes "ASSETS_SOURCE cfg = ''imx''"
  shows "tables (store m) ''UPDATE_HISTORY'' = Some tbl \<Longrightarrow> columns tbl = columns UPDATE_HISTORY_table \<Longrightarrow>
    \<forall>a\<in>set (concat (pages_of feed)). \<exists>s. updated_at a = JStr s \<Longrightarrow>
    cycles cfg m feed k = (m', feed') \<Longrightarrow>
    \<exists>tbl' new used. feed = used @ feed' \<and> tables (store m') ''UPDATE_HISTORY'' = Some tbl'
        \<and> trows tbl' = trows tbl @ new
        \<and> subseq (map (\<lambda>r. cell r ''last_asset_timestamp'') new)
                  (map updated_at (concat (pages_of used)))"
proof (induction k arbitrary: m tbl feed)
  case 0
  then show ?case by (intro exI [of _ tbl] exI [of _ "[]"]) simp
next
  case (Suc k)
  obtain r m1 feed1 where c1: "CTAManager_update cfg m feed = (r, m1, feed1)"
    by (cases "CTAManager_update cfg m feed") auto
  with Suc.prems(4) have rest: "cycles cfg m1 feed1 k = (m', feed')" by simp
  from update_history [OF assms Suc.prems(1,2,3) c1] obtain tbl1 new1 used1 where
    a: "feed = used1 @ feed1" "tables (store m1) ''UPDATE_HISTORY'' = Some tbl1"
      "columns tbl1 = columns tbl" "trows tbl1 = trows tbl @ new1"
      "subseq (map (\<lambda>r. cell r ''last_asset_timestamp'') new1) (map updated_at (concat (pages_of used1)))"
    by blast
  have c: "columns tbl1 = columns UPDATE_HISTORY_table" using a(3) Suc.prems(2) by simp
  have strs: "\<forall>a\<in>set (concat (pages_of feed1)). \<exists>s. updated_at a = JStr s"
    using Suc.prems(3) a(1) by auto
  from Suc.IH [OF a(2) c strs rest] obtain tbl' new used where
    b: "feed1 = used @ feed'" "tables (store m') ''UPDATE_HISTORY'' = Some tbl'"
      "trows tbl' = trows tbl1 @ new"
      "subseq (map (\<lambda>r. cell r ''last_asset_timestamp'') new) (map updated_at (concat (pages_of used)))"
    by blast
  have "subseq (map (\<lambda>r. cell r ''last_asset_timestamp'') (new1 @ new))
          (map updated_at (concat (pages_of (used1 @ used))))"
    using a(5) b(4) by (simp add: list_emb_append_mono)
  with a b show ?case
    by (intro exI [of _ tbl'] exI [of _ "new1 @ new"] exI [of _ "used1 @ used"]) simp
qed

lemma sorted_wrt_subseq: "subseq xs ys \<Longrightarrow> sorted_wrt P ys \<Longrightarrow> sorted_wrt P xs"
proof (induction rule: list_emb.induct)
  case (list_emb_Cons xs ys y)
  then show ?case by simp
next
  case (list_emb_Cons2 x y xs ys)
  then have "set xs \<subseteq> set ys" by (auto dest: list_emb_set)
  with list_emb_Cons2 show ?case by auto
qed simp

text \<open>
  Claim C8, for the runs whose cycles do not overlap. Let a manager whose store has the
  checkpoint table run any number of cycles against the upstream feed, each cycle
  started after the one before has returned. If the records of the pages that the feed
  serves, taken in the order of the answers, carry text timestamps in ascending order,
  then the cycles only append to the checkpoint table, and the upstream timestamps of
  the appended rows are in ascending order too. Failing statements, failing fetches and
  cycles that end with an exception do not matter. (Without the condition on the
  cycles the claim fails, see the calls that overlap below.)
\<close>

theorem checkpoints_ascend:
  assumes "ASSETS_SOURCE cfg = ''imx''"
    and "tables (store m) ''UPDATE_HISTORY'' = Some tbl" and "columns tbl = columns UPDATE_HISTORY_table"
    and "\<forall>a\<in>set (concat (pages_of feed)). \<exists>s. updated_at a = JStr s"
    and "sorted_wrt ts_le (map updated_at (concat (pages_of feed)))"
    and "cycles cfg m feed k = (m', feed')"
  shows "\<exists>tbl' new. tables (store m') ''UPDATE_HISTORY'' = Some tbl' \<and> trows tbl' = trows tbl @ new
        \<and> sorted_wrt ts_le (map (\<lambda>r. cell r ''last_asset_timestamp'') new)"
proof -
  from cycles_history [OF assms(1,2,3,4,6)] obtain tbl' new used where
    a: "feed = used @ feed'" "tables (store m') ''UPDATE_HISTORY'' = Some tbl'" "trows tbl' = trows tbl @ new"
      "subseq (map (\<lambda>r. cell r ''last_asset_timestamp'') new) (map updated_at (concat (pages_of used)))"
    by blast
  from assms(5) a(1) have "sorted_wrt ts_le (map updated_at (concat (pages_of used)))"
    by (simp add: sorted_wrt_append)
  from sorted_wrt_subseq [OF a(4) this] a(2,3) show ?thesis by blast
qed

text \<open>
  On the sample feed, run for two cycles: the first cycle aborts at the failing call, the
  second one goes on to the empty page.
\<close>

theorem checkpoints_ascend_witness:
  "sorted_wrt ts_le (map updated_at (concat (pages_of sample_feed)))
   \<and> (\<exists>tbl' new. tables (store (fst (cycles (sample_config 2000) new_manager sample_feed 2))) ''UPDATE_HISTORY'' = Some tbl'
         \<and> trows tbl' = trows UPDATE_HISTORY_table @ new
         \<and> sorted_wrt ts_le (map (\<lambda>r. cell r ''last_asset_timestamp'') new))"
proof -
  have 1: "ASSETS_SOURCE (sample_config 2000) = ''imx''" by (simp add: sample_config_def)
  have 2: "tables (store new_manager) ''UPDATE_HISTORY'' = Some UPDATE_HISTORY_table"
    by (simp add: new_manager_def createSchema_def create_table_def empty_store_def)
  have 3: "\<forall>a\<in>set (concat (pages_of sample_feed)). \<exists>s. updated_at a = JStr s"
    by (simp add: sample_feed_def sample_card_def)
  have 4: "sorted_wrt ts_le (map updated_at (concat (pages_of sample_feed)))"
    by code_simp
  from checkpoints_ascend [OF 1 2 refl 3 4 surjective_pairing] 4 show ?thesis by simp
qed

subsection \<open>A failing call of the feed\<close>

lemma process_page_fields:
  assumes "process_page cfg m assets = (r, m1)"
  shows "lastCursor m1 = lastCursor m" and "requests m1 = requests m" and "ticks m1 = Suc (ticks m)"
    and "assetsFileAlreadyRead m1 = assetsFileAlreadyRead m"
proof -
  from process_page_shape [of m cfg assets] assms
  obtain db where "m1 = m\<lparr>ticks := Suc (ticks m), store := db\<rparr>" by auto
  then show "lastCursor m1 = lastCursor m" "requests m1 = requests m" "ticks m1 = Suc (ticks m)"
    "assetsFileAlreadyRead m1 = assetsFileAlreadyRead m"
    by simp_all
qed

lemma update_loop_continue:
  assumes "assets \<noteq> []" and "length assets < MAX_ASSETS_PER_UPDATE cfg"
    and "process_page cfg m assets = (Inr (), m1)"
  shows "update_loop cfg m assets (length assets) feed = CTAManager_update cfg m1 feed"
proof -
  have "0 < length assets \<and> length assets < MAX_ASSETS_PER_UPDATE cfg" using assms(1,2) by simp
  from update_loop_step [OF this] assms(3) show ?thesis
    by (simp add: CTAManager_update_def)
qed

lemma update_after_pages:
  assumes imx: "ASSETS_SOURCE cfg = ''imx''"
  shows "\<forall>(c, p)\<in>set cps. p \<noteq> [] \<and> length p < MAX_ASSETS_PER_UPDATE cfg \<Longrightarrow>
     after_pages cfg m cps = (Inr (), mk) \<Longrightarrow>
     CTAManager_update cfg m (map (\<lambda>(c, p). Page c p) cps @ feed) = CTAManager_update cfg mk feed"
proof (induction cps arbitrary: m)
  case Nil
  then show ?case by simp
next
  case (Cons cp cps)
  obtain c p where cp: "cp = (c, p)" by (cases cp)
  define m2 where "m2 = m\<lparr>requests := requests m @ [lastCursor m], lastCursor := c\<rparr>"
  obtain r m1 where pp: "process_page cfg m2 p = (r, m1)" by (cases "process_page cfg m2 p")
  from Cons.prems(2) cp pp have r: "r = Inr ()" and rest: "after_pages cfg m1 cps = (Inr (), mk)"
    by (auto simp: m2_def split: sum.splits)
  from Cons.prems(1) cp have ok: "p \<noteq> []" "length p < MAX_ASSETS_PER_UPDATE cfg"
    and oks: "\<forall>(c, p)\<in>set cps. p \<noteq> [] \<and> length p < MAX_ASSETS_PER_UPDATE cfg"
    by auto
  have "CTAManager_update cfg m (map (\<lambda>(c, p). Page c p) (cp # cps) @ feed)
      = update_loop cfg m2 p (length p) (map (\<lambda>(c, p). Page c p) cps @ feed)"
    by (simp add: CTAManager_update_def getNextAssets_imx [OF imx] cp m2_def)
  also have "\<dots> = CTAManager_update cfg m1 (map (\<lambda>(c, p). Page c p) cps @ feed)"
    using update_loop_continue [OF ok] pp r by simp
  also have "\<dots> = CTAManager_update cfg mk feed" by (rule Cons.IH [OF oks rest])
  finally show ?case .
qed

lemma after_pages_fields:
  "after_pages cfg m cps = (Inr (), mk) \<Longrightarrow>
   lastCursor mk = last (lastCursor m # map fst cps)
   \<and> requests mk = requests m @ butlast (lastCursor m # map fst cps)
   \<and> ticks mk = ticks m + length cps"
proof (induction cps arbitrary: m)
  case Nil
  then show ?case by simp
next
  case (Cons cp cps)
  obtain c p where cp: "cp = (c, p)" by (cases cp)
  define m2 where "m2 = m\<lparr>requests := requests m @ [lastCursor m], lastCursor := c\<rparr>"
  obtain r m1 where pp: "process_page cfg m2 p = (r, m1)" by (cases "process_page cfg m2 p")
  from Cons.prems cp pp have rest: "after_pages cfg m1 cps = (Inr (), mk)"
    by (auto simp: m2_def split: sum.splits)
  from process_page_fields [OF pp]
  have f: "lastCursor m1 = c" "requests m1 = requests m @ [lastCursor m]" "ticks m1 = Suc (ticks m)"
    by (simp_all add: m2_def)
  from Cons.IH [OF rest] f cp show ?case by simp
qed

lemma after_pages_history:
  "tables (store m) ''UPDATE_HISTORY'' = Some tbl \<Longrightarrow> faults (store m) = [] \<Longrightarrow> history_ok tbl \<Longrightarrow>
   \<forall>(c, p)\<in>set cps. p \<noteq> [] \<and> (\<exists>s. updated_at (hd p) = JStr s) \<Longrightarrow>
   after_pages cfg m cps = (Inr (), mk) \<Longrightarrow>
   \<exists>tbl'. tables (store mk) ''UPDATE_HISTORY'' = Some tbl'
      \<and> trows tbl' = trows tbl @ checkpoints cfg (ticks m) (next_id tbl) (map snd cps)"
proof (induction cps arbitrary: m tbl)
  case Nil
  then show ?case by simp
next
  case (Cons cp cps)
  obtain c p where cp: "cp = (c, p)" by (cases cp)
  define m2 where "m2 = m\<lparr>requests := requests m @ [lastCursor m], lastCursor := c\<rparr>"
  obtain r m1 where pp0: "process_page cfg m2 p = (r, m1)" by (cases "process_page cfg m2 p")
  from Cons.prems(5) cp pp0 have pp: "process_page cfg m2 p = (Inr (), m1)"
    and rest: "after_pages cfg m1 cps = (Inr (), mk)"
    by (auto simp: m2_def split: sum.splits)
  from Cons.prems(4) cp obtain s where ne: "p \<noteq> []" and s: "updated_at (hd p) = JStr s"
    and oks: "\<forall>(c, p)\<in>set cps. p \<noteq> [] \<and> (\<exists>s. updated_at (hd p) = JStr s)"
    by auto
  define tbl1 where "tbl1 = tbl\<lparr>next_id := next_id tbl + 1,
     trows := trows tbl @ [checkpoint_row (next_id tbl) (clock cfg (ticks m)) s (length p)]\<rparr>"
  have t2: "tables (store m2) ''UPDATE_HISTORY'' = Some tbl" and f2: "faults (store m2) = []"
    using Cons.prems(1,2) by (simp_all add: m2_def)
  from process_page_exact [OF t2 f2 Cons.prems(3) ne s pp]
  have t1: "tables (store m1) ''UPDATE_HISTORY'' = Some tbl1" and f1: "faults (store m1) = []"
    and k1: "ticks m1 = Suc (ticks m)"
    by (simp_all add: tbl1_def m2_def)
  have h1: "history_ok tbl1"
    unfolding tbl1_def using Cons.prems(1,2,3) by (rule recordUpdate_exact(2))
  from Cons.IH [OF t1 f1 h1 oks rest] obtain tbl' where
    "tables (store mk) ''UPDATE_HISTORY'' = Some tbl'"
    "trows tbl' = trows tbl1 @ checkpoints cfg (ticks m1) (next_id tbl1) (map snd cps)"
    by blast
  then show ?case by (simp add: tbl1_def k1 cp s)
qed

lemma getNextAssets_requests:
  "getNextAssets cfg m feed = Some (x, m2, feed') \<Longrightarrow> \<exists>more. requests m2 = requests m @ more"
  by (auto simp: getNextAssets_def getNewAssetsPage_def split: if_splits list.splits answer.splits)

lemma update_loop_requests:
  "update_loop cfg m assets n feed = (r, m', feed') \<Longrightarrow> \<exists>more. requests m' = requests m @ more"
proof (induction cfg m assets n feed arbitrary: r m' feed' rule: update_loop.induct)
  case (1 cfg m assets assetsCount feed)
  show ?case
  proof (cases "0 < length assets \<and> assetsCount < MAX_ASSETS_PER_UPDATE cfg")
    case False
    from update_loop_stop [OF False] "1.prems" show ?thesis by simp
  next
    case guard: True
    obtain res m1 where pp: "process_page cfg m assets = (res, m1)" by (cases "process_page cfg m assets")
    note q1 = process_page_fields(2) [OF pp]
    note step = update_loop_step [OF guard, of m feed]
    show ?thesis
    proof (cases res)
      case (Inl e)
      with step pp "1.prems" q1 show ?thesis by simp
    next
      case (Inr u)
      show ?thesis
      proof (cases "getNextAssets cfg m1 feed")
        case None
        with step pp Inr "1.prems" q1 show ?thesis by simp
      next
        case (Some t)
        obtain x m2 f2 where t: "t = (x, m2, f2)" by (cases t)
        from getNextAssets_requests [of cfg m1 feed x m2 f2] Some t q1
        obtain more where q2: "requests m2 = requests m @ more" by auto
        show ?thesis
        proof (cases x)
          case (Inl e)
          with step pp Inr Some t "1.prems" q2 show ?thesis by simp
        next
          case assets': (Inr assets')
          from step pp Inr Some t assets' "1.prems"
          have rec: "update_loop cfg m2 assets' (length assets') f2 = (r, m', feed')" by simp
          have gn: "getNextAssets cfg m1 feed = Some (Inr assets', m2, f2)" using Some t assets' by simp
          from "1.IH" [OF guard pp [symmetric] Inr gn refl refl refl rec]
          obtain more' where "requests m' = requests m2 @ more'" by blast
          with q2 show ?thesis by simp
        qed
      qed
    qed
  qed
qed

lemma update_first_request:
  assumes "ASSETS_SOURCE cfg = ''imx''" and "CTAManager_update cfg m (a # feed) = (r, m', feed')"
  shows "\<exists>more. requests m' = requests m @ lastCursor m # more"
proof (cases a)
  case (Throws e)
  with assms show ?thesis by (auto simp: CTAManager_update_def getNextAssets_imx)
next
  case (Page c p)
  with assms have "update_loop cfg (m\<lparr>requests := requests m @ [lastCursor m], lastCursor := c\<rparr>) p (length p) feed
      = (r, m', feed')"
    by (simp add: CTAManager_update_def getNextAssets_imx)
  from update_loop_requests [OF this] show ?thesis by auto
qed

text \<open>
  Claim C3. Let the feed serve the pages \<open>cps\<close>, each non-empty and shorter than the
  ceiling, then throw, and let the writes of these pages raise no exception. The cycle
  ends with ABORTED, not with an exception; the manager is the one after exactly the
  pages \<open>cps\<close> (no write for the page that was not fetched), but for the request it has
  sent; the retained cursor is the one of the last page served (the initial one if the
  first call throws), and it is the cursor of the failed request. If moreover no
  statement fails and the timestamps are texts, the checkpoint table gains exactly one
  row for each page of \<open>cps\<close>. The first request of the next cycle carries the retained
  cursor again.
\<close>

theorem fetch_failure_aborts:
  assumes "ASSETS_SOURCE cfg = ''imx''"
    and "\<forall>(c, p)\<in>set cps. p \<noteq> [] \<and> length p < MAX_ASSETS_PER_UPDATE cfg"
    and "after_pages cfg m cps = (Inr (), mk)"
    and "CTAManager_update cfg m (map (\<lambda>(c, p). Page c p) cps @ Throws e # a # rest) = (r, m1, feed1)"
    and "CTAManager_update cfg m1 feed1 = (r2, m2, feed2)"
  shows "r = Aborted \<and> feed1 = a # rest
     \<and> m1 = mk\<lparr>requests := requests m @ lastCursor m # map fst cps\<rparr>
     \<and> lastCursor m1 = last (lastCursor m # map fst cps)
     \<and> (\<forall>tbl. tables (store m) ''UPDATE_HISTORY'' = Some tbl \<and> history_ok tbl \<and> faults (store m) = []
              \<and> (\<forall>(c, p)\<in>set cps. \<exists>s. updated_at (hd p) = JStr s) \<longrightarrow>
          (\<exists>tbl'. tables (store m1) ''UPDATE_HISTORY'' = Some tbl'
             \<and> trows tbl' = trows tbl @ checkpoints cfg (ticks m) (next_id tbl) (map snd cps)))
     \<and> (\<exists>more. requests m2 = requests m1 @ last (lastCursor m # map fst cps) # more)"
proof -
  note f0 = after_pages_fields [OF assms(3)]
  have "requests mk @ [lastCursor mk]
      = requests m @ (butlast (lastCursor m # map fst cps) @ [last (lastCursor m # map fst cps)])"
    using f0 by (simp del: last.simps butlast.simps)
  then have f: "requests mk @ [lastCursor mk] = requests m @ lastCursor m # map fst cps"
    by (simp only: append_butlast_last_id [OF list.distinct(2)])
  have "CTAManager_update cfg m (map (\<lambda>(c, p). Page c p) cps @ Throws e # a # rest)
      = CTAManager_update cfg mk (Throws e # a # rest)"
    by (rule update_after_pages [OF assms(1,2,3)])
  also have "\<dots> = (Aborted, mk\<lparr>requests := requests mk @ [lastCursor mk]\<rparr>, a # rest)"
    by (simp add: CTAManager_update_def getNextAssets_imx [OF assms(1)])
  finally have res: "r = Aborted" "feed1 = a # rest"
    and m1: "m1 = mk\<lparr>requests := requests m @ lastCursor m # map fst cps\<rparr>"
    using assms(4) f by simp_all
  have cur: "lastCursor m1 = last (lastCursor m # map fst cps)" using m1 f0 by simp
  have hist: "\<exists>tbl'. tables (store m1) ''UPDATE_HISTORY'' = Some tbl'
             \<and> trows tbl' = trows tbl @ checkpoints cfg (ticks m) (next_id tbl) (map snd cps)"
    if "tables (store m) ''UPDATE_HISTORY'' = Some tbl" "history_ok tbl" "faults (store m) = []"
      "\<forall>(c, p)\<in>set cps. \<exists>s. updated_at (hd p) = JStr s" for tbl
  proof -
    have "\<forall>(c, p)\<in>set cps. p \<noteq> [] \<and> (\<exists>s. updated_at (hd p) = JStr s)"
      using assms(2) that(4) by auto
    from after_pages_history [OF that(1,3,2) this assms(3)] show ?thesis by (simp add: m1)
  qed
  from update_first_request [OF assms(1)] assms(5) res(2)
  obtain more where "requests m2 = requests m1 @ lastCursor m1 # more" by blast
  with cur have nxt: "\<exists>more. requests m2 = requests m1 @ last (lastCursor m # map fst cps) # more" by simp
  from res m1 cur hist nxt show ?thesis by blast
qed

text \<open>
  On the sample feed: the first cycle writes the page of two cards and its checkpoint,
  aborts with the cursor \<^verbatim>\<open>c1\<close>, and the second cycle starts with \<^verbatim>\<open>c1\<close> again.
\<close>

theorem fetch_failure_aborts_witness:
  "\<exists>m1 m2 feed2.
     CTAManager_update (sample_config 2000) new_manager sample_feed = (Aborted, m1, drop 2 sample_feed)
     \<and> lastCursor m1 = JStr ''c1''
     \<and> rows_of m1 ''UPDATE_HISTORY'' = [checkpoint_row 1 ''T0'' ''2022-05-01'' 2]
     \<and> CTAManager_update (sample_config 2000) m1 (drop 2 sample_feed) = (Done, m2, feed2)
     \<and> take 3 (requests m2) = [JUndefined, JStr ''c1'', JStr ''c1'']"
proof -
  define cfg where "cfg = sample_config 2000"
  define cps where "cps = [(JStr ''c1'', [sample_card ''1'' ''0xA'' ''2022-05-01'', sample_card ''2'' ''0xB'' ''2022-05-02''])]"
  define a where "a = Page (JStr ''c2'') [sample_card ''3'' ''0xA'' ''2022-05-03'']"
  define rest where "rest = [Page (JStr ''c3'') []]"
  define X where "X = CTAManager_update cfg new_manager sample_feed"
  define Y where "Y = CTAManager_update cfg (fst (snd X)) (snd (snd X))"
  have feed: "sample_feed = map (\<lambda>(c, p). Page c p) cps @ Throws FetchError # a # rest"
    by (simp add: sample_feed_def cps_def a_def rest_def)
  have 1: "ASSETS_SOURCE cfg = ''imx''" by (simp add: cfg_def sample_config_def)
  have 2: "\<forall>(c, p)\<in>set cps. p \<noteq> [] \<and> length p < MAX_ASSETS_PER_UPDATE cfg"
    by (simp add: cps_def cfg_def sample_config_def)
  have "fst (after_pages (sample_config 2000) new_manager
           [(JStr ''c1'', [sample_card ''1'' ''0xA'' ''2022-05-01'', sample_card ''2'' ''0xB'' ''2022-05-02''])]) = Inr ()"
    by code_simp
  then have 3: "after_pages cfg new_manager cps = (Inr (), snd (after_pages cfg new_manager cps))"
    by (simp add: cfg_def cps_def prod_eq_iff)
  have 4: "CTAManager_update cfg new_manager (map (\<lambda>(c, p). Page c p) cps @ Throws FetchError # a # rest)
      = (fst X, fst (snd X), snd (snd X))"
    by (simp add: X_def feed)
  have 5: "CTAManager_update cfg (fst (snd X)) (snd (snd X)) = (fst Y, fst (snd Y), snd (snd Y))"
    by (simp add: Y_def)
  note t = fetch_failure_aborts [OF 1 2 3 4 5]
  have tb: "tables (store new_manager) ''UPDATE_HISTORY'' = Some UPDATE_HISTORY_table"
    by (simp add: new_manager_def createSchema_def create_table_def empty_store_def)
  have ho: "history_ok UPDATE_HISTORY_table" by (simp add: history_ok_def UPDATE_HISTORY_table_def)
  have fl: "faults (store new_manager) = []"
    by (simp add: new_manager_def createSchema_def create_table_def empty_store_def)
  have ts: "\<forall>(c, p)\<in>set cps. \<exists>s. updated_at (hd p) = JStr s" by (simp add: cps_def sample_card_def)
  from t tb ho fl ts obtain tbl' where
    h: "tables (store (fst (snd X))) ''UPDATE_HISTORY'' = Some tbl'"
       "trows tbl' = trows UPDATE_HISTORY_table @ checkpoints cfg (ticks new_manager) (next_id UPDATE_HISTORY_table) (map snd cps)"
    by blast
  have rows: "rows_of (fst (snd X)) ''UPDATE_HISTORY'' = [checkpoint_row 1 ''T0'' ''2022-05-01'' 2]"
    using h by (simp add: rows_of_def UPDATE_HISTORY_table_def cps_def cfg_def sample_config_def
        new_manager_def sample_card_def dec_nat.simps [of 0] digit_char_def numeral_2_eq_2)
  have fY: "fst Y = Done" unfolding Y_def X_def cfg_def sample_feed_def by code_simp
  from t obtain more where
    rq: "requests (fst (snd Y)) = requests (fst (snd X)) @ last (lastCursor new_manager # map fst cps) # more"
    by blast
  have d2: "drop 2 sample_feed = a # rest"
    by (simp add: sample_feed_def a_def rest_def)
  from t have t1: "fst X = Aborted" and t2: "snd (snd X) = a # rest"
    and t4: "lastCursor (fst (snd X)) = last (lastCursor new_manager # map fst cps)"
    and t3: "fst (snd X) = (snd (after_pages cfg new_manager cps))\<lparr>requests :=
               requests new_manager @ lastCursor new_manager # map fst cps\<rparr>"
    by blast+
  have x: "X = (Aborted, fst (snd X), drop 2 sample_feed)"
    using t1 t2 unfolding d2 by (simp add: prod_eq_iff)
  have cur: "lastCursor (fst (snd X)) = JStr ''c1''" using t4 by (simp add: cps_def)
  have "requests (fst (snd X)) = [JUndefined, JStr ''c1'']"
    by (subst t3) (simp add: cps_def new_manager_def)
  with rq have rqs: "take 3 (requests (fst (snd Y))) = [JUndefined, JStr ''c1'', JStr ''c1'']"
    by (simp add: cps_def)
  have y: "CTAManager_update (sample_config 2000) (fst (snd X)) (drop 2 sample_feed) = (Done, fst (snd Y), snd (snd Y))"
    using fY x by (simp add: Y_def prod_eq_iff cfg_def)
  from x cur rows y rqs show ?thesis unfolding X_def cfg_def by blast
qed

subsection \<open>Calls that overlap\<close>

text \<open>
  The steps of a single call, taken one after the other with no other call in between,
  are the cycle \<^verbatim>\<open>update\<close> of the sections above: they end in the same manager, with the
  same feed left and the same outcome.
\<close>

lemma run_append: "run cfg st (es @ fs) = run cfg (run cfg st es) fs"
  by (simp add: run_def)

lemma run_Cons: "run cfg st (e # es) = run cfg (occur cfg st e) es"
  by (simp add: run_def)

lemma run_Nil: "run cfg st [] = st"
  by (simp add: run_def)

lemma occur_single: "occur cfg (m, feed, [c]) (Step 0) = (case step_call cfg m feed c of (m', feed', c') \<Rightarrow> (m', feed', [c']))"
  by simp

lemma process_page_writes:
  "process_page cfg m assets =
     (case page_writes (clock cfg (ticks m)) (store m) assets of
        (r, db) \<Rightarrow> (r, m\<lparr>ticks := Suc (ticks m), store := db\<rparr>))"
  by (simp add: process_page_def)

lemma loop_run:
  "update_loop cfg m assets n feed = (r, m', feed') \<Longrightarrow> n = length assets \<Longrightarrow>
   \<exists>k. run cfg (fst (fetched cfg m assets), feed, [snd (fetched cfg m assets)]) (replicate k (Step 0))
          = (m', feed', [final r])"
proof (induction cfg m assets n feed arbitrary: r m' feed' rule: update_loop.induct)
  case (1 cfg m assets assetsCount feed)
  show ?case
  proof (cases "0 < length assets \<and> assetsCount < MAX_ASSETS_PER_UPDATE cfg")
    case False
    from update_loop_stop [OF False] "1.prems" have "r = Done" "m' = m" "feed' = feed" by simp_all
    moreover have "fetched cfg m assets = (m, Ended Done)" using False "1.prems"(2) by (simp add: fetched_def)
    ultimately show ?thesis
      by (intro exI [of _ 0]) (simp add: run_Nil final_def)
  next
    case guard: True
    then have f: "fetched cfg m assets = (m\<lparr>ticks := Suc (ticks m)\<rparr>, Holding assets (clock cfg (ticks m)))"
      using "1.prems"(2) by (simp add: fetched_def)
    obtain res db where pw: "page_writes (clock cfg (ticks m)) (store m) assets = (res, db)"
      by (cases "page_writes (clock cfg (ticks m)) (store m) assets")
    define m1 where "m1 = m\<lparr>ticks := Suc (ticks m), store := db\<rparr>"
    have pp: "process_page cfg m assets = (res, m1)"
      by (simp add: process_page_writes pw m1_def)
    note step = update_loop_step [OF guard, of m feed]
    show ?thesis
    proof (cases res)
      case (Inl e)
      with step pp "1.prems" have "r = Raised e" "m' = m1" "feed' = feed" by simp_all
      then show ?thesis
        by (intro exI [of _ 1]) (simp add: f run_Cons run_Nil step_call_def pw Inl m1_def final_def)
    next
      case (Inr u)
      have s1: "occur cfg (m\<lparr>ticks := Suc (ticks m)\<rparr>, feed, [Holding assets (clock cfg (ticks m))]) (Step 0)
          = (m1, feed, [Ready])"
        by (simp add: step_call_def pw Inr m1_def)
      show ?thesis
      proof (cases "getNextAssets cfg m1 feed")
        case None
        with step pp Inr "1.prems" have "r = Pending" "m' = m1" "feed' = feed" by simp_all
        then show ?thesis
          by (intro exI [of _ 1]) (simp add: f run_Cons run_Nil s1 final_def del: occur.simps)
      next
        case (Some t)
        obtain x m2 f2 where t: "t = (x, m2, f2)" by (cases t)
        show ?thesis
        proof (cases x)
          case (Inl e)
          with step pp Inr Some t "1.prems" have "r = Aborted" "m' = m2" "feed' = f2" by simp_all
          moreover have "occur cfg (m1, feed, [Ready]) (Step 0) = (m2, f2, [Ended Aborted])"
            using Some t Inl by (simp add: step_call_def)
          ultimately show ?thesis
            by (intro exI [of _ 2]) (simp add: f numeral_2_eq_2 run_Cons run_Nil s1 final_def del: occur.simps)
        next
          case assets': (Inr assets')
          from step pp Inr Some t assets' "1.prems"
          have rec: "update_loop cfg m2 assets' (length assets') f2 = (r, m', feed')" by simp
          have gn: "getNextAssets cfg m1 feed = Some (Inr assets', m2, f2)" using Some t assets' by simp
          from "1.IH" [OF guard pp [symmetric] Inr gn refl refl refl rec refl]
          obtain k where k: "run cfg (fst (fetched cfg m2 assets'), f2, [snd (fetched cfg m2 assets')]) (replicate k (Step 0))
               = (m', feed', [final r])"
            by blast
          have s2: "occur cfg (m1, feed, [Ready]) (Step 0)
              = (fst (fetched cfg m2 assets'), f2, [snd (fetched cfg m2 assets')])"
            using gn by (simp add: step_call_def fetched_def)
          show ?thesis
            by (intro exI [of _ "Suc (Suc k)"]) (simp add: f run_Cons s1 s2 k del: occur.simps)
        qed
      qed
    qed
  qed
qed

lemma update_run:
  assumes "CTAManager_update cfg m feed = (r, m', feed')"
  shows "\<exists>k. run cfg (m, feed, [Ready]) (replicate k (Step 0)) = (m', feed', [final r])"
proof (cases "getNextAssets cfg m feed")
  case None
  with assms have "r = Pending" "m' = m" "feed' = feed" by (simp_all add: CTAManager_update_def)
  then show ?thesis by (intro exI [of _ 0]) (simp add: run_Nil final_def)
next
  case (Some t)
  obtain x m1 f1 where t: "t = (x, m1, f1)" by (cases t)
  show ?thesis
  proof (cases x)
    case (Inl e)
    with assms Some t have "r = Aborted" "m' = m1" "feed' = f1" by (simp_all add: CTAManager_update_def)
    then show ?thesis
      by (intro exI [of _ 1]) (simp add: run_Cons run_Nil step_call_def Some t Inl final_def)
  next
    case (Inr assets)
    with assms Some t have "update_loop cfg m1 assets (length assets) f1 = (r, m', feed')"
      by (simp add: CTAManager_update_def)
    from loop_run [OF this refl] obtain k where
      k: "run cfg (fst (fetched cfg m1 assets), f1, [snd (fetched cfg m1 assets)]) (replicate k (Step 0))
               = (m', feed', [final r])"
      by blast
    have "occur cfg (m, feed, [Ready]) (Step 0) = (fst (fetched cfg m1 assets), f1, [snd (fetched cfg m1 assets)])"
      using Some t Inr by (simp add: step_call_def fetched_def)
    then show ?thesis
      by (intro exI [of _ "Suc k"]) (simp add: run_Cons k del: occur.simps)
  qed
qed

text \<open>
  Claim C8 as stated fails when two calls overlap. The feed serves two pages in
  ascending order. The first call holds the first page when the timer fires again; the
  second call asks with the cursor the first one has stored, gets the second page and
  writes it with its checkpoint; then the first call writes the first page. The
  checkpoint of the second page is stored before the checkpoint of the first one: the
  upstream timestamps of the two rows go down.
\<close>

theorem checkpoints_overlap_unordered:
  "(let (m, rest, calls) = run (sample_config 2000) (new_manager, overlap_feed, [])
          [Fire, Step 0, Fire, Step 1, Step 1, Step 0, Step 0, Step 1]
    in (sorted_wrt ts_le (map updated_at (concat (pages_of overlap_feed))),
        map (\<lambda>r. cell r ''last_asset_timestamp'') (rows_of m ''UPDATE_HISTORY''),
        sorted_wrt ts_le (map (\<lambda>r. cell r ''last_asset_timestamp'') (rows_of m ''UPDATE_HISTORY'')),
        requests m, calls, rest))
   = (True, [JStr ''2022-05-02'', JStr ''2022-05-01''], False,
      [JUndefined, JStr ''c1'', JStr ''c2'', JStr ''c3''], [Ended Done, Ended Done], [])"
  by code_simp

section \<open>The synchronisation cycle on small feeds\<close>

text \<open>
  Claim C2 fails: \<^verbatim>\<open>assetsCount\<close> is assigned the length of the page just fetched, it is
  not a running total, so the ceiling never stops a feed whose pages are shorter than
  the ceiling. With a ceiling of 2 and pages of one record, the cycle writes three pages
  (three checkpoints, three cards) where the claim allows two, and goes on to the
  empty page.
\<close>

theorem update_exceeds_budget:
  "(let (r, m, rest) = CTAManager_update (sample_config 2) new_manager
          [Page (JStr ''c1'') [sample_card ''1'' ''0xA'' ''t1''],
           Page (JStr ''c2'') [sample_card ''2'' ''0xB'' ''t2''],
           Page (JStr ''c3'') [sample_card ''3'' ''0xC'' ''t3''],
           Page (JStr ''c4'') []]
    in (r, map (\<lambda>r. cell r ''assets_count'') (rows_of m ''UPDATE_HISTORY''),
        map (\<lambda>r. cell r ''id'') (rows_of m ''CARD''), rest))
   = (Done, [JNum 1, JNum 1, JNum 1], [JNum 1, JNum 2, JNum 3], [])"
  by code_simp

text \<open>
  Claim C7 fails: the checkpoint of a page takes \<^verbatim>\<open>assets[0].updated_at\<close>, the timestamp
  of the first record of the page. For a page of two records the row holds the earlier
  of the two timestamps; the clock reading and the count are as the claim says.
\<close>

theorem checkpoint_takes_first_record:
  "(let (r, m, rest) = CTAManager_update (sample_config 2000) new_manager
          [Page (JStr ''c1'') [sample_card ''1'' ''0xA'' ''2022-05-01'', sample_card ''2'' ''0xB'' ''2022-05-02''],
           Page (JStr ''c2'') []]
    in (r, rows_of m ''UPDATE_HISTORY''))
   = (Done, [[(''id'', JNum 1), (''update_timestamp'', JStr ''T0''),
              (''last_asset_timestamp'', JStr ''2022-05-01''), (''assets_count'', JNum 2)]])"
  by code_simp

text \<open>
  A whole cycle on the sample page of passes: the user dimension receives \<^verbatim>\<open>0xA\<close>, the
  owner of the card, and not \<^verbatim>\<open>0xC\<close>; the pass of \<^verbatim>\<open>0xC\<close> is stored with a null user key,
  the pass of \<^verbatim>\<open>0xA\<close> with the key of \<^verbatim>\<open>0xA\<close>.
\<close>

lemma pass_owner_cycle:
  "(let (r, m, rest) = CTAManager_update (sample_config 2000) new_manager
          [Page (JStr ''c1'') pass_page, Page (JStr ''c2'') []]
    in (r, map (\<lambda>r. (cell r ''id'', cell r ''user_id'')) (rows_of m ''MINT_PASS''),
        map (\<lambda>r. cell r ''address'') (rows_of m ''CTA_USER'')))
   = (Done, [(JNum 7, JNull), (JNum 8, JNum 1)], [JStr ''0xA''])"
  by code_simp

text \<open>
  The key of an update is read by the formatter as part of the template. A key with a
  directive that asks for a further argument makes \<^verbatim>\<open>format\<close> throw, and \<^verbatim>\<open>update\<close> with
  it, outside the \<^verbatim>\<open>try\<close> of \<^verbatim>\<open>query\<close>; \<^verbatim>\<open>%%\<close> in a key is sent as \<^verbatim>\<open>%\<close>. A card whose
  image name starts with \<^verbatim>\<open>%L\<close> ends the cycle with this exception: its archetype key is
  not an integer, the insert fails, and the update of the same row is built next.
\<close>

lemma update_key_directive_raises:
  "fst (DatabaseService_update (createSchema empty_store) ''CARD_META'' (FieldNames [''id'', ''name'']) ''id''
          [Obj [(''id'', JStr ''%L''), (''name'', JStr ''x'')]])
   = Inl FormatError"
  by code_simp

lemma update_text_percent:
  "update_text ''CARD_META'' (FieldNames [''id'', ''name'']) ''id''
      (Obj [(''id'', JStr ''1 %% 2''), (''name'', JStr ''x'')])
   = Inr ''UPDATE CARD_META SET (id,name) = ('1 %% 2', 'x') WHERE id = 1 % 2''"
  by code_simp

lemma update_directive_cycle:
  "fst (CTAManager_update (sample_config 2000) new_manager
          [Page (JStr ''c1'') [directive_card], Throws FetchError])
   = Raised FormatError"
  by code_simp

end
